(* ===== verification/Prelude.thy ===== *)
theory Prelude
  imports Main "HOL-Library.Word"
begin

text \<open>
  The shared vocabulary of the development: machine types, searching a table for its
  first matching slot, and the monad in which every kernel routine is written.

  A kernel routine runs on one CPU, over the whole kernel state \<open>'s\<close>.  It either
  returns to its caller, or panics (\<open>panic\<close> in \<open>console.c\<close> never returns), or spins
  on a lock nobody gives up, or is switched away and never scheduled again.  While it spins
  or is switched away, the rest of the machine moves: the moves are given up front, as a
  list of state transformers (the \<^emph>\<open>environment\<close>), and every spin round and every switch
  takes the next one.  Nothing is assumed about them in the definitions; a theorem that
  needs the other CPUs to behave says so in its hypotheses.
\<close>

section \<open>Machine types\<close>

type_synonym byte = "8 word"
type_synonym uint = "32 word"
type_synonym cint = "32 word" \<comment> \<open>a C \<open>int\<close>: compared through \<open>sint\<close>\<close>

lemma unat_lt32: "unat (a :: uint) < 4294967296"
  using unsigned_less [where 'a = nat, of a] by simp

lemma word32_of_nat_unat: "n < 4294967296 \<Longrightarrow> unat (of_nat n :: uint) = n"
  by (simp add: unat_of_nat take_bit_nat_eq_self)

section \<open>Rewrite collections\<close>

named_theorems kmonad \<open>unfolding the kernel monad\<close>
named_theorems kframe \<open>what an operation leaves alone\<close>

section \<open>Searching a table\<close>

text \<open>The loops \<open>for(p = tab; p < &tab[N]; p++) if(P(p)) goto found;\<close>.\<close>

fun first_index :: "('x \<Rightarrow> bool) \<Rightarrow> 'x list \<Rightarrow> nat option" where
  "first_index P [] = None"
| "first_index P (x # xs) = (if P x then Some 0 else map_option Suc (first_index P xs))"

lemma first_index_None: "first_index P xs = None \<longleftrightarrow> (\<forall>i<length xs. \<not> P (xs ! i))"
  by (induction xs) (auto simp: less_Suc_eq_0_disj)

lemma first_index_Some:
  "first_index P xs = Some i \<longleftrightarrow> i < length xs \<and> P (xs ! i) \<and> (\<forall>j<i. \<not> P (xs ! j))"
proof (induction xs arbitrary: i)
  case Nil
  then show ?case by simp
next
  case (Cons x xs)
  show ?case
    by (cases i) (auto simp: Cons.IH less_Suc_eq_0_disj)
qed

lemma first_index_lt: "first_index P xs = Some i \<Longrightarrow> i < length xs"
  by (simp add: first_index_Some)

lemma first_index_hit: "first_index P xs = Some i \<Longrightarrow> P (xs ! i)"
  by (simp add: first_index_Some)

lemma first_index_cong_on:
  "length xs = length ys \<Longrightarrow> (\<And>i. i < length xs \<Longrightarrow> P (xs ! i) = Q (ys ! i)) \<Longrightarrow>
   first_index P xs = first_index Q ys"
proof (induction xs ys rule: list_induct2)
  case Nil
  then show ?case by simp
next
  case (Cons x xs y ys)
  have "P x = Q y" using Cons.prems [of 0] by simp
  moreover have "first_index P xs = first_index Q ys"
    using Cons.prems [of "Suc _"] by (intro Cons.IH) force
  ultimately show ?case by simp
qed

section \<open>The kernel monad\<close>

datatype (dead 's, 'a) outcome =
    Ok 'a 's "('s \<Rightarrow> 's) list"  \<comment> \<open>returned, with the environment moves still to come\<close>
  | Panic string               \<comment> \<open>\<open>panic(msg)\<close>\<close>
  | Spin                       \<comment> \<open>busy-waits for ever\<close>
  | Asleep 's                  \<comment> \<open>switched away and not scheduled again\<close>

type_synonym ('s, 'a) K = "'s \<Rightarrow> ('s \<Rightarrow> 's) list \<Rightarrow> ('s, 'a) outcome"

definition ret :: "'a \<Rightarrow> ('s, 'a) K" where
  [kmonad]: "ret a = (\<lambda>s env. Ok a s env)"

definition bindK :: "('s, 'a) K \<Rightarrow> ('a \<Rightarrow> ('s, 'b) K) \<Rightarrow> ('s, 'b) K" where
  [kmonad]: "bindK m f = (\<lambda>s env. case m s env of
       Ok a s' env' \<Rightarrow> f a s' env'
     | Panic e \<Rightarrow> Panic e
     | Spin \<Rightarrow> Spin
     | Asleep s' \<Rightarrow> Asleep s')"

definition thenK :: "('s, unit) K \<Rightarrow> ('s, 'b) K \<Rightarrow> ('s, 'b) K" where
  [kmonad]: "thenK m n = bindK m (\<lambda>_. n)"

definition panic :: "string \<Rightarrow> ('s, 'a) K" where
  [kmonad]: "panic msg = (\<lambda>s env. Panic msg)"

definition gets :: "('s \<Rightarrow> 'a) \<Rightarrow> ('s, 'a) K" where
  [kmonad]: "gets f = (\<lambda>s env. Ok (f s) s env)"

definition modify :: "('s \<Rightarrow> 's) \<Rightarrow> ('s, unit) K" where
  [kmonad]: "modify f = (\<lambda>s env. Ok () (f s) env)"

definition whenK :: "bool \<Rightarrow> ('s, unit) K \<Rightarrow> ('s, unit) K" where
  [kmonad]: "whenK b m = (if b then m else ret ())"

text \<open>A block of statements.\<close>

fun block :: "('s, unit) K list \<Rightarrow> ('s, unit) K" where
  "block [] = ret ()"
| "block (m # ms) = thenK m (block ms)"

text \<open>A counted loop, over the list of its indices.\<close>

fun forK :: "'i list \<Rightarrow> ('i \<Rightarrow> ('s, unit) K) \<Rightarrow> ('s, unit) K" where
  "forK [] f = ret ()"
| "forK (i # is) f = thenK (f i) (forK is f)"

text \<open>Calling a routine a number of times, collecting what it returns.\<close>

primrec repeatK :: "nat \<Rightarrow> ('s, 'a) K \<Rightarrow> ('s, 'a list) K" where
  "repeatK 0 m = ret []"
| "repeatK (Suc n) m = bindK m (\<lambda>a. bindK (repeatK n m) (\<lambda>as. ret (a # as)))"

text \<open>
  A \<open>for(;;)\<close> loop whose body leaves the loop with \<open>Some r\<close> or goes round again after
  waiting.  Waiting takes an environment move, so the loop ends with the environment; a
  round that waits for nothing and does not leave repeats itself for ever.
\<close>

function loopK :: "('s, 'r option) K \<Rightarrow> ('s, 'r) K" where
  "loopK body s env = (case body s env of
       Ok (Some r) s' env' \<Rightarrow> Ok r s' env'
     | Ok None s' env' \<Rightarrow> if length env' < length env then loopK body s' env' else Spin
     | Panic e \<Rightarrow> Panic e
     | Spin \<Rightarrow> Spin
     | Asleep s' \<Rightarrow> Asleep s')"
  by pat_completeness auto
termination
  by (relation "measure (\<lambda>(body, s, env). length env)") auto

declare loopK.simps [simp del]

text \<open>The next move of the rest of the machine.\<close>

definition env_step :: "('s \<Rightarrow> ('s, unit) outcome) \<Rightarrow> ('s, unit) K" where
  [kmonad]: "env_step stuck = (\<lambda>s env. case env of [] \<Rightarrow> stuck s | e # es \<Rightarrow> Ok () (e s) es)"

lemma bindK_ret [simp]: "bindK (ret a) f = f a"
  by (simp add: kmonad)

lemma bindK_assoc: "bindK (bindK m f) g = bindK m (\<lambda>x. bindK (f x) g)"
  by (simp add: kmonad fun_eq_iff split: outcome.split)

lemma bindK_Ok:
  "bindK m f s env = Ok b t e \<longleftrightarrow> (\<exists>a s' env'. m s env = Ok a s' env' \<and> f a s' env' = Ok b t e)"
  by (simp add: kmonad split: outcome.split)

lemma loopK_leave: "body s env = Ok (Some r) s' env' \<Longrightarrow> loopK body s env = Ok r s' env'"
  by (simp add: loopK.simps [of body])

lemma loopK_round:
  "body s env = Ok None s' env' \<Longrightarrow> length env' < length env \<Longrightarrow>
   loopK body s env = loopK body s' env'"
  by (simp add: loopK.simps [of body s env])

text \<open>
  An invariant of the rounds of a loop holds when the loop returns: the rule all the
  waiting routines are verified with.
\<close>

lemma loopK_invariant:
  assumes "loopK body s env = Ok r t e"
    and "I s env"
    and "\<And>s env s' env'. I s env \<Longrightarrow> body s env = Ok None s' env' \<Longrightarrow> I s' env'"
    and "\<And>s env r s' env'. I s env \<Longrightarrow> body s env = Ok (Some r) s' env' \<Longrightarrow> Q r s' env'"
  shows "Q r t e"
  using assms(1,2)
proof (induction env arbitrary: s rule: length_induct)
  case (1 env)
  note IH = 1(1) and run = 1(2) and inv = 1(3)
  show ?case
  proof (cases "body s env")
    case (Ok x s' env')
    show ?thesis
    proof (cases x)
      case None
      with Ok run have "length env' < length env" "loopK body s' env' = Ok r t e"
        by (simp_all add: loopK.simps [of body s env] split: if_splits)
      with IH assms(3) [OF inv] Ok None show ?thesis by blast
    next
      case (Some q)
      with Ok run have "Ok q s' env' = Ok r t e" by (simp add: loopK.simps [of body s env])
      with assms(4) [OF inv] Ok Some show ?thesis by simp
    qed
  qed (use run in \<open>simp_all add: loopK.simps [of body s env]\<close>)
qed

end
