(* ===== verification/Spinlock.thy ===== *)
theory Spinlock
  imports Prelude
begin

text \<open>
  CPUs, interrupt nesting and spin locks: \<open>spinlock.c\<close>, \<open>spinlock.h\<close>, \<open>struct cpu\<close> of
  \<open>proc.h\<close>, \<open>mycpu\<close> and \<open>cpuid\<close> of \<open>proc.c\<close>.  The state \<open>kctx\<close> is the root of the
  kernel state: every later component extends it.  The hardware the routines read (the
  interrupt flag, the local APIC id of the CPU they run on) is part of it.  The fields
  \<open>pcs\<close> of a lock and \<open>scheduler\<close>, \<open>ts\<close>, \<open>gdt\<close>, \<open>started\<close> of a CPU hold no
  information the modelled routines read, and are left out.

  The second half turns acquire and release into rewriting: on a CPU in a sane state
  (\<open>cpu_ok\<close>), taking a free lock gives \<open>acquired l s\<close>, and releasing it gives back the
  state up to the saved interrupt flag (\<open>noted s\<close>).  Every critical section of the kernel
  is evaluated with these equations.
\<close>

section \<open>State\<close>

text \<open>The spin lock variables of the kernel, one constructor per variable or per array.\<close>

datatype lockid =
    PtableLock | SchedulerLock | SemaLock nat | KmemLock | FtableLock | PipeLock uint
  | IcacheLock | InodeLock nat | BcacheLock | BufLock nat | LogLock | IdeLock | TickLock
  | ConsLock

record spinlock =
  lk_locked :: uint
  lk_name :: string
  lk_cpu :: "nat option" \<comment> \<open>index in \<open>cpus\<close> of the CPU holding the lock\<close>

record cpu =
  apicid :: byte
  ncli :: int
  intena :: bool
  cproc :: "nat option" \<comment> \<open>\<open>proc\<close>: the process running on this CPU\<close>

record kctx =
  cpus :: "cpu list"
  ncpu :: nat
  lapicid :: byte   \<comment> \<open>hardware: the APIC id of the executing CPU\<close>
  FL_IF :: bool     \<comment> \<open>hardware: interrupts enabled on the executing CPU\<close>
  locks :: "lockid \<Rightarrow> spinlock"

section \<open>The code\<close>

definition mycpu :: "('a kctx_scheme, nat) K" where
  "mycpu =
     bindK (gets FL_IF) (\<lambda>on. if on then panic ''mycpu called with interrupts enabled'' else
     bindK (gets (\<lambda>s. first_index (\<lambda>c. apicid c = lapicid s) (take (ncpu s) (cpus s)))) (\<lambda>r.
       case r of None \<Rightarrow> panic ''unknown apicid'' | Some i \<Rightarrow> ret i))"

definition cpuid :: "('a kctx_scheme, nat) K" where
  "cpuid = mycpu"

definition set_cpu :: "nat \<Rightarrow> (cpu \<Rightarrow> cpu) \<Rightarrow> 'a kctx_scheme \<Rightarrow> 'a kctx_scheme" where
  "set_cpu i f s = s\<lparr>cpus := (cpus s)[i := f (cpus s ! i)]\<rparr>"

definition cli :: "('a kctx_scheme, unit) K" where
  "cli = modify (FL_IF_update (\<lambda>_. False))"

definition sti :: "('a kctx_scheme, unit) K" where
  "sti = modify (FL_IF_update (\<lambda>_. True))"

definition pushcli :: "('a kctx_scheme, unit) K" where
  "pushcli =
     bindK (gets FL_IF) (\<lambda>eflags.
     thenK cli (
     bindK mycpu (\<lambda>i.
     bindK (gets (\<lambda>s. ncli (cpus s ! i))) (\<lambda>n.
     thenK (whenK (n = 0) (modify (set_cpu i (intena_update (\<lambda>_. eflags)))))
           (modify (set_cpu i (ncli_update (\<lambda>m. m + 1))))))))"

definition popcli :: "('a kctx_scheme, unit) K" where
  "popcli =
     bindK (gets FL_IF) (\<lambda>eflags. if eflags then panic ''popcli - interruptible'' else
     bindK mycpu (\<lambda>i.
     thenK (modify (set_cpu i (ncli_update (\<lambda>m. m - 1)))) (
     bindK (gets (\<lambda>s. cpus s ! i)) (\<lambda>c.
       if ncli c < 0 then panic ''popcli''
       else whenK (ncli c = 0 \<and> intena c) sti))))"

definition set_lock :: "lockid \<Rightarrow> (spinlock \<Rightarrow> spinlock) \<Rightarrow> 'a kctx_scheme \<Rightarrow> 'a kctx_scheme" where
  "set_lock l f s = s\<lparr>locks := (locks s)(l := f (locks s l))\<rparr>"

definition initlock :: "lockid \<Rightarrow> string \<Rightarrow> ('a kctx_scheme, unit) K" where
  "initlock l name = modify (set_lock l (\<lambda>_. \<lparr>lk_locked = 0, lk_name = name, lk_cpu = None\<rparr>))"

definition holding :: "lockid \<Rightarrow> ('a kctx_scheme, bool) K" where
  "holding l =
     bindK (gets (\<lambda>s. locks s l)) (\<lambda>lk. if lk_locked lk = 0 then ret False else
     bindK mycpu (\<lambda>i. ret (lk_cpu lk = Some i)))"

text \<open>The atomic exchange: the old value is returned, the new one stored.\<close>

definition xchg_locked :: "lockid \<Rightarrow> uint \<Rightarrow> ('a kctx_scheme, uint) K" where
  "xchg_locked l v =
     bindK (gets (\<lambda>s. lk_locked (locks s l))) (\<lambda>old.
     thenK (modify (set_lock l (lk_locked_update (\<lambda>_. v)))) (ret old))"

definition acquire :: "lockid \<Rightarrow> ('a kctx_scheme, unit) K" where
  "acquire l =
     thenK pushcli (
     bindK (holding l) (\<lambda>h. if h then panic ''acquire'' else
     thenK (loopK (bindK (xchg_locked l 1) (\<lambda>old.
              if old = 0 then ret (Some ())
              else thenK (env_step (\<lambda>_. Spin)) (ret None)))) (
     bindK mycpu (\<lambda>i.
       modify (set_lock l (lk_cpu_update (\<lambda>_. Some i)))))))"

definition release :: "lockid \<Rightarrow> ('a kctx_scheme, unit) K" where
  "release l =
     bindK (holding l) (\<lambda>h. if \<not> h then panic ''release'' else
     thenK (modify (set_lock l (lk_cpu_update (\<lambda>_. None)))) (
     thenK (modify (set_lock l (lk_locked_update (\<lambda>_. 0))))
     popcli))"

section \<open>Evaluating critical sections\<close>

text \<open>The index of the executing CPU.\<close>

definition cur :: "'a kctx_scheme \<Rightarrow> nat" where
  "cur s = the (first_index (\<lambda>c. apicid c = lapicid s) (take (ncpu s) (cpus s)))"

definition cpu_ok :: "'a kctx_scheme \<Rightarrow> bool" where
  "cpu_ok s \<longleftrightarrow>
     first_index (\<lambda>c. apicid c = lapicid s) (take (ncpu s) (cpus s)) \<noteq> None \<and>
     0 \<le> ncli (cpus s ! cur s) \<and> (0 < ncli (cpus s ! cur s) \<longrightarrow> \<not> FL_IF s)"

definition free_lock :: "lockid \<Rightarrow> 'a kctx_scheme \<Rightarrow> bool" where
  "free_lock l s \<longleftrightarrow> lk_locked (locks s l) = 0 \<and> lk_cpu (locks s l) = None"

definition held_here :: "lockid \<Rightarrow> 'a kctx_scheme \<Rightarrow> bool" where
  "held_here l s \<longleftrightarrow> lk_locked (locks s l) = 1 \<and> lk_cpu (locks s l) = Some (cur s)"

text \<open>\<open>pushcli\<close> notes the interrupt flag of the outermost section.\<close>

definition noted :: "'a kctx_scheme \<Rightarrow> 'a kctx_scheme" where
  "noted s = set_cpu (cur s) (\<lambda>c. c\<lparr>intena := (if ncli c = 0 then FL_IF s else intena c)\<rparr>) s"

definition pushed :: "'a kctx_scheme \<Rightarrow> 'a kctx_scheme" where
  "pushed s = (set_cpu (cur s) (ncli_update (\<lambda>m. m + 1)) (noted s))\<lparr>FL_IF := False\<rparr>"

definition acquired :: "lockid \<Rightarrow> 'a kctx_scheme \<Rightarrow> 'a kctx_scheme" where
  "acquired l s =
     set_lock l (\<lambda>lk. lk\<lparr>lk_locked := 1, lk_cpu := Some (cur s)\<rparr>) (pushed s)"

lemma cpu_ok_cur:
  assumes "cpu_ok s"
  shows "first_index (\<lambda>c. apicid c = lapicid s) (take (ncpu s) (cpus s)) = Some (cur s)"
    and "cur s < length (cpus s)"
proof -
  obtain i where "first_index (\<lambda>c. apicid c = lapicid s) (take (ncpu s) (cpus s)) = Some i"
    using assms by (auto simp: cpu_ok_def)
  moreover from this have "cur s = i" "i < length (cpus s)"
    by (auto simp: cur_def dest: first_index_lt)
  ultimately show "first_index (\<lambda>c. apicid c = lapicid s) (take (ncpu s) (cpus s)) = Some (cur s)"
    and "cur s < length (cpus s)" by simp_all
qed

lemma set_cpu_simps [simp]:
  "length (cpus (set_cpu i f s)) = length (cpus s)"
  "ncpu (set_cpu i f s) = ncpu s"
  "lapicid (set_cpu i f s) = lapicid s"
  "FL_IF (set_cpu i f s) = FL_IF s"
  "locks (set_cpu i f s) = locks s"
  "cpus (set_cpu i f s) = (cpus s)[i := f (cpus s ! i)]"
  by (simp_all add: set_cpu_def)

lemma set_lock_simps [simp]:
  "cpus (set_lock l f s) = cpus s"
  "ncpu (set_lock l f s) = ncpu s"
  "lapicid (set_lock l f s) = lapicid s"
  "FL_IF (set_lock l f s) = FL_IF s"
  "locks (set_lock l f s) = (locks s)(l := f (locks s l))"
  by (simp_all add: set_lock_def)

text \<open>Changing a CPU in any way that keeps its APIC id does not change which CPU executes.\<close>

lemma first_index_list_update:
  "P (f (xs ! i)) = P (xs ! i) \<Longrightarrow>
   first_index P (take n (xs[i := f (xs ! i)])) = first_index P (take n xs)"
proof (rule first_index_cong_on)
  fix j assume "P (f (xs ! i)) = P (xs ! i)" "j < length (take n (xs[i := f (xs ! i)]))"
  then show "P (take n (xs[i := f (xs ! i)]) ! j) = P (take n xs ! j)"
    by (cases "i = j") auto
qed simp

lemma cur_set_cpu [simp]:
  "(\<And>c. apicid (f c) = apicid c) \<Longrightarrow> cur (set_cpu i f s) = cur s"
  by (simp add: cur_def first_index_list_update)

lemma cur_set_lock [simp]: "cur (set_lock l f s) = cur s"
  by (simp add: cur_def)

lemma cur_FL_IF [simp]: "cur (FL_IF_update f s) = cur s"
  by (simp add: cur_def)

lemma cur_locks [simp]: "cur (locks_update f s) = cur s"
  by (simp add: cur_def)

lemma cur_noted [simp]: "cur (noted s) = cur s"
  by (simp add: noted_def)

lemma cur_pushed [simp]: "cur (pushed s) = cur s"
  by (simp add: pushed_def)

lemma cur_acquired [simp]: "cur (acquired l s) = cur s"
  by (simp add: acquired_def)


lemma noted_simps [simp]:
  "ncpu (noted s) = ncpu s" "lapicid (noted s) = lapicid s" "FL_IF (noted s) = FL_IF s"
  "locks (noted s) = locks s" "length (cpus (noted s)) = length (cpus s)"
  by (simp_all add: noted_def)

lemma acquired_simps [simp]:
  "ncpu (acquired l s) = ncpu s" "lapicid (acquired l s) = lapicid s"
  "FL_IF (acquired l s) = False" "length (cpus (acquired l s)) = length (cpus s)"
  by (simp_all add: acquired_def pushed_def)

lemma ncli_noted [simp]: "cpu_ok s \<Longrightarrow> ncli (cpus (noted s) ! cur s) = ncli (cpus s ! cur s)"
  by (simp add: noted_def cpu_ok_cur)

lemma ncli_acquired [simp]:
  "cpu_ok s \<Longrightarrow> ncli (cpus (acquired l s) ! cur s) = ncli (cpus s ! cur s) + 1"
  by (simp add: acquired_def pushed_def noted_def cpu_ok_cur)

lemma cpu_found_noted [simp]:
  "first_index (\<lambda>c. apicid c = b) (take n (cpus (noted s))) =
   first_index (\<lambda>c. apicid c = b) (take n (cpus s))"
  by (simp add: noted_def first_index_list_update)

lemma cpu_found_acquired [simp]:
  "first_index (\<lambda>c. apicid c = b) (take n (cpus (acquired l s))) =
   first_index (\<lambda>c. apicid c = b) (take n (cpus s))"
  by (simp add: acquired_def pushed_def first_index_list_update)

lemma cpu_ok_noted [simp]: "cpu_ok s \<Longrightarrow> cpu_ok (noted s)"
  by (simp add: cpu_ok_def [of "noted s"]) (simp add: cpu_ok_def)

lemma cpu_ok_acquired [simp]: "cpu_ok s \<Longrightarrow> cpu_ok (acquired l s)"
  by (simp add: cpu_ok_def [of "acquired l s"]) (simp add: cpu_ok_def)

lemma free_lock_noted [simp]: "free_lock l (noted s) \<longleftrightarrow> free_lock l s"
  by (simp add: free_lock_def)

lemma free_lock_acquired [simp]: "free_lock l (acquired k s) \<longleftrightarrow> l \<noteq> k \<and> free_lock l s"
  by (simp add: free_lock_def acquired_def pushed_def)

lemma held_here_noted [simp]: "held_here l (noted s) \<longleftrightarrow> held_here l s"
  by (simp add: held_here_def)

lemma held_here_acquired [simp]: "held_here l (acquired k s) \<longleftrightarrow> l = k \<or> held_here l s"
  by (simp add: held_here_def acquired_def pushed_def)

lemma mycpu_eval [simp]: "cpu_ok s \<Longrightarrow> \<not> FL_IF s \<Longrightarrow> mycpu s env = Ok (cur s) s env"
  by (simp add: mycpu_def kmonad cpu_ok_cur)

lemma pushcli_eval: "cpu_ok s \<Longrightarrow> pushcli s env = Ok () (pushed s) env"
proof -
  assume ok: "cpu_ok s"
  have "cpu_ok (s\<lparr>FL_IF := False\<rparr>)"
    using ok by (simp add: cpu_ok_def cur_def)
  with ok show ?thesis
    by (simp add: pushcli_def kmonad cli_def pushed_def noted_def set_cpu_def cpu_ok_cur)
qed

lemma holding_eval:
  "cpu_ok s \<Longrightarrow> \<not> FL_IF s \<Longrightarrow>
   holding l s env = Ok (lk_locked (locks s l) \<noteq> 0 \<and> lk_cpu (locks s l) = Some (cur s)) s env"
  by (simp add: holding_def kmonad)

lemma cpu_ok_pushed [simp]: "cpu_ok s \<Longrightarrow> cpu_ok (pushed s)"
  using cpu_ok_acquired [of s undefined] by (simp add: acquired_def cpu_ok_def)

lemma locks_pushed: "locks (pushed s) = locks s" "FL_IF (pushed s) = False"
  by (simp_all add: pushed_def)

theorem acquire_eval [simp]:
  assumes "cpu_ok s" and "free_lock l s"
  shows "acquire l s env = Ok () (acquired l s) env"
proof -
  have "cpu_ok (set_lock l f (pushed s))" for f
    using cpu_ok_pushed [OF assms(1)] by (simp add: cpu_ok_def)
  then show ?thesis
    using assms
    by (simp add: acquire_def kmonad pushcli_eval holding_eval xchg_locked_def free_lock_def locks_pushed
        loopK.simps acquired_def set_lock_def)
qed


text \<open>The lock is held by another CPU, and one move of the other CPUs frees it.\<close>

definition busy_elsewhere :: "lockid \<Rightarrow> 'a kctx_scheme \<Rightarrow> bool" where
  "busy_elsewhere l s \<longleftrightarrow> lk_locked (locks s l) = 1 \<and> lk_cpu (locks s l) \<noteq> Some (cur s)"

lemma locks_acquired_other: "k \<noteq> l \<Longrightarrow> locks (acquired l s) k = locks s k"
  by (simp add: acquired_def locks_pushed)

lemma acquire_spins:
  assumes "cpu_ok s" "busy_elsewhere l s"
    and "f (pushed s) = pushed t" "cpu_ok t" "free_lock l t"
  shows "acquire l s (f # env) = Ok () (acquired l t) env"
proof -
  have same: "set_lock l (lk_locked_update (\<lambda>_. 1)) (pushed s) = pushed s"
    using assms(2) by (simp add: busy_elsewhere_def set_lock_def locks_pushed fun_upd_idem)
  have ok: "cpu_ok (set_lock l g (pushed t))" for g
    using cpu_ok_pushed [OF assms(4)] by (simp add: cpu_ok_def)
  let ?body = "bindK (xchg_locked l 1) (\<lambda>old. if old = 0 then ret (Some ())
      else thenK (env_step (\<lambda>_. Spin)) (ret None))"
  have "loopK ?body (pushed s) (f # env) = loopK ?body (pushed t) env"
    using assms(2,3) same by (intro loopK_round) (simp_all add: busy_elsewhere_def xchg_locked_def kmonad locks_pushed)
  also have "\<dots> = Ok () (set_lock l (lk_locked_update (\<lambda>_. 1)) (pushed t)) env"
    using assms(5) by (intro loopK_leave) (simp add: xchg_locked_def kmonad locks_pushed free_lock_def)
  finally show ?thesis
    using assms(1,2,4) ok
    by (simp add: busy_elsewhere_def acquire_def kmonad pushcli_eval holding_eval locks_pushed acquired_def set_lock_def)
qed

lemma popcli_eval:
  "cpu_ok s \<Longrightarrow> \<not> FL_IF s \<Longrightarrow> 0 < ncli (cpus s ! cur s) \<Longrightarrow>
   popcli s env = Ok () ((set_cpu (cur s) (ncli_update (\<lambda>m. m - 1)) s)
     \<lparr>FL_IF := ncli (cpus s ! cur s) = 1 \<and> intena (cpus s ! cur s)\<rparr>) env"
  by (auto simp: popcli_def kmonad cpu_ok_cur sti_def set_cpu_def)

text \<open>Releasing the lock taken last, and a lock taken before another one.\<close>

lemma set_cpu_set_cpu [simp]:
  "i < length (cpus s) \<Longrightarrow> set_cpu i f (set_cpu i g s) = set_cpu i (\<lambda>c. f (g c)) s"
  by (simp add: set_cpu_def)

lemma set_cpu_same: "f (cpus s ! i) = cpus s ! i \<Longrightarrow> set_cpu i f s = s"
  by (simp add: set_cpu_def)

lemma set_cpu_cong:
  "f (cpus s ! i) = g (cpus s ! i) \<Longrightarrow> set_cpu i f s = set_cpu i g s"
  by (simp add: set_cpu_def)

lemma set_cpu_lock: "set_cpu i f (set_lock l g s) = set_lock l g (set_cpu i f s)"
  by (simp add: set_cpu_def set_lock_def)

lemma set_lock_FL_IF: "FL_IF_update f (set_lock l g s) = set_lock l g (FL_IF_update f s)"
  by (simp add: set_lock_def)

lemma set_cpu_FL_IF: "FL_IF_update f (set_cpu i g s) = set_cpu i g (FL_IF_update f s)"
  by (simp add: set_cpu_def)

lemma set_lock_set_lock [simp]: "set_lock l f (set_lock l g s) = set_lock l (\<lambda>k. f (g k)) s"
  by (simp add: set_lock_def)

lemma set_lock_same: "f (locks s l) = locks s l \<Longrightarrow> set_lock l f s = s"
  by (simp add: set_lock_def)

lemma set_lock_commute:
  "k \<noteq> l \<Longrightarrow> set_lock k f (set_lock l g s) = set_lock l g (set_lock k f s)"
  by (simp add: set_lock_def fun_upd_twist)

lemmas kctx_normal = set_cpu_lock set_lock_FL_IF set_cpu_FL_IF

lemma noted_noted [simp]: "cpu_ok s \<Longrightarrow> noted (noted s) = noted s"
  by (simp add: noted_def [of "noted s"]) (simp add: noted_def cpu_ok_cur set_cpu_same)

lemma noted_acquired [simp]: "cpu_ok s \<Longrightarrow> noted (acquired l s) = acquired l s"
  by (simp add: noted_def [of "acquired l s"], rule set_cpu_same) (simp add: cpu_ok_def)

lemma acquired_noted [simp]: "cpu_ok s \<Longrightarrow> acquired l (noted s) = acquired l s"
  by (simp add: acquired_def pushed_def)

lemma ncli_update_id [simp]: "ncli_update (\<lambda>n. n) c = c"
  by (cases c) simp

lemma popcli_pushed:
  assumes "cpu_ok s"
  shows "popcli (pushed s) env = Ok () (noted s) env"
proof -
  let ?c = "cpus s ! cur s"
  have c: "cpus (pushed s) ! cur s =
      ?c\<lparr>ncli := ncli ?c + 1, intena := (if ncli ?c = 0 then FL_IF s else intena ?c)\<rparr>"
    using assms by (simp add: pushed_def noted_def cpu_ok_cur)
  have FL: "FL_IF s = (ncli ?c = 0 \<and> FL_IF s)" and n: "0 \<le> ncli ?c"
    using assms by (auto simp: cpu_ok_def)
  have "popcli (pushed s) env = Ok () ((set_cpu (cur s) (ncli_update (\<lambda>m. m - 1)) (pushed s))
      \<lparr>FL_IF := ncli ?c = 0 \<and> FL_IF s\<rparr>) env"
    using n by (subst popcli_eval) (auto simp: assms c, simp_all add: pushed_def)
  also have "\<dots> = Ok () ((set_cpu (cur s) (ncli_update (\<lambda>m. m - 1)) (pushed s))
      \<lparr>FL_IF := FL_IF s\<rparr>) env" by (simp only: FL [symmetric])
  finally show ?thesis
    using assms by (simp add: pushed_def noted_def cpu_ok_cur set_cpu_FL_IF o_def)
qed

theorem release_acquired [simp]:
  assumes "cpu_ok s" and "free_lock l s"
  shows "release l (acquired l s) env = Ok () (noted s) env"
proof -
  let ?t = "set_lock l (lk_locked_update (\<lambda>_. 0) \<circ> lk_cpu_update (\<lambda>_. None)) (acquired l s)"
  have t: "?t = pushed s"
    using assms(2) by (simp add: acquired_def free_lock_def o_def set_lock_same pushed_def)
  have "holding l (acquired l s) env = Ok True (acquired l s) env"
    using assms(1) by (simp add: holding_eval) (simp add: acquired_def)
  then have "release l (acquired l s) env = popcli ?t env"
    by (simp add: release_def kmonad o_def)
  also have "\<dots> = popcli (pushed s) env" by (simp only: t)
  finally show ?thesis using assms(1) by (simp add: popcli_pushed)
qed

lemma acquired_commute:
  assumes "cpu_ok s" and "k \<noteq> l"
  shows "acquired k (acquired l s) = acquired l (acquired k s)"
proof -
  have "acquired i (acquired j s) =
      set_lock i (\<lambda>lk. lk\<lparr>lk_locked := 1, lk_cpu := Some (cur s)\<rparr>)
     (set_lock j (\<lambda>lk. lk\<lparr>lk_locked := 1, lk_cpu := Some (cur s)\<rparr>)
      (set_cpu (cur s) (ncli_update (\<lambda>m. m + 1)) (pushed s)))" for i j
    using assms(1)
    by (simp add: acquired_def [of i] pushed_def [of "acquired j s"])
       (simp add: acquired_def kctx_normal pushed_def)
  with assms(2) show ?thesis by (simp add: set_lock_commute)
qed

theorem release_acquired_outer:
  assumes "cpu_ok s" and "free_lock l s" and "k \<noteq> l"
  shows "release l (acquired k (acquired l s)) env = Ok () (acquired k s) env"
  using assms by (simp add: acquired_commute [of s k l])


text \<open>Asking for a lock this CPU holds panics; so does giving up one it does not hold.\<close>

lemma acquire_held_panics:
  "cpu_ok s \<Longrightarrow> held_here l s \<Longrightarrow> acquire l s env = Panic ''acquire''"
  by (simp add: acquire_def kmonad pushcli_eval holding_eval held_here_def locks_pushed)

lemma release_free_panics: "free_lock l s \<Longrightarrow> release l s env = Panic ''release''"
  by (simp add: release_def holding_def kmonad free_lock_def)

section \<open>The interface of a lock\<close>

text \<open>
  What the rest of the kernel uses of a spin lock: from a state fit for it, acquire and
  release return, and a body that does not touch the lock runs in between as if alone.
\<close>

locale lock_section =
  fixes acq rel :: "('s, unit) K"
    and fit :: "'s \<Rightarrow> bool"
    and took finish :: "'s \<Rightarrow> 's"
  assumes acq_ok: "fit s \<Longrightarrow> acq s env = Ok () (took s) env"
    and rel_ok: "fit s \<Longrightarrow> rel (took s) env = Ok () (finish s) env"
begin

lemma section_modify:
  assumes "fit s" "fit (f s)" "f (took s) = took (f s)"
  shows "thenK acq (thenK (modify f) rel) s env = Ok () (finish (f s)) env"
  using assms by (simp add: kmonad acq_ok rel_ok)

lemma section_gets:
  assumes "fit s" "g (took s) = g s"
  shows "thenK acq (bindK (gets g) (\<lambda>r. thenK rel (ret r))) s env = Ok (g s) (finish s) env"
  using assms by (simp add: kmonad acq_ok rel_ok)

end

interpretation spin: lock_section
  "acquire l" "release l" "\<lambda>s. cpu_ok s \<and> free_lock l s" "acquired l" noted
  for l
  by unfold_locales auto

section \<open>Mutual exclusion between CPUs\<close>

text \<open>
  The atomic steps of \<open>acquire\<close> and \<open>release\<close> of one lock, taken by any number of CPUs in
  any order.  \<open>as_cpu i s\<close> is the shared state as CPU \<open>i\<close> sees it inside \<open>pushcli\<close>.
\<close>

datatype lock_pc = Outside | Spinning | Owning | Critical | Leaving

record lock_machine =
  shared :: kctx
  pcs :: "nat \<Rightarrow> lock_pc"

definition as_cpu :: "nat \<Rightarrow> kctx \<Rightarrow> kctx" where
  "as_cpu i s = s\<lparr>lapicid := apicid (cpus s ! i), FL_IF := False\<rparr>"

inductive lock_step :: "lockid \<Rightarrow> lock_machine \<Rightarrow> lock_machine \<Rightarrow> bool" for l where
  enter: "pcs m i = Outside \<Longrightarrow> i < length (cpus (shared m)) \<Longrightarrow>
     holding l (as_cpu i (shared m)) [] = Ok False t [] \<Longrightarrow>
     lock_step l m (m\<lparr>pcs := (pcs m)(i := Spinning)\<rparr>)"
| spin: "pcs m i = Spinning \<Longrightarrow> xchg_locked l 1 (shared m) [] = Ok old t [] \<Longrightarrow> old \<noteq> 0 \<Longrightarrow>
     lock_step l m (m\<lparr>shared := t\<rparr>)"
| take: "pcs m i = Spinning \<Longrightarrow> xchg_locked l 1 (shared m) [] = Ok 0 t [] \<Longrightarrow>
     lock_step l m (m\<lparr>shared := t, pcs := (pcs m)(i := Owning)\<rparr>)"
| own: "pcs m i = Owning \<Longrightarrow>
     lock_step l m (m\<lparr>shared := set_lock l (lk_cpu_update (\<lambda>_. Some i)) (shared m),
                      pcs := (pcs m)(i := Critical)\<rparr>)"
| disown: "pcs m i = Critical \<Longrightarrow> holding l (as_cpu i (shared m)) [] = Ok True t [] \<Longrightarrow>
     lock_step l m (m\<lparr>shared := set_lock l (lk_cpu_update (\<lambda>_. None)) (shared m),
                      pcs := (pcs m)(i := Leaving)\<rparr>)"
| clear: "pcs m i = Leaving \<Longrightarrow>
     lock_step l m (m\<lparr>shared := set_lock l (lk_locked_update (\<lambda>_. 0)) (shared m),
                      pcs := (pcs m)(i := Outside)\<rparr>)"

inductive_cases lock_stepE: "lock_step l m m'"

definition lock_start :: "lockid \<Rightarrow> lock_machine \<Rightarrow> bool" where
  "lock_start l m \<longleftrightarrow> (\<forall>i. pcs m i = Outside) \<and> free_lock l (shared m) \<and>
     ncpu (shared m) = length (cpus (shared m)) \<and> distinct (map apicid (cpus (shared m)))"

inductive lock_reachable :: "lockid \<Rightarrow> lock_machine \<Rightarrow> bool" for l where
  start: "lock_start l m \<Longrightarrow> lock_reachable l m"
| step: "lock_reachable l m \<Longrightarrow> lock_step l m m' \<Longrightarrow> lock_reachable l m'"

definition has_lock :: "lock_pc \<Rightarrow> bool" where
  "has_lock p \<longleftrightarrow> p = Owning \<or> p = Critical \<or> p = Leaving"

definition lock_inv :: "lockid \<Rightarrow> lock_machine \<Rightarrow> bool" where
  "lock_inv l m \<longleftrightarrow>
     ncpu (shared m) = length (cpus (shared m)) \<and> distinct (map apicid (cpus (shared m))) \<and>
     (\<forall>i. pcs m i \<noteq> Outside \<longrightarrow> i < length (cpus (shared m))) \<and>
     (lk_locked (locks (shared m) l) = 0 \<longrightarrow> (\<forall>i. \<not> has_lock (pcs m i))) \<and>
     (\<forall>i j. has_lock (pcs m i) \<longrightarrow> has_lock (pcs m j) \<longrightarrow> i = j) \<and>
     (\<forall>i. lk_cpu (locks (shared m) l) = Some i \<longleftrightarrow> pcs m i = Critical)"

lemma lock_start_inv: "lock_start l m \<Longrightarrow> lock_inv l m"
  by (auto simp: lock_start_def lock_inv_def free_lock_def has_lock_def)

lemma xchg_locked_eval:
  "xchg_locked l v s env = Ok (lk_locked (locks s l)) (set_lock l (lk_locked_update (\<lambda>_. v)) s) env"
  by (simp add: xchg_locked_def kmonad)

lemma lock_step_inv: "lock_step l m m' \<Longrightarrow> lock_inv l m \<Longrightarrow> lock_inv l m'"
  by (erule lock_stepE)
     (auto simp: lock_inv_def has_lock_def xchg_locked_eval)

lemma lock_reachable_inv: "lock_reachable l m \<Longrightarrow> lock_inv l m"
  by (induction rule: lock_reachable.induct) (auto intro: lock_start_inv lock_step_inv)

lemma mycpu_as_cpu:
  assumes "lock_inv l m" and "i < length (cpus (shared m))"
  shows "mycpu (as_cpu i (shared m)) env = Ok i (as_cpu i (shared m)) env"
proof -
  have "first_index (\<lambda>c. apicid c = apicid (cpus (shared m) ! i))
      (take (ncpu (shared m)) (cpus (shared m))) = Some i"
    using assms by (auto simp: first_index_Some lock_inv_def distinct_conv_nth)
  then show ?thesis by (simp add: mycpu_def as_cpu_def kmonad)
qed

lemma holding_as_cpu:
  assumes "lock_inv l m" and "i < length (cpus (shared m))"
  shows "holding l (as_cpu i (shared m)) env =
    Ok (pcs m i = Critical) (as_cpu i (shared m)) env"
proof -
  have "holding l (as_cpu i (shared m)) env =
      Ok (lk_locked (locks (shared m) l) \<noteq> 0 \<and> lk_cpu (locks (shared m) l) = Some i)
         (as_cpu i (shared m)) env"
    using mycpu_as_cpu [OF assms, of env] by (simp add: holding_def kmonad) (simp add: as_cpu_def)
  with assms(1) show ?thesis by (auto simp: lock_inv_def has_lock_def)
qed


definition two_cpus :: kctx where
  "two_cpus = \<lparr>cpus = [\<lparr>apicid = 0, ncli = 0, intena = False, cproc = None\<rparr>,
                      \<lparr>apicid = 4, ncli = 0, intena = False, cproc = None\<rparr>],
     ncpu = 2, lapicid = 4, FL_IF = True,
     locks = (\<lambda>_. \<lparr>lk_locked = 0, lk_name = [], lk_cpu = None\<rparr>)\<rparr>"

definition machine_start :: lock_machine where
  "machine_start = \<lparr>shared = two_cpus, pcs = (\<lambda>_. Outside)\<rparr>"

definition machine_spinning :: lock_machine where
  "machine_spinning = machine_start\<lparr>pcs := (\<lambda>_. Outside)(1 := Spinning)\<rparr>"

definition machine_owned :: lock_machine where
  "machine_owned = machine_spinning\<lparr>
     shared := set_lock KmemLock (lk_locked_update (\<lambda>_. 1)) two_cpus,
     pcs := (\<lambda>_. Outside)(1 := Owning)\<rparr>"

lemma machine_owned_reachable: "lock_reachable KmemLock machine_owned"
proof -
  have s: "lock_reachable KmemLock machine_start"
    by (rule lock_reachable.start)
       (simp add: lock_start_def machine_start_def two_cpus_def free_lock_def)
  have h: "holding KmemLock (as_cpu 1 (shared machine_start)) [] =
      Ok False (as_cpu 1 two_cpus) []"
    by (simp add: holding_def kmonad machine_start_def as_cpu_def two_cpus_def)
  have "lock_step KmemLock machine_start
      (machine_start\<lparr>pcs := (pcs machine_start)(1 := Spinning)\<rparr>)"
    by (rule lock_step.enter [OF _ _ h]) (simp_all add: machine_start_def two_cpus_def)
  then have "lock_step KmemLock machine_start machine_spinning"
    by (simp add: machine_spinning_def machine_start_def)
  with s have sp: "lock_reachable KmemLock machine_spinning" by (rule lock_reachable.step)
  have "xchg_locked KmemLock 1 (shared machine_spinning) [] =
      Ok 0 (set_lock KmemLock (lk_locked_update (\<lambda>_. 1)) two_cpus) []"
    by (simp add: xchg_locked_eval machine_spinning_def machine_start_def two_cpus_def)
  from lock_step.take [OF _ this, of 1]
  have "lock_step KmemLock machine_spinning machine_owned"
    by (simp add: machine_spinning_def machine_start_def machine_owned_def)
  with sp show ?thesis by (rule lock_reachable.step)
qed


text \<open>
  C13.  Interrupt nesting: a critical section entered on a sane CPU (taking a free lock,
  then releasing it) neither panics nor spins, leaves every lock, the interrupt flag and
  the nesting depth as they were, and changes nothing but the flag saved by the outermost
  \<open>pushcli\<close>; in between the lock is held by this CPU and interrupts are off.
\<close>

theorem acquire_release_restores:
  assumes "cpu_ok s" and "free_lock l s"
  shows "\<exists>t u. acquire l s env = Ok () t env \<and> held_here l t \<and> \<not> FL_IF t \<and>
      release l t env = Ok () u env \<and>
      locks u = locks s \<and> FL_IF u = FL_IF s \<and> ncli (cpus u ! cur s) = ncli (cpus s ! cur s) \<and>
      kctx.more u = kctx.more s"
  using assms by (simp) (simp add: noted_def set_cpu_def)

theorem acquire_release_restores_witness:
  "\<exists>t u. acquire PtableLock two_cpus [] = Ok () t [] \<and> held_here PtableLock t \<and> \<not> FL_IF t \<and>
      release PtableLock t [] = Ok () u [] \<and> FL_IF u"
proof -
  have c: "cur two_cpus = 1"
    by (simp add: cur_def two_cpus_def)
  have "cpu_ok two_cpus"
    by (simp add: cpu_ok_def c) (simp add: two_cpus_def)
  moreover have "free_lock PtableLock two_cpus" and "FL_IF two_cpus"
    by (simp_all add: free_lock_def two_cpus_def)
  ultimately show ?thesis
    using acquire_release_restores [of two_cpus PtableLock "[]"] by blast
qed



end
