(* ===== verification/Memory.thy ===== *)
theory Memory
  imports Prelude
begin

unbundle bit_operations_syntax

text \<open>
  Byte-addressed kernel memory, the address arithmetic of \<open>mmu.h\<close> and \<open>memlayout.h\<close>, the
  string instructions of \<open>x86.h\<close> that \<open>string.c\<close> uses, and the \<open>mem*\<close> routines of
  \<open>string.c\<close>.  \<open>memset\<close> stores words when it can and bytes otherwise, and \<open>memmove\<close> picks
  the direction of its loop from the overlap; both are shown equal to the obvious
  specification (\<open>filled\<close>, \<open>copied\<close>).
\<close>

type_synonym memory = "uint \<Rightarrow> byte"

section \<open>Address arithmetic\<close>

abbreviation PGSIZE :: uint where "PGSIZE \<equiv> 4096"
abbreviation KERNBASE :: uint where "KERNBASE \<equiv> 0x80000000"
abbreviation PHYSTOP :: uint where "PHYSTOP \<equiv> 0xE000000"
abbreviation EXTMEM :: uint where "EXTMEM \<equiv> 0x100000"
abbreviation DEVSPACE :: uint where "DEVSPACE \<equiv> 0xFE000000"

definition V2P :: "uint \<Rightarrow> uint" where
  "V2P a = a - KERNBASE"

definition P2V :: "uint \<Rightarrow> uint" where
  "P2V a = a + KERNBASE"

definition PGROUNDUP :: "uint \<Rightarrow> uint" where
  "PGROUNDUP sz = (sz + PGSIZE - 1) AND NOT (PGSIZE - 1)"

definition PGROUNDDOWN :: "uint \<Rightarrow> uint" where
  "PGROUNDDOWN a = a AND NOT (PGSIZE - 1)"

lemma V2P_P2V [simp]: "V2P (P2V a) = a"
  by (simp add: V2P_def P2V_def)

lemma P2V_V2P [simp]: "P2V (V2P a) = a"
  by (simp add: V2P_def P2V_def)

lemma and_not_mask_eq: "(a :: uint) AND NOT (mask n) = push_bit n (drop_bit n a)"
  by (rule bit_word_eqI) (auto simp: bit_simps)

lemma mask_off_low: "(a :: uint) AND - 4096 = a div 4096 * 4096"
proof -
  have "NOT (mask 12 :: uint) = - 4096" by (simp add: mask_eq_exp_minus_1)
  then show ?thesis
    using and_not_mask_eq [of a 12] by (simp add: push_bit_eq_mult drop_bit_eq_div)
qed

lemma unat_PGROUNDDOWN: "unat (PGROUNDDOWN a) = unat a div 4096 * 4096"
proof -
  have "unat a div 4096 * 4096 < 2 ^ 32"
    using unat_lt32 [of a] by simp
  then show ?thesis
    by (simp add: PGROUNDDOWN_def mask_off_low unat_word_ariths unat_div)
qed

lemma unat_PGROUNDUP:
  assumes "unat a \<le> 2 ^ 32 - 4096"
  shows "unat (PGROUNDUP a) = (unat a + 4095) div 4096 * 4096"
proof -
  have "unat (a + 4095) = unat a + 4095"
    using assms by (simp add: unat_word_ariths)
  moreover have "PGROUNDUP a = PGROUNDDOWN (a + 4095)"
    by (simp add: PGROUNDUP_def PGROUNDDOWN_def add.commute)
  ultimately show ?thesis by (simp add: unat_PGROUNDDOWN)
qed

section \<open>Words in memory\<close>

definition load32 :: "memory \<Rightarrow> uint \<Rightarrow> uint" where
  "load32 m a = ucast (m a) OR push_bit 8 (ucast (m (a + 1)))
     OR push_bit 16 (ucast (m (a + 2))) OR push_bit 24 (ucast (m (a + 3)))"

definition store32 :: "memory \<Rightarrow> uint \<Rightarrow> uint \<Rightarrow> memory" where
  "store32 m a w = m(a := ucast w, a + 1 := ucast (drop_bit 8 w),
     a + 2 := ucast (drop_bit 16 w), a + 3 := ucast (drop_bit 24 w))"

lemma load32_bytes:
  "ucast (ucast (w :: uint) :: byte) OR push_bit 8 (ucast (ucast (drop_bit 8 w) :: byte))
     OR push_bit 16 (ucast (ucast (drop_bit 16 w) :: byte))
     OR push_bit 24 (ucast (ucast (drop_bit 24 w) :: byte)) = w"
proof (rule bit_word_eqI)
  fix n assume "n < LENGTH(32)"
  then consider "n < 8" | "8 \<le> n" "n < 16" | "16 \<le> n" "n < 24" | "24 \<le> n" "n < 32"
    by fastforce
  then show "bit (ucast (ucast w :: byte) OR push_bit 8 (ucast (ucast (drop_bit 8 w) :: byte))
     OR push_bit 16 (ucast (ucast (drop_bit 16 w) :: byte))
     OR push_bit 24 (ucast (ucast (drop_bit 24 w) :: byte)) :: uint) n = bit w n"
    by cases (auto simp: bit_simps)
qed

lemma word_offsets [simp]:
  "(a :: uint) + 1 \<noteq> a" "a + 2 \<noteq> a" "a + 3 \<noteq> a" "a \<noteq> a + 1" "a \<noteq> a + 2" "a \<noteq> a + 3"
  by simp_all

lemma load32_store32 [simp]: "load32 (store32 m a w) a = w"
  by (simp add: load32_def store32_def load32_bytes)

lemma store32_other: "4 \<le> b - a \<Longrightarrow> store32 m a w b = m b"
  by (auto simp: store32_def word_le_nat_alt)

lemma word_less_4: "(0 :: uint) < 4" "(1 :: uint) < 4" "(2 :: uint) < 4" "(3 :: uint) < 4"
  by simp_all

lemma load32_cong:
  "(\<And>k. k < 4 \<Longrightarrow> m (a + k) = m' (a + k)) \<Longrightarrow> load32 m a = load32 m' a"
  by (metis (no_types) add.right_neutral load32_def word_less_4)

section \<open>Filling and copying\<close>

text \<open>\<open>rep stosb\<close> and \<open>rep stosl\<close> (\<open>x86.h\<close>): store the value \<open>cnt\<close> times, moving up.\<close>

primrec stosb :: "memory \<Rightarrow> uint \<Rightarrow> byte \<Rightarrow> nat \<Rightarrow> memory" where
  "stosb m addr data 0 = m"
| "stosb m addr data (Suc cnt) = stosb (m(addr := data)) (addr + 1) data cnt"

primrec stosl :: "memory \<Rightarrow> uint \<Rightarrow> uint \<Rightarrow> nat \<Rightarrow> memory" where
  "stosl m addr data 0 = m"
| "stosl m addr data (Suc cnt) = stosl (store32 m addr data) (addr + 4) data cnt"

definition memset :: "memory \<Rightarrow> uint \<Rightarrow> cint \<Rightarrow> uint \<Rightarrow> memory" where
  "memset m dst c n =
     (if dst mod 4 = 0 \<and> n mod 4 = 0 then
        let c = c AND 0xFF in
        stosl m dst (push_bit 24 c OR push_bit 16 c OR push_bit 8 c OR c) (unat n div 4)
      else stosb m dst (ucast c) (unat n))"

text \<open>The two copying loops: \<open>*d++ = *s++\<close> upwards and \<open>*--d = *--s\<close> downwards.\<close>

primrec copy_up :: "memory \<Rightarrow> uint \<Rightarrow> uint \<Rightarrow> nat \<Rightarrow> memory" where
  "copy_up m d s 0 = m"
| "copy_up m d s (Suc n) = copy_up (m(d := m s)) (d + 1) (s + 1) n"

primrec copy_down :: "memory \<Rightarrow> uint \<Rightarrow> uint \<Rightarrow> nat \<Rightarrow> memory" where
  "copy_down m d s 0 = m"
| "copy_down m d s (Suc n) = copy_down (m(d - 1 := m (s - 1))) (d - 1) (s - 1) n"

definition memmove :: "memory \<Rightarrow> uint \<Rightarrow> uint \<Rightarrow> uint \<Rightarrow> memory" where
  "memmove m dst src n =
     (if src < dst \<and> src + n > dst then copy_down m (dst + n) (src + n) (unat n)
      else copy_up m dst src (unat n))"

definition memcpy :: "memory \<Rightarrow> uint \<Rightarrow> uint \<Rightarrow> uint \<Rightarrow> memory" where
  "memcpy m dst src n = memmove m dst src n"

text \<open>The specifications.\<close>

definition filled :: "memory \<Rightarrow> uint \<Rightarrow> byte \<Rightarrow> nat \<Rightarrow> memory" where
  "filled m d c n = (\<lambda>a. if unat (a - d) < n then c else m a)"

definition copied :: "memory \<Rightarrow> uint \<Rightarrow> uint \<Rightarrow> nat \<Rightarrow> memory" where
  "copied m d s n = (\<lambda>a. if unat (a - d) < n then m (s + (a - d)) else m a)"

lemma unat_minus_1: "(x :: uint) \<noteq> 0 \<Longrightarrow> unat (x - 1) = unat x - 1"
  by (metis One_nat_def unat_1 unat_sub word_less_1 word_not_simps(1) linorder_not_le)

lemma offset_Suc:
  "unat ((a :: uint) - d) < Suc n \<longleftrightarrow> a = d \<or> unat (a - (d + 1)) < n"
  if "n < 4294967296"
proof (cases "a = d")
  case True
  then show ?thesis by simp
next
  case False
  then have "unat (a - (d + 1)) = unat (a - d) - 1"
    unfolding diff_diff_eq [symmetric] by (intro unat_minus_1) simp
  moreover have "0 < unat (a - d)" using False by (simp add: unat_gt_0)
  ultimately show ?thesis using False by auto
qed

lemma stosb_filled: "n < 4294967296 \<Longrightarrow> stosb m d c n = filled m d c n"
proof (induction n arbitrary: m d)
  case 0
  then show ?case by (simp add: filled_def)
next
  case (Suc n)
  then show ?case
    by (simp add: filled_def fun_eq_iff offset_Suc)
qed

lemma stosb_add: "stosb m d c (k + n) = stosb (stosb m d c k) (d + of_nat k) c n"
  by (induction k arbitrary: m d) (simp_all add: add.assoc)

definition splat :: "uint \<Rightarrow> uint" where
  "splat b = push_bit 24 b OR push_bit 16 b OR push_bit 8 b OR b"

lemma store32_splat: "store32 m a (splat (c AND 0xFF)) = stosb m a (ucast c) 4"
proof -
  define b where "b = c AND 0xFF"
  have b: "b = take_bit 8 c"
    unfolding b_def take_bit_eq_mask by (simp add: mask_eq_exp_minus_1)
  have "ucast (push_bit 24 b OR push_bit 16 b OR push_bit 8 b OR b) = (ucast c :: byte)"
    and "ucast (drop_bit 8 (push_bit 24 b OR push_bit 16 b OR push_bit 8 b OR b)) = (ucast c :: byte)"
    and "ucast (drop_bit 16 (push_bit 24 b OR push_bit 16 b OR push_bit 8 b OR b)) = (ucast c :: byte)"
    and "ucast (drop_bit 24 (push_bit 24 b OR push_bit 16 b OR push_bit 8 b OR b)) = (ucast c :: byte)"
    unfolding b by (rule bit_word_eqI; auto simp: bit_simps)+
  then have "store32 m a (splat b) = stosb m a (ucast c) 4"
    by (simp add: store32_def splat_def numeral_eq_Suc add.assoc)
  then show ?thesis by (simp add: b_def)
qed

lemma stosl_splat: "stosl m a (splat (c AND 0xFF)) n = stosb m a (ucast c) (4 * n)"
proof (induction n arbitrary: m a)
  case (Suc n)
  then show ?case
    using stosb_add [of m a "ucast c" 4 "4 * n"] by (simp add: store32_splat)
qed simp

lemma copy_up_copied:
  assumes "n < 4294967296" and "d = s \<or> n \<le> unat (d - s)"
  shows "copy_up m d s n = copied m d s n"
  using assms
proof (induction n arbitrary: m d s)
  case 0
  then show ?case by (simp add: copied_def)
next
  case (Suc n)
  have "copy_up m d s (Suc n) = copied (m(d := m s)) (d + 1) (s + 1) n"
    using Suc by auto
  also have "\<dots> = copied m d s (Suc n)"
  proof
    fix a
    have "a - d = d - s" if "s + (a - d) = d"
      using that by (metis add_diff_cancel_left')
    then have "s + (a - d) = d \<Longrightarrow> a \<noteq> d \<Longrightarrow> unat (a - d) < Suc n \<Longrightarrow> False"
      using Suc.prems(2) by auto
    moreover have "unat (d - (d + 1)) = 4294967295"
      by (simp add: unsigned_minus_1_eq_mask mask_eq_exp_minus_1)
    ultimately show "copied (m(d := m s)) (d + 1) (s + 1) n a = copied m d s (Suc n) a"
      using Suc.prems(1) offset_Suc [of n a d] by (cases "a = d") (auto simp: copied_def)
  qed
  finally show ?case .
qed

lemma copy_down_copied:
  assumes "n < 4294967296" and "d = s \<or> n \<le> unat (s - d)"
  shows "copy_down m (d + of_nat n) (s + of_nat n) n = copied m d s n"
  using assms
proof (induction n arbitrary: m)
  case 0
  then show ?case by (simp add: copied_def)
next
  case (Suc n)
  let ?k = "of_nat n :: uint"
  have k: "unat ?k = n" using Suc.prems(1) by (intro word32_of_nat_unat) simp
  have "copy_down m (d + of_nat (Suc n)) (s + of_nat (Suc n)) (Suc n) =
      copied (m(d + ?k := m (s + ?k))) d s n"
    using Suc by auto
  also have "\<dots> = copied m d s (Suc n)"
  proof
    fix a
    have "a = d + ?k \<longleftrightarrow> unat (a - d) = n"
    proof -
      have "a = d + ?k \<longleftrightarrow> a - d = ?k" by (auto simp: algebra_simps)
      then show ?thesis by (simp add: word_unat_eq_iff k)
    qed
    moreover have "s + (a - d) = d + ?k \<Longrightarrow> unat (a - d) < n \<Longrightarrow> False"
    proof -
      assume eq: "s + (a - d) = d + ?k" and lt: "unat (a - d) < n"
      then have sd: "s - d = ?k - (a - d)" by (simp add: algebra_simps)
      have "unat (?k - (a - d)) = n - unat (a - d)"
        using lt k by (simp add: unat_sub word_le_nat_alt)
      then have "unat (s - d) = n - unat (a - d)" by (simp only: sd)
      with Suc.prems(2) lt show False by auto
    qed
    ultimately show "copied (m(d + ?k := m (s + ?k))) d s n a = copied m d s (Suc n) a"
      by (auto simp: copied_def less_Suc_eq)
  qed
  finally show ?case .
qed

text \<open>
  \<open>memset\<close> fills exactly the \<open>n\<close> bytes at \<open>dst\<close> with the low byte of \<open>c\<close>, whether it
  runs word-wise or byte-wise.
\<close>

lemma memset_fills: "memset m dst c n = filled m dst (ucast c) (unat n)"
proof -
  have "4 * (unat n div 4) = unat n" if "n mod 4 = 0"
  proof -
    have "unat n mod 4 = unat (n mod 4)" by (simp add: unat_mod)
    with that show ?thesis by auto
  qed
  then show ?thesis
    using stosl_splat [of m dst c "unat n div 4"] stosb_filled [of "unat n" m dst "ucast c"]
      unat_lt32 [of n]
    by (simp add: memset_def splat_def Let_def)
qed

lemma memmove_copied:
  assumes "unat src + unat n < 2 ^ 32" and "unat dst + unat n < 2 ^ 32"
  shows "memmove m dst src n = copied m dst src (unat n)"
proof -
  have sum: "unat (src + n) = unat src + unat n"
    using assms(1) by (simp add: unat_word_ariths)
  have n: "of_nat (unat n) = n" "unat n < 4294967296" using unat_lt32 by simp_all
  show ?thesis
  proof (cases "src < dst \<and> src + n > dst")
    case True
    then have "unat (src - dst) = 4294967296 - (unat dst - unat src)"
      by (simp add: unat_sub_if_size word_size word_less_nat_alt)
    then have "dst = src \<or> unat n \<le> unat (src - dst)"
      using assms True by (auto simp: word_less_nat_alt)
    from copy_down_copied [OF n(2) this] True show ?thesis by (simp add: memmove_def)
  next
    case False
    have "dst = src \<or> unat n \<le> unat (dst - src)"
      using False assms sum
      by (auto simp: unat_sub_if_size word_size word_less_nat_alt word_unat_eq_iff)
    from copy_up_copied [OF n(2) this] False show ?thesis by (auto simp: memmove_def)
  qed
qed

text \<open>
  C6.  \<open>memmove\<close> copies as if through a snapshot of the source, for every overlap of the two
  regions, as long as neither region runs past the end of the address space.
\<close>

theorem memmove_copies:
  assumes "unat src + unat n < 2 ^ 32" and "unat dst + unat n < 2 ^ 32"
  shows "memmove m dst src n = copied m dst src (unat n)"
  using assms by (rule memmove_copied)

theorem memmove_copies_witness:
  "memmove (\<lambda>a. ucast a) 102 100 4 = copied (\<lambda>a. ucast a) 102 100 4 \<and>
   memmove (\<lambda>a. ucast a) 102 100 4 104 = 102"
proof -
  have "memmove (\<lambda>a. ucast a) 102 100 4 = copied (\<lambda>a. ucast a) 102 100 4"
    using memmove_copies [of 100 4 102 "\<lambda>a. ucast a"] by simp
  then show ?thesis by (simp add: copied_def)
qed

end
