(* ===== verification/Kalloc.thy ===== *)
theory Kalloc
  imports Spinlock Memory
begin

text \<open>
  The physical page allocator, \<open>kalloc.c\<close>.  The free list is threaded through the free
  pages themselves, so the model keeps it there: \<open>kmem.freelist\<close> is an address and the
  link of a free page is the word at its start.  \<open>fl m p xs\<close> reads the list \<open>xs\<close> of free
  pages off memory.  The interface the rest of the kernel relies on is the locale
  \<open>page_allocator\<close>.
\<close>

section \<open>State\<close>

record kmem_t =
  use_lock :: bool
  freelist :: uint

record kmem_state = kctx +
  kmem :: kmem_t
  mem :: memory
  kend :: uint \<comment> \<open>the linker symbol \<open>end\<close>: first address after the kernel\<close>

section \<open>The code\<close>

definition kfree :: "uint \<Rightarrow> ('a kmem_state_scheme, unit) K" where
  "kfree v =
     bindK (gets kend) (\<lambda>end.
     if v mod PGSIZE \<noteq> 0 \<or> v < end \<or> V2P v \<ge> PHYSTOP then panic ''kfree'' else
     thenK (modify (\<lambda>s. s\<lparr>mem := memset (mem s) v 1 PGSIZE\<rparr>)) (
     bindK (gets (\<lambda>s. use_lock (kmem s))) (\<lambda>lock. block
       [whenK lock (acquire KmemLock),
        modify (\<lambda>s. s\<lparr>mem := store32 (mem s) v (freelist (kmem s))\<rparr>),
        modify (\<lambda>s. s\<lparr>kmem := (kmem s)\<lparr>freelist := v\<rparr>\<rparr>),
        whenK lock (release KmemLock)])))"

definition kalloc :: "('a kmem_state_scheme, uint) K" where
  "kalloc =
     bindK (gets (\<lambda>s. use_lock (kmem s))) (\<lambda>lock.
     thenK (whenK lock (acquire KmemLock)) (
     bindK (gets (\<lambda>s. freelist (kmem s))) (\<lambda>r.
     thenK (whenK (r \<noteq> 0) (modify (\<lambda>s. s\<lparr>kmem := (kmem s)\<lparr>freelist := load32 (mem s) r\<rparr>\<rparr>))) (
     thenK (whenK lock (release KmemLock)) (
     ret r)))))"

text \<open>
  The loop of \<open>freerange\<close>.  The address space has \<open>2 ^ 20\<close> pages, so a loop that has
  gone round more often than that is going round for ever.
\<close>

fun free_pages :: "nat \<Rightarrow> uint \<Rightarrow> uint \<Rightarrow> ('a kmem_state_scheme, unit) K" where
  "free_pages 0 p vend = (\<lambda>s env. Spin)"
| "free_pages (Suc n) p vend =
     (if p + PGSIZE \<le> vend then thenK (kfree p) (free_pages n (p + PGSIZE) vend) else ret ())"

definition freerange :: "uint \<Rightarrow> uint \<Rightarrow> ('a kmem_state_scheme, unit) K" where
  "freerange vstart vend = free_pages (Suc (2 ^ 20)) (PGROUNDUP vstart) vend"

definition kinit1 :: "uint \<Rightarrow> uint \<Rightarrow> ('a kmem_state_scheme, unit) K" where
  "kinit1 vstart vend = block
     [initlock KmemLock ''kmem'',
      modify (\<lambda>s. s\<lparr>kmem := (kmem s)\<lparr>use_lock := False\<rparr>\<rparr>),
      freerange vstart vend]"

definition kinit2 :: "uint \<Rightarrow> uint \<Rightarrow> ('a kmem_state_scheme, unit) K" where
  "kinit2 vstart vend = block
     [freerange vstart vend,
      modify (\<lambda>s. s\<lparr>kmem := (kmem s)\<lparr>use_lock := True\<rparr>\<rparr>)]"

section \<open>Frame rules\<close>

lemma kmem_frame [simp]:
  "kmem (acquired l s) = kmem s" "mem (acquired l s) = mem s" "kend (acquired l s) = kend s"
  "kmem (noted s) = kmem s" "mem (noted s) = mem s" "kend (noted s) = kend s"
  by (simp_all add: acquired_def pushed_def noted_def set_cpu_def set_lock_def)

lemma kmem_commute [simp]:
  "kmem_update f (acquired l s) = acquired l (kmem_update f s)"
  "mem_update g (acquired l s) = acquired l (mem_update g s)"
  "kmem_update f (noted s) = noted (kmem_update f s)"
  "mem_update g (noted s) = noted (mem_update g s)"
  by (simp_all add: acquired_def pushed_def noted_def set_cpu_def set_lock_def cur_def)

lemma kmem_context [simp]:
  "cur (kmem_update f s) = cur s" "cur (mem_update g s) = cur s"
  "cpu_ok (kmem_update f s) = cpu_ok s" "cpu_ok (mem_update g s) = cpu_ok s"
  "free_lock l (kmem_update f s) = free_lock l s" "free_lock l (mem_update g s) = free_lock l s"
  "held_here l (kmem_update f s) = held_here l s" "held_here l (mem_update g s) = held_here l s"
  by (simp_all add: cur_def cpu_ok_def free_lock_def held_here_def)

declare mod_0_imp_dvd [rule del]

section \<open>The free list\<close>

primrec fl :: "memory \<Rightarrow> uint \<Rightarrow> uint list \<Rightarrow> bool" where
  "fl m p [] \<longleftrightarrow> p = 0"
| "fl m p (x # xs) \<longleftrightarrow> p = x \<and> x \<noteq> 0 \<and> fl m (load32 m x) xs"

definition page_ok :: "uint \<Rightarrow> uint \<Rightarrow> bool" where
  "page_ok end v \<longleftrightarrow> v mod PGSIZE = 0 \<and> end \<le> v \<and> V2P v < PHYSTOP"

definition kmem_inv :: "'a kmem_state_scheme \<Rightarrow> uint list \<Rightarrow> bool" where
  "kmem_inv s xs \<longleftrightarrow> fl (mem s) (freelist (kmem s)) xs \<and> distinct xs \<and>
     (\<forall>x\<in>set xs. page_ok (kend s) x)"

text \<open>Two memories that differ at most inside the page at \<open>v\<close>.\<close>

definition same_outside :: "uint \<Rightarrow> memory \<Rightarrow> memory \<Rightarrow> bool" where
  "same_outside v m m' \<longleftrightarrow> (\<forall>a. 4096 \<le> unat (a - v) \<longrightarrow> m' a = m a)"

lemma page_ok_nonzero: "page_ok e v \<Longrightarrow> v \<noteq> 0"
  by (auto simp: page_ok_def V2P_def)

lemma aligned_unat:
  fixes a :: uint
  assumes "a mod 4096 = 0"
  obtains q where "unat a = 4096 * q" and "q < 1048576"
proof -
  have "unat (a mod 4096) = 0" using assms by simp
  then have "unat a mod 4096 = 0" by (simp add: unat_mod)
  then have "4096 dvd unat a" by (rule mod_0_imp_dvd)
  then obtain q where "unat a = 4096 * q" ..
  with unat_lt32 [of a] that show thesis by simp
qed

lemma page_offset_div:
  fixes a k :: uint
  assumes "a mod 4096 = 0" and "unat k < 4096"
  shows "unat (a + k) div 4096 = unat a div 4096"
proof -
  obtain q where q: "unat a = 4096 * q" "q < 1048576" using assms(1) by (rule aligned_unat)
  with assms(2) have "unat (a + k) = 4096 * q + unat k" by (simp add: unat_word_ariths)
  with q assms(2) show ?thesis by simp
qed

text \<open>Distinct pages do not overlap.\<close>

lemma pages_disjoint:
  fixes x v k :: uint
  assumes "x mod 4096 = 0" "v mod 4096 = 0" "x \<noteq> v" "unat k < 4096"
  shows "4096 \<le> unat (x + k - v)"
proof (rule ccontr)
  assume "\<not> 4096 \<le> unat (x + k - v)"
  then have "unat (v + (x + k - v)) div 4096 = unat v div 4096"
    using assms(2) by (intro page_offset_div) simp_all
  moreover have "unat (v + (x + k - v)) div 4096 = unat x div 4096"
    using page_offset_div [OF assms(1,4)] by simp
  ultimately have "unat x = unat v"
    using aligned_unat [OF assms(1)] aligned_unat [OF assms(2)]
    by (metis nonzero_mult_div_cancel_left zero_neq_numeral)
  with assms(3) show False by (simp add: word_unat_eq_iff)
qed

lemma load32_same_outside:
  assumes "same_outside v m m'" "x mod 4096 = 0" "v mod 4096 = 0" "x \<noteq> v"
  shows "load32 m' x = load32 m x"
  using assms pages_disjoint [OF assms(2,3,4)]
  by (intro load32_cong) (auto simp: same_outside_def word_less_nat_alt)

lemma same_outside_refl [simp]: "same_outside v m m"
  by (simp add: same_outside_def)

lemma same_outside_memset: "same_outside v m (memset m v c PGSIZE)"
  by (simp add: same_outside_def memset_fills filled_def)

lemma same_outside_store32: "same_outside v m m' \<Longrightarrow> same_outside v m (store32 m' v w)"
  by (auto simp: same_outside_def word_le_nat_alt store32_other)

lemma same_outside_offset:
  fixes a v off :: uint
  assumes "4096 \<le> unat (a - v)" "unat off \<le> 4096"
  shows "unat (a - (v + off)) = unat (a - v) - unat off"
proof -
  have "off \<le> a - v" using assms by (simp add: word_le_nat_alt)
  then show ?thesis by (simp add: diff_diff_eq [symmetric] unat_sub)
qed

lemma same_outside_store32_at:
  assumes "same_outside v m m'" "unat off + 4 \<le> 4096"
  shows "same_outside v m (store32 m' (v + off) w)"
  using assms by (simp add: same_outside_def store32_other word_le_nat_alt same_outside_offset)

lemma same_outside_memset_at:
  assumes "same_outside v m m'" "unat off + unat n \<le> 4096"
  shows "same_outside v m (memset m' (v + off) c n)"
  using assms by (auto simp: same_outside_def memset_fills filled_def same_outside_offset)

lemma fl_same_outside:
  assumes "same_outside v m m'" "v mod 4096 = 0" "v \<notin> set xs" "\<forall>x\<in>set xs. x mod 4096 = 0"
  shows "fl m' p xs = fl m p xs"
  using assms(3,4)
proof (induction xs arbitrary: p)
  case (Cons x xs)
  then have "load32 m' x = load32 m x"
    using assms(1,2) by (intro load32_same_outside) auto
  with Cons show ?case by simp
qed simp

text \<open>
  The owner of a page may write anything into it: the allocator's invariant does not
  depend on the contents of pages that are not free.
\<close>

lemma kmem_inv_owner_writes:
  assumes "kmem_inv s xs" "v mod 4096 = 0" "v \<notin> set xs" "same_outside v (mem s) m'"
  shows "kmem_inv (s\<lparr>mem := m'\<rparr>) xs"
  using assms fl_same_outside [OF assms(4,2,3)]
  by (auto simp: kmem_inv_def page_ok_def)

section \<open>What the routines do\<close>

definition settled :: "'a kmem_state_scheme \<Rightarrow> 'a kmem_state_scheme" where
  "settled s = (if use_lock (kmem s) then noted s else s)"

definition kmem_ready :: "'a kmem_state_scheme \<Rightarrow> bool" where
  "kmem_ready s \<longleftrightarrow> (use_lock (kmem s) \<longrightarrow> cpu_ok s \<and> free_lock KmemLock s)"

definition kfreed :: "uint \<Rightarrow> 'a kmem_state_scheme \<Rightarrow> 'a kmem_state_scheme" where
  "kfreed v s = settled (s\<lparr>mem := store32 (memset (mem s) v 1 PGSIZE) v (freelist (kmem s)),
     kmem := (kmem s)\<lparr>freelist := v\<rparr>\<rparr>)"

definition kalloced :: "'a kmem_state_scheme \<Rightarrow> 'a kmem_state_scheme" where
  "kalloced s = settled (if freelist (kmem s) = 0 then s
     else s\<lparr>kmem := (kmem s)\<lparr>freelist := load32 (mem s) (freelist (kmem s))\<rparr>\<rparr>)"

lemma kfree_eval:
  assumes "kmem_ready s"
  shows "kfree v s env = (if page_ok (kend s) v then Ok () (kfreed v s) env else Panic ''kfree'')"
proof -
  have "page_ok (kend s) v \<longleftrightarrow> \<not> (v mod PGSIZE \<noteq> 0 \<or> v < kend s \<or> V2P v \<ge> PHYSTOP)"
    by (auto simp: page_ok_def not_less not_le)
  with assms show ?thesis
    by (cases "use_lock (kmem s)")
       (simp_all add: kfree_def kmonad kmem_ready_def kfreed_def settled_def)
qed

lemma kalloc_eval:
  assumes "kmem_ready s"
  shows "kalloc s env = Ok (freelist (kmem s)) (kalloced s) env"
  using assms
  by (cases "use_lock (kmem s)")
     (simp_all add: kalloc_def kmonad kmem_ready_def kalloced_def settled_def)

lemma settled_simps [simp]:
  "kmem (settled s) = kmem s" "mem (settled s) = mem s" "kend (settled s) = kend s"
  by (simp_all add: settled_def)

lemma kmem_ready_settled [simp]: "kmem_ready s \<Longrightarrow> kmem_ready (settled s)"
  by (simp add: kmem_ready_def settled_def)

lemma kmem_ready_kfreed [simp]: "kmem_ready s \<Longrightarrow> kmem_ready (kfreed v s)"
  unfolding kfreed_def by (rule kmem_ready_settled) (simp add: kmem_ready_def)

lemma kmem_ready_kalloced [simp]: "kmem_ready s \<Longrightarrow> kmem_ready (kalloced s)"
  unfolding kalloced_def by (rule kmem_ready_settled) (simp add: kmem_ready_def)

lemma kend_kept [simp]: "kend (kfreed v s) = kend s" "kend (kalloced s) = kend s"
  by (simp_all add: kfreed_def kalloced_def)

lemma mem_kalloced [simp]: "mem (kalloced s) = mem s"
  by (simp add: kalloced_def)

lemma kmem_inv_kfreed:
  assumes "kmem_inv s xs" "page_ok (kend s) v" "v \<notin> set xs"
  shows "kmem_inv (kfreed v s) (v # xs)"
proof -
  let ?m = "store32 (memset (mem s) v 1 PGSIZE) v (freelist (kmem s))"
  have "fl ?m (freelist (kmem s)) xs = fl (mem s) (freelist (kmem s)) xs"
    using assms
    by (intro fl_same_outside [of v] same_outside_store32 same_outside_memset)
       (auto simp: page_ok_def kmem_inv_def)
  with assms show ?thesis
    by (simp add: kmem_inv_def kfreed_def page_ok_nonzero)
qed

lemma kmem_inv_kalloced: "kmem_inv s (x # xs) \<Longrightarrow> kmem_inv (kalloced s) xs"
  by (auto simp: kmem_inv_def kalloced_def)

lemma kmem_inv_Nil: "kmem_inv s [] \<longleftrightarrow> freelist (kmem s) = 0"
  by (simp add: kmem_inv_def)

section \<open>The interface\<close>

text \<open>
  A page allocator: \<open>inv s xs\<close> says that \<open>xs\<close> are the free pages of \<open>s\<close>, in the order
  they will be handed out.
\<close>

locale page_allocator =
  fixes alloc :: "('s, uint) K"
    and dealloc :: "uint \<Rightarrow> ('s, unit) K"
    and inv :: "'s \<Rightarrow> uint list \<Rightarrow> bool"
    and ready :: "'s \<Rightarrow> bool"
    and legit :: "'s \<Rightarrow> uint \<Rightarrow> bool"
  assumes alloc_page: "ready s \<Longrightarrow> inv s (x # xs) \<Longrightarrow>
      \<exists>t. alloc s env = Ok x t env \<and> inv t xs \<and> ready t \<and> legit t = legit s"
    and alloc_empty: "ready s \<Longrightarrow> inv s [] \<Longrightarrow>
      \<exists>t. alloc s env = Ok 0 t env \<and> inv t [] \<and> ready t \<and> legit t = legit s"
    and dealloc_page: "ready s \<Longrightarrow> inv s xs \<Longrightarrow> legit s v \<Longrightarrow> v \<notin> set xs \<Longrightarrow>
      \<exists>t. dealloc v s env = Ok () t env \<and> inv t (v # xs) \<and> ready t \<and> legit t = legit s"
    and inv_distinct: "inv s xs \<Longrightarrow> distinct xs"
    and inv_legit: "inv s xs \<Longrightarrow> x \<in> set xs \<Longrightarrow> legit s x"
    and legit_nonzero: "legit s v \<Longrightarrow> v \<noteq> 0"
begin

lemma alloc_many:
  "ready s \<Longrightarrow> inv s xs \<Longrightarrow> n \<le> length xs \<Longrightarrow>
   \<exists>t. repeatK n alloc s env = Ok (take n xs) t env \<and> inv t (drop n xs) \<and> ready t"
proof (induction n arbitrary: s xs)
  case 0
  then show ?case by (simp add: kmonad)
next
  case (Suc n)
  then obtain x ys where xs: "xs = x # ys" by (cases xs) auto
  with Suc.prems obtain t where t: "alloc s env = Ok x t env" "inv t ys" "ready t"
    using alloc_page by blast
  with Suc.IH [of t ys] Suc.prems xs show ?case
    by (auto simp: kmonad)
qed

lemma alloc_dealloc:
  assumes "ready s" "inv s xs" "legit s v" "v \<notin> set xs"
  shows "\<exists>t. bindK (dealloc v) (\<lambda>_. alloc) s env = Ok v t env \<and> inv t xs \<and> ready t"
proof -
  obtain t where "dealloc v s env = Ok () t env" "inv t (v # xs)" "ready t"
    using dealloc_page [OF assms] by blast
  with alloc_page [of t v xs env] show ?thesis by (auto simp: kmonad)
qed

end

interpretation kpages: page_allocator kalloc kfree kmem_inv kmem_ready "\<lambda>s. page_ok (kend s)"
proof (unfold_locales, goal_cases)
  case (1 s x xs env)
  then have "freelist (kmem s) = x" by (simp add: kmem_inv_def)
  with 1 show ?case by (auto simp: kalloc_eval intro: kmem_inv_kalloced)
next
  case (2 s env)
  then show ?case by (auto simp: kalloc_eval kmem_inv_Nil kalloced_def)
next
  case (3 s xs v env)
  then show ?case by (auto simp: kfree_eval intro: kmem_inv_kfreed)
qed (auto simp: kmem_inv_def page_ok_nonzero)

section \<open>Properties\<close>

text \<open>
  C5.  The allocator never hands out a page twice: from any state whose free list is \<open>xs\<close>,
  \<open>n\<close> calls of \<open>kalloc\<close> return the first \<open>n\<close> free pages, pairwise distinct, page aligned
  and inside physical memory, and leave the rest free; a call on an empty list returns 0.
\<close>

theorem kalloc_never_twice:
  assumes "kmem_ready s" and "kmem_inv s xs" and "n \<le> length xs"
  shows "\<exists>t. repeatK n kalloc s env = Ok (take n xs) t env \<and> kmem_inv t (drop n xs) \<and>
    distinct (take n xs) \<and> (\<forall>x\<in>set (take n xs). page_ok (kend s) x \<and> x \<noteq> 0) \<and>
    (n = length xs \<longrightarrow> (\<exists>u. kalloc t env = Ok 0 u env \<and> kmem_inv u []))"
proof -
  obtain t where t: "repeatK n kalloc s env = Ok (take n xs) t env" "kmem_inv t (drop n xs)"
      "kmem_ready t"
    using kpages.alloc_many [OF assms] by blast
  moreover have "n = length xs \<Longrightarrow> \<exists>u. kalloc t env = Ok 0 u env \<and> kmem_inv u []"
    using kpages.alloc_empty [OF t(3)] t(2) by fastforce
  moreover have "distinct (take n xs)" "\<forall>x\<in>set (take n xs). page_ok (kend s) x \<and> x \<noteq> 0"
    using assms(2) by (auto simp: kmem_inv_def dest: in_set_takeD page_ok_nonzero)
  ultimately show ?thesis by blast
qed

definition two_pages :: kmem_state where
  "two_pages = kctx.extend two_cpus
     \<lparr>kmem = \<lparr>use_lock = True, freelist = 0x80400000\<rparr>,
      mem = store32 (\<lambda>_. 0) 0x80400000 0x80401000,
      kend = 0x80115000\<rparr>"

lemma two_pages_inv: "kmem_ready two_pages" "kmem_inv two_pages [0x80400000, 0x80401000]"
proof -
  have "cpu_ok two_cpus" "cur two_cpus = 1"
    by (simp_all add: cpu_ok_def cur_def two_cpus_def)
  then show "kmem_ready two_pages"
    by (simp add: kmem_ready_def two_pages_def cpu_ok_def cur_def free_lock_def two_cpus_def
        kctx.defs)
  have "load32 (store32 (\<lambda>_. 0) 0x80400000 0x80401000) 0x80401000 = 0"
    by (simp add: load32_def store32_other word_le_nat_alt)
  then show "kmem_inv two_pages [0x80400000, 0x80401000]"
    by (simp add: kmem_inv_def two_pages_def kctx.defs page_ok_def V2P_def)
qed

theorem kalloc_never_twice_witness:
  "\<exists>t. repeatK 2 kalloc two_pages [] = Ok [0x80400000, 0x80401000] t [] \<and> kmem_inv t []"
  using kalloc_never_twice [OF two_pages_inv, of 2 "[]"] by auto

text \<open>
  C15.  \<open>kfree\<close> panics on exactly the addresses that are not page-aligned pages between the
  end of the kernel and the end of physical memory; on any other address that is not
  already free it returns, the page becomes the next one handed out, and what the pages
  of other owners hold is untouched.
\<close>

theorem kfree_returns_page:
  assumes "kmem_ready s" and "kmem_inv s xs"
  shows "(kfree v s env = Panic ''kfree'' \<longleftrightarrow> \<not> page_ok (kend s) v) \<and>
    (page_ok (kend s) v \<and> v \<notin> set xs \<longrightarrow>
      (\<exists>t. kfree v s env = Ok () t env \<and> kmem_inv t (v # xs) \<and> same_outside v (mem s) (mem t) \<and>
          (\<exists>u. kalloc t env = Ok v u env \<and> kmem_inv u xs)))"
proof -
  have "same_outside v (mem s) (mem (kfreed v s))"
    by (simp add: kfreed_def same_outside_store32 same_outside_memset)
  moreover have "kmem_inv (kfreed v s) (v # xs)" if "page_ok (kend s) v" "v \<notin> set xs"
    using assms(2) that by (rule kmem_inv_kfreed)
  moreover from this have "\<exists>u. kalloc (kfreed v s) env = Ok v u env \<and> kmem_inv u xs"
    if "page_ok (kend s) v" "v \<notin> set xs"
    using kpages.alloc_page [of "kfreed v s" v xs] assms(1) that by fastforce
  ultimately show ?thesis using assms(1) by (simp add: kfree_eval)
qed

theorem kfree_returns_page_witness:
  "\<exists>t. kfree 0x80402000 two_pages [] = Ok () t [] \<and>
     kmem_inv t [0x80402000, 0x80400000, 0x80401000] \<and>
     kfree 0x80402001 two_pages [] = Panic ''kfree''"
proof -
  have "page_ok (kend two_pages) 0x80402000" "\<not> page_ok (kend two_pages) 0x80402001"
    by (simp_all add: page_ok_def two_pages_def kctx.defs V2P_def)
  then show ?thesis
    using kfree_returns_page [OF two_pages_inv, of "0x80402000" "[]"]
      kfree_returns_page [OF two_pages_inv, of "0x80402001" "[]"] by auto
qed

text \<open>The pages between two addresses, lowest first.\<close>

definition pages :: "uint \<Rightarrow> nat \<Rightarrow> uint list" where
  "pages p n = map (\<lambda>i. p + of_nat (4096 * i)) [0..<n]"

lemma pages_Suc: "pages p (Suc n) = p # pages (p + 4096) n"
proof -
  have "[0..<Suc n] = 0 # map Suc [0..<n]"
    by (simp add: upt_conv_Cons map_Suc_upt del: upt_Suc)
  then show ?thesis by (simp add: pages_def o_def algebra_simps del: upt_Suc)
qed

lemma pages_bounds:
  assumes "x \<in> set (pages p n)" "unat p + 4096 * n < 4294967296"
  shows "\<exists>i<n. unat x = unat p + 4096 * i"
  using assms by (auto simp: pages_def unat_word_ariths word32_of_nat_unat)

lemma aligned_next: "(p :: uint) mod 4096 = 0 \<Longrightarrow> (p + 4096) mod 4096 = 0"
proof -
  assume "p mod 4096 = 0"
  then obtain q where "unat p = 4096 * q" by (rule aligned_unat)
  then have "unat ((p + 4096) mod 4096) = 0"
    by (simp add: unat_mod unat_word_ariths mod_mod_cancel)
  then show ?thesis by (simp only: unat_eq_0)
qed

lemma page_ok_range:
  assumes "p mod 4096 = 0" "kend s \<le> p" "2147483648 \<le> unat p" "unat p < 2382364672"
  shows "page_ok (kend s) p"
proof -
  have "unat (p - KERNBASE) = unat p - unat KERNBASE"
    using assms(3) by (intro unat_sub) (simp add: word_le_nat_alt)
  with assms show ?thesis by (simp add: page_ok_def V2P_def word_less_nat_alt)
qed

lemma free_pages_eval:
  assumes "kmem_ready s" "kmem_inv s xs" "p mod 4096 = 0" "kend s \<le> p"
    and "2147483648 \<le> unat p" "unat p \<le> 2382364672" "unat vend \<le> 2382364672"
    and "n = (unat vend - unat p) div 4096" "n < fuel"
    and "set (pages p n) \<inter> set xs = {}"
  shows "\<exists>t. free_pages fuel p vend s env = Ok () t env \<and> kmem_inv t (rev (pages p n) @ xs) \<and>
    kmem_ready t \<and> kend t = kend s \<and> use_lock (kmem t) = use_lock (kmem s)"
  using assms
proof (induction n arbitrary: fuel p s xs)
  case 0
  have p: "unat (p + 4096) = unat p + 4096"
    using 0(6) by (simp add: unat_word_ariths)
  have "unat vend - unat p < 4096" using 0(8) by (simp add: div_eq_0_iff)
  with p have "\<not> p + 4096 \<le> vend" by (simp add: word_le_nat_alt)
  with 0 show ?case by (cases fuel) (auto simp: pages_def kmonad)
next
  case (Suc n)
  then obtain f where f: "fuel = Suc f" "n < f" by (cases fuel) auto
  have le: "4096 \<le> unat vend - unat p" using Suc.prems(8) by (simp add: div_greater_zero_iff) 
  have p: "unat (p + 4096) = unat p + 4096"
    using Suc.prems(6) by (simp add: unat_word_ariths)
  have go: "p + 4096 \<le> vend" using le p by (simp add: word_le_nat_alt)
  have ok: "page_ok (kend s) p"
    using Suc.prems(3-7) le by (intro page_ok_range) simp_all
  have notin: "p \<notin> set xs" using Suc.prems(10) by (simp add: pages_Suc)
  define u where "u = kfreed p s"
  have u: "kfree p s env = Ok () u env" "kmem_inv u (p # xs)" "kmem_ready u" "kend u = kend s"
    using Suc.prems(1,2) ok notin by (simp_all add: u_def kfree_eval kmem_inv_kfreed)
  have ul: "use_lock (kmem u) = use_lock (kmem s)" by (simp add: u_def kfreed_def)
  have "p \<notin> set (pages (p + 4096) n)"
  proof
    assume "p \<in> set (pages (p + 4096) n)"
    moreover have "unat (p + 4096) + 4096 * n < 4294967296"
      using p Suc.prems(7,8) le by linarith
    ultimately have "\<exists>i<n. unat p = unat (p + 4096) + 4096 * i" by (rule pages_bounds)
    with p show False by auto
  qed
  then have disj: "set (pages (p + 4096) n) \<inter> set (p # xs) = {}"
    using Suc.prems(10) by (auto simp: pages_Suc)
  have "\<exists>t. free_pages f (p + 4096) vend u env = Ok () t env \<and>
      kmem_inv t (rev (pages (p + 4096) n) @ p # xs) \<and> kmem_ready t \<and> kend t = kend u \<and>
      use_lock (kmem t) = use_lock (kmem u)"
  proof (rule Suc.IH [OF u(3,2) _ _ _ _ Suc.prems(7) _ f(2) disj])
    show "(p + 4096) mod 4096 = 0" using Suc.prems(3) by (rule aligned_next)
    show "kend u \<le> p + 4096" using Suc.prems(4) p u(4) by (simp add: word_le_nat_alt)
    show "n = (unat vend - unat (p + 4096)) div 4096"
      using Suc.prems(8) le p by auto
  qed (use Suc.prems(5,7) le p in linarith)+
  then show ?case using f go u ul by (auto simp: kmonad pages_Suc)
qed

lemma set_pages:
  fixes vend :: uint
  assumes "p mod 4096 = 0" "n = (unat vend - unat p) div 4096"
  shows "set (pages p n) = {x. x mod 4096 = 0 \<and> p \<le> x \<and> unat x + 4096 \<le> unat vend}"
proof (intro set_eqI iffI)
  obtain q where q: "unat p = 4096 * q" using assms(1) by (rule aligned_unat)
  {
    fix x assume x: "x \<in> set (pages p n)"
    then have "n > 0" by (cases n) (auto simp: pages_def)
    then have "unat p + 4096 * n \<le> unat vend" using assms(2) by (simp add: div_greater_zero_iff)
    with x obtain i where i: "i < n" "unat x = unat p + 4096 * i"
      using pages_bounds [OF x] unat_lt32 [of vend] by auto
    then have "unat (x mod 4096) = 0" by (simp add: unat_mod q)
    with i \<open>unat p + 4096 * n \<le> unat vend\<close>
    show "x \<in> {x. x mod 4096 = 0 \<and> p \<le> x \<and> unat x + 4096 \<le> unat vend}"
      by (auto simp: word_le_nat_alt unat_eq_0)
  next
    fix x assume "x \<in> {x. x mod 4096 = 0 \<and> p \<le> x \<and> unat x + 4096 \<le> unat vend}"
    then have x: "x mod 4096 = 0" "unat p \<le> unat x" "unat x + 4096 \<le> unat vend"
      by (auto simp: word_le_nat_alt)
    from x(1) obtain r where r: "unat x = 4096 * r" by (rule aligned_unat)
    define i where "i = r - q"
    have i: "unat x = unat p + 4096 * i" using x(2) q r by (simp add: i_def algebra_simps)
    with x(3) assms(2) have "i < n" by linarith
    moreover have "unat (of_nat (4096 * i) :: uint) = 4096 * i"
      using i unat_lt32 [of x] by (intro word32_of_nat_unat) simp
    then have "unat (p + of_nat (4096 * i)) = unat x"
      using i unat_lt32 [of x] by (simp only: unat_word_ariths) simp
    then have "x = p + of_nat (4096 * i)" by (simp only: word_unat_eq_iff)
    ultimately show "x \<in> set (pages p n)" by (auto simp: pages_def)
  }
qed

lemma PGROUNDUP_bounds:
  assumes "2147483648 \<le> unat v" "unat v \<le> 2382364672"
  shows "PGROUNDUP v mod 4096 = 0" "v \<le> PGROUNDUP v" "unat (PGROUNDUP v) \<le> 2382364672"
    and "x mod 4096 = 0 \<Longrightarrow> PGROUNDUP v \<le> x \<longleftrightarrow> v \<le> x"
proof -
  have u: "unat (PGROUNDUP v) = (unat v + 4095) div 4096 * 4096"
    using assms by (intro unat_PGROUNDUP) simp
  then have "unat (PGROUNDUP v mod 4096) = 0" by (simp add: unat_mod)
  then show "PGROUNDUP v mod 4096 = 0" by (simp only: unat_eq_0)
  show "v \<le> PGROUNDUP v" using u by (simp add: word_le_nat_alt)
  show "unat (PGROUNDUP v) \<le> 2382364672" using u assms by simp
  assume "x mod 4096 = 0"
  then obtain q where "unat x = 4096 * q" by (rule aligned_unat)
  with u show "PGROUNDUP v \<le> x \<longleftrightarrow> v \<le> x" by (auto simp: word_le_nat_alt)
qed

lemma freerange_eval:
  assumes "kmem_ready s" "kmem_inv s xs" "kend s \<le> vstart"
    and "2147483648 \<le> unat vstart" "unat vstart \<le> 2382364672" "unat vend \<le> 2382364672"
    and "\<forall>x\<in>set xs. unat x + 4096 \<le> unat vstart"
  shows "\<exists>t ys. freerange vstart vend s env = Ok () t env \<and> kmem_inv t ys \<and> kmem_ready t \<and>
    kend t = kend s \<and> use_lock (kmem t) = use_lock (kmem s) \<and>
    set ys = set xs \<union> {x. x mod 4096 = 0 \<and> vstart \<le> x \<and> unat x + 4096 \<le> unat vend}"
proof -
  let ?p = "PGROUNDUP vstart" and ?n = "(unat vend - unat (PGROUNDUP vstart)) div 4096"
  note b = PGROUNDUP_bounds [OF assms(4,5)]
  have pg: "set (pages ?p ?n) = {x. x mod 4096 = 0 \<and> vstart \<le> x \<and> unat x + 4096 \<le> unat vend}"
    unfolding set_pages [OF b(1) refl] by (rule Collect_cong) (metis b(4))
  have "\<exists>t. free_pages (Suc (2 ^ 20)) ?p vend s env = Ok () t env \<and>
      kmem_inv t (rev (pages ?p ?n) @ xs) \<and> kmem_ready t \<and> kend t = kend s \<and>
      use_lock (kmem t) = use_lock (kmem s)"
  proof (rule free_pages_eval [OF assms(1,2) b(1) _ _ b(3) assms(6) refl])
    show "kend s \<le> ?p" using assms(3) b(2) by simp
    show "2147483648 \<le> unat ?p" using assms(4) b(2) by (simp add: word_le_nat_alt)
    show "?n < Suc (2 ^ 20)" using assms(6) by simp
    have "x \<notin> set xs" if "x \<in> set (pages ?p ?n)" for x
    proof
      assume "x \<in> set xs"
      then have "unat x + 4096 \<le> unat vstart" using assms(7) by blast
      moreover have "vstart \<le> x" using that unfolding pg by simp
      ultimately show False by (simp add: word_le_nat_alt)
    qed
    then show "set (pages ?p ?n) \<inter> set xs = {}" by blast
  qed
  then obtain t where "free_pages (Suc (2 ^ 20)) ?p vend s env = Ok () t env"
      "kmem_inv t (rev (pages ?p ?n) @ xs)" "kmem_ready t" "kend t = kend s"
      "use_lock (kmem t) = use_lock (kmem s)" by blast
  moreover have "set (rev (pages ?p ?n) @ xs) = set xs \<union>
      {x. x mod 4096 = 0 \<and> vstart \<le> x \<and> unat x + 4096 \<le> unat vend}"
    unfolding set_append set_rev pg by blast
  ultimately show ?thesis unfolding freerange_def by blast
qed

text \<open>
  C16.  Initialisation frees exactly the usable memory: after \<open>kinit1(vstart, vmid)\<close> and
  \<open>kinit2(vmid, vend)\<close>, as \<open>main\<close> calls them, the free list holds every whole page between
  \<open>vstart\<close> and \<open>vend\<close> once and nothing else, and locking is on.
\<close>

theorem kinit_frees_memory:
  assumes "freelist (kmem s) = 0" and "kend s \<le> vstart"
    and "KERNBASE \<le> vstart" "vstart \<le> vmid" "vmid \<le> vend" "vend \<le> KERNBASE + PHYSTOP"
    and "vmid mod PGSIZE = 0"
  shows "\<exists>t xs. thenK (kinit1 vstart vmid) (kinit2 vmid vend) s env = Ok () t env \<and>
    kmem_inv t xs \<and> use_lock (kmem t) \<and> distinct xs \<and>
    set xs = {x. x mod PGSIZE = 0 \<and> vstart \<le> x \<and> unat x + 4096 \<le> unat vend}"
proof -
  have u: "2147483648 \<le> unat vstart" "unat vstart \<le> unat vmid" "unat vmid \<le> unat vend"
      "unat vend \<le> 2382364672"
    using assms(3-6) by (simp_all add: word_le_nat_alt)
  let ?s = "(set_lock KmemLock (\<lambda>_. \<lparr>lk_locked = 0, lk_name = ''kmem'', lk_cpu = None\<rparr>) s)
    \<lparr>kmem := (kmem s)\<lparr>use_lock := False\<rparr>\<rparr>"
  have "kmem_ready ?s" "kmem_inv ?s []" "kend ?s \<le> vstart" "\<not> use_lock (kmem ?s)"
    using assms(1,2) by (simp_all add: kmem_ready_def kmem_inv_def set_lock_def)
  then obtain t ys where t: "freerange vstart vmid ?s env = Ok () t env" "kmem_inv t ys"
      "kmem_ready t" "kend t = kend ?s" "\<not> use_lock (kmem t)"
      "set ys = {x. x mod 4096 = 0 \<and> vstart \<le> x \<and> unat x + 4096 \<le> unat vmid}"
    using freerange_eval [of ?s "[]" vstart vmid env] u by auto
  have "kend t \<le> vmid" using t(4) assms(2,4) by (simp add: set_lock_def)
  moreover have "\<forall>x\<in>set ys. unat x + 4096 \<le> unat vmid" using t(6) by blast
  ultimately obtain r zs where r: "freerange vmid vend t env = Ok () r env" "kmem_inv r zs"
      "set zs = set ys \<union> {x. x mod 4096 = 0 \<and> vmid \<le> x \<and> unat x + 4096 \<le> unat vend}"
    using freerange_eval [OF t(3,2), of vmid vend env] u by auto
  have split: "unat x + 4096 \<le> unat vmid \<or> vmid \<le> x" if x: "x mod 4096 = 0" for x
  proof -
    obtain q where "unat x = 4096 * q" using x by (rule aligned_unat)
    moreover obtain r where "unat vmid = 4096 * r" using assms(7) by (rule aligned_unat)
    ultimately show ?thesis by (auto simp: word_le_nat_alt)
  qed
  have "x \<in> set zs \<longleftrightarrow> x mod 4096 = 0 \<and> vstart \<le> x \<and> unat x + 4096 \<le> unat vend" for x
  proof (cases "x mod 4096 = 0")
    case True
    then show ?thesis
      using split [OF True] u(2,3) unfolding r(3) t(6) by (simp add: word_le_nat_alt) arith
  next
    case False
    then show ?thesis unfolding r(3) t(6) by simp
  qed
  then have "set zs = {x. x mod 4096 = 0 \<and> vstart \<le> x \<and> unat x + 4096 \<le> unat vend}"
    by blast
  moreover have "kmem_inv (r\<lparr>kmem := (kmem r)\<lparr>use_lock := True\<rparr>\<rparr>) zs" "distinct zs"
    using r(2) by (simp_all add: kmem_inv_def)
  moreover have "thenK (kinit1 vstart vmid) (kinit2 vmid vend) s env =
      Ok () (r\<lparr>kmem := (kmem r)\<lparr>use_lock := True\<rparr>\<rparr>) env"
    using t(1) r(1) by (simp add: kinit1_def kinit2_def initlock_def kmonad set_lock_def)
  ultimately show ?thesis by auto
qed

theorem kinit_frees_memory_witness:
  "\<exists>t xs. thenK (kinit1 0x80115008 0x80117000) (kinit2 0x80117000 0x80118fff)
       (two_pages\<lparr>kmem := \<lparr>use_lock = False, freelist = 0\<rparr>\<rparr>) [] = Ok () t [] \<and>
     kmem_inv t xs \<and> use_lock (kmem t) \<and> 0x80116000 \<in> set xs \<and> 0x80115000 \<notin> set xs"
proof -
  let ?s = "two_pages\<lparr>kmem := \<lparr>use_lock = False, freelist = 0\<rparr>\<rparr>"
  have "\<exists>t xs. thenK (kinit1 0x80115008 0x80117000) (kinit2 0x80117000 0x80118fff) ?s [] =
      Ok () t [] \<and> kmem_inv t xs \<and> use_lock (kmem t) \<and> distinct xs \<and>
      set xs = {x. x mod PGSIZE = 0 \<and> 0x80115008 \<le> x \<and>
        unat x + 4096 \<le> unat (0x80118fff :: uint)}"
    by (rule kinit_frees_memory) (simp_all add: two_pages_def kctx.defs)
  then obtain t xs where run: "thenK (kinit1 0x80115008 0x80117000)
      (kinit2 0x80117000 0x80118fff) ?s [] = Ok () t []" and t: "kmem_inv t xs" "use_lock (kmem t)"
    and xs: "set xs = {x. x mod PGSIZE = 0 \<and> 0x80115008 \<le> x \<and>
        unat x + 4096 \<le> unat (0x80118fff :: uint)}"
    by blast
  have "0x80116000 \<in> set xs" "0x80115000 \<notin> set xs" by (simp_all add: xs)
  with run t show ?thesis by blast
qed

end
