(* ===== verification/Kstring.thy ===== *)
theory Kstring
  imports Memory
begin

text \<open>
  The read-only and string routines of \<open>string.c\<close>.  A \<open>char *\<close> that is only read is a view,
  the function from offsets to the bytes found there; a buffer that is written is a list of
  bytes of the buffer's size.  The loops are kept: the copying loop of \<open>strncpy\<close> stops
  after the NUL it copied and hands the remaining count to the padding loop, and
  \<open>safestrcpy\<close> copies at most \<open>n - 1\<close> bytes before it writes its own NUL.
\<close>

type_synonym view = "nat \<Rightarrow> byte"

text \<open>An array as a view; the routines below never look past the sizes they are given.\<close>

definition view :: "byte list \<Rightarrow> view" where
  "view xs i = (if i < length xs then xs ! i else 0)"

text \<open>The bytes of a string literal, without the NUL.\<close>

definition lit :: "string \<Rightarrow> byte list" where
  "lit cs = map of_char cs"

section \<open>The code\<close>

fun memcmp :: "view \<Rightarrow> view \<Rightarrow> nat \<Rightarrow> int" where
  "memcmp v1 v2 0 = 0"
| "memcmp v1 v2 (Suc n) =
     (if v1 0 \<noteq> v2 0 then uint (v1 0) - uint (v2 0) else memcmp (v1 \<circ> Suc) (v2 \<circ> Suc) n)"

fun strncmp :: "view \<Rightarrow> view \<Rightarrow> nat \<Rightarrow> int" where
  "strncmp p q 0 = 0"
| "strncmp p q (Suc n) =
     (if p 0 \<noteq> 0 \<and> p 0 = q 0 then strncmp (p \<circ> Suc) (q \<circ> Suc) n
      else uint (p 0) - uint (q 0))"

text \<open>First loop of \<open>strncpy\<close>: the bytes stored, and the count left for the second loop.\<close>

fun strncpy_copy :: "view \<Rightarrow> nat \<Rightarrow> byte list \<times> nat" where
  "strncpy_copy t 0 = ([], 0)"
| "strncpy_copy t (Suc n) =
     (if t 0 = 0 then ([0], n)
      else let (w, r) = strncpy_copy (t \<circ> Suc) n in (t 0 # w, r))"

definition strncpy :: "byte list \<Rightarrow> view \<Rightarrow> nat \<Rightarrow> byte list" where
  "strncpy s t n = (let (w, r) = strncpy_copy t n in w @ replicate r 0 @ drop n s)"

fun safestrcpy_copy :: "view \<Rightarrow> nat \<Rightarrow> byte list" where
  "safestrcpy_copy t 0 = []"
| "safestrcpy_copy t (Suc n) = (if t 0 = 0 then [0] else t 0 # safestrcpy_copy (t \<circ> Suc) n)"

definition safestrcpy :: "byte list \<Rightarrow> view \<Rightarrow> nat \<Rightarrow> byte list" where
  "safestrcpy s t n =
     (if n = 0 then s else let w = safestrcpy_copy t (n - 1) @ [0] in w @ drop (length w) s)"

partial_function (option) strlen_from :: "view \<Rightarrow> nat \<Rightarrow> nat option" where
  "strlen_from s n = (if s n = 0 then Some n else strlen_from s (Suc n))"

definition strlen :: "view \<Rightarrow> nat option" where
  "strlen s = strlen_from s 0"

section \<open>Lemmas\<close>

lemma strlen_from_total: "s m = 0 \<Longrightarrow> \<forall>i. n \<le> i \<and> i < m \<longrightarrow> s i \<noteq> 0 \<Longrightarrow> n \<le> m \<Longrightarrow>
  strlen_from s n = Some m"
proof (induction "m - n" arbitrary: n)
  case 0
  then show ?case by (simp add: strlen_from.simps)
next
  case (Suc k)
  then have "strlen_from s (Suc n) = Some m" by (intro Suc.hyps) auto
  with Suc show ?case by (subst strlen_from.simps) auto
qed

lemma strlen_from_Some:
  "strlen_from s n = Some m \<Longrightarrow> s m = 0 \<and> n \<le> m \<and> (\<forall>i. n \<le> i \<and> i < m \<longrightarrow> s i \<noteq> 0)"
proof (rule strlen_from.raw_induct
    [where P = "\<lambda>s n m. s m = 0 \<and> n \<le> m \<and> (\<forall>i. n \<le> i \<and> i < m \<longrightarrow> s i \<noteq> 0)"])
  fix f :: "view \<Rightarrow> nat \<Rightarrow> nat option" and s :: view and n m
  assume ih: "\<And>s n m. f s n = Some m \<Longrightarrow> s m = 0 \<and> n \<le> m \<and> (\<forall>i. n \<le> i \<and> i < m \<longrightarrow> s i \<noteq> 0)"
    and eq: "(if s n = 0 then Some n else f s (Suc n)) = Some m"
  show "s m = 0 \<and> n \<le> m \<and> (\<forall>i. n \<le> i \<and> i < m \<longrightarrow> s i \<noteq> 0)"
  proof (cases "s n = 0")
    case False
    with eq ih [of s "Suc n" m] have "s m = 0 \<and> Suc n \<le> m \<and> (\<forall>i. Suc n \<le> i \<and> i < m \<longrightarrow> s i \<noteq> 0)"
      by simp
    with False show ?thesis by (metis Suc_leD le_neq_implies_less Suc_leI)
  qed (use eq in auto)
qed

text \<open>The value \<open>strncpy\<close> gives a buffer of exactly \<open>n\<close> bytes.\<close>

definition padded :: "view \<Rightarrow> nat \<Rightarrow> byte list" where
  "padded t n = strncpy [] t n"

lemma padded_simps [simp]:
  "padded t 0 = []"
  "padded t (Suc n) = (if t 0 = 0 then replicate (Suc n) 0 else t 0 # padded (t \<circ> Suc) n)"
  by (simp_all add: padded_def strncpy_def split: prod.split)

lemma strncpy_padded: "strncpy s t n = padded t n @ drop n s"
  by (simp add: padded_def strncpy_def split: prod.split)

lemma length_padded [simp]: "length (padded t n) = n"
  by (induction n arbitrary: t) simp_all

lemma padded_NUL: "t 0 = 0 \<Longrightarrow> padded t n = replicate n 0"
  by (cases n) simp_all

lemma strncmp_padded: "strncmp p q n = 0 \<longleftrightarrow> padded p n = padded q n"
proof (induction n arbitrary: p q)
  case (Suc n)
  show ?case
  proof (cases "p 0 = q 0")
    case True
    then show ?thesis using Suc by (auto simp: o_def padded_NUL)
  next
    case False
    then have "uint (p 0) \<noteq> uint (q 0)" by (simp add: word_uint_eq_iff)
    with False show ?thesis by auto
  qed
qed simp

lemma padded_view_padded: "padded (view (padded t n)) n = padded t n"
proof (induction n arbitrary: t)
  case (Suc n)
  have "view (x # xs) \<circ> Suc = view xs" for x :: byte and xs by (auto simp: view_def)
  moreover have "view (x # xs) 0 = x" for x :: byte and xs by (simp add: view_def)
  ultimately show ?case using Suc by (simp add: padded_NUL del: o_apply)
qed simp

lemma length_safestrcpy_copy: "length (safestrcpy_copy t n) \<le> n"
  by (induction n arbitrary: t) auto

lemma safestrcpy_copy_NUL:
  "\<exists>k \<le> length (safestrcpy_copy t n). (safestrcpy_copy t n @ [0]) ! k = 0 \<and>
     (\<forall>i<k. (safestrcpy_copy t n @ [0]) ! i = t i \<and> t i \<noteq> 0) \<and> (k < n \<longrightarrow> t k = 0)"
proof (induction n arbitrary: t)
  case (Suc n)
  show ?case
  proof (cases "t 0 = 0")
    case True
    then show ?thesis by (intro exI [of _ 0]) simp
  next
    case False
    from Suc.IH [of "t \<circ> Suc"] obtain k where
      "k \<le> length (safestrcpy_copy (t \<circ> Suc) n)" "(safestrcpy_copy (t \<circ> Suc) n @ [0]) ! k = 0"
      "\<forall>i<k. (safestrcpy_copy (t \<circ> Suc) n @ [0]) ! i = t (Suc i) \<and> t (Suc i) \<noteq> 0"
      "k < n \<longrightarrow> t (Suc k) = 0" by (metis comp_apply)
    with False show ?thesis
      by (intro exI [of _ "Suc k"]) (simp add: All_less_Suc2)
  qed
qed simp

section \<open>Properties\<close>

text \<open>
  C17.  Directory names compare as they are stored: \<open>strncmp(p, q, n)\<close> is 0 exactly when
  \<open>strncpy\<close> would write the same \<open>n\<close> bytes for both, so a name compares equal to the entry
  made from it, and to no entry made from a different name.
\<close>

theorem strncmp_strncpy:
  "(strncmp p q n = 0 \<longleftrightarrow> strncpy s p n = strncpy s q n) \<and>
   strncmp p (view (strncpy (replicate n 0) p n)) n = 0 \<and>
   length (strncpy (replicate n 0) p n) = n"
  by (simp add: strncpy_padded strncmp_padded padded_view_padded)

text \<open>
  C18.  \<open>safestrcpy\<close> stays inside its buffer and always terminates it: for a buffer of at
  least \<open>n > 0\<close> bytes the size is kept, bytes from \<open>n\<close> on are kept, some byte before \<open>n\<close> is
  NUL, and up to the first NUL the buffer holds the source.
\<close>

theorem safestrcpy_terminates:
  assumes "0 < n" and "n \<le> length s"
  shows "length (safestrcpy s t n) = length s \<and> drop n (safestrcpy s t n) = drop n s \<and>
    (\<exists>k<n. safestrcpy s t n ! k = 0 \<and> (\<forall>i<k. safestrcpy s t n ! i = t i \<and> t i \<noteq> 0) \<and>
           (k < n - 1 \<longrightarrow> t k = 0))"
proof -
  let ?w = "safestrcpy_copy t (n - 1)"
  have r: "safestrcpy s t n = (?w @ [0]) @ drop (Suc (length ?w)) s"
    using assms by (simp add: safestrcpy_def Let_def)
  have l: "length ?w < n" using length_safestrcpy_copy [of t "n - 1"] assms by linarith
  from safestrcpy_copy_NUL [of t "n - 1"] obtain k where k: "k \<le> length ?w" "(?w @ [0]) ! k = 0"
    "\<forall>i<k. (?w @ [0]) ! i = t i \<and> t i \<noteq> 0" "k < n - 1 \<longrightarrow> t k = 0" by blast
  have nth: "safestrcpy s t n ! i = (?w @ [0]) ! i" if "i \<le> k" for i
    unfolding r using that k(1) by (subst nth_append) simp
  from k l have "\<exists>k<n. safestrcpy s t n ! k = 0 \<and> (\<forall>i<k. safestrcpy s t n ! i = t i \<and> t i \<noteq> 0) \<and>
     (k < n - 1 \<longrightarrow> t k = 0)" by (intro exI [of _ k]) (simp add: nth)
  moreover have "length (safestrcpy s t n) = length s" "drop n (safestrcpy s t n) = drop n s"
    using l assms by (simp_all add: r drop_Cons')
  ultimately show ?thesis by blast
qed

theorem safestrcpy_terminates_witness:
  "drop 4 (safestrcpy (replicate 6 7) (view (lit ''init'')) 4) = [7, 7] \<and>
   length (safestrcpy (replicate 6 7) (view (lit ''init'')) 4) = 6"
  using safestrcpy_terminates [of 4 "replicate 6 7" "view (lit ''init'')"]
  by (simp add: eval_nat_numeral)

text \<open>\<open>strlen\<close> returns exactly on terminated strings, with the position of the first NUL.\<close>

lemma strlen_first_NUL: "strlen s = Some n \<longleftrightarrow> s n = 0 \<and> (\<forall>i<n. s i \<noteq> 0)"
proof
  assume "strlen s = Some n"
  then show "s n = 0 \<and> (\<forall>i<n. s i \<noteq> 0)"
    using strlen_from_Some [of s 0 n] by (simp add: strlen_def)
next
  assume "s n = 0 \<and> (\<forall>i<n. s i \<noteq> 0)"
  then show "strlen s = Some n" by (simp add: strlen_def strlen_from_total)
qed
end
