(* ===== verification/Proc.thy ===== *)
theory Proc
  imports Kalloc Kstring
begin

text \<open>
  The process table and the primitives every other part of the kernel blocks on: \<open>struct
  proc\<close> of \<open>proc.h\<close> and, from \<open>proc.c\<close>, \<open>myproc\<close>, \<open>allocproc\<close>, \<open>sched\<close>, \<open>yield\<close>,
  \<open>sleep\<close>, \<open>wakeup\<close>, \<open>kill\<close>, \<open>getptable\<close>, \<open>setpriority\<close> and \<open>update_statistics\<close>.

  A process is named by its index in \<open>ptable.proc\<close>, a null pointer is \<open>None\<close>, and
  following a null pointer is the kernel page fault that \<open>trap\<close> answers with \<open>panic("trap")\<close>.
  A sleep channel is the address of some kernel object; the datatype \<open>chan\<close> has one
  constructor per kind of object, so different objects are different channels.  \<open>swtch\<close> gives
  the CPU away: what the rest of the machine does until the process runs again is the next
  move of the environment, and \<open>Asleep\<close> is the outcome when there is none.
\<close>

section \<open>State\<close>

datatype procstate = UNUSED | EMBRYO | SLEEPING | RUNNABLE | RUNNING | ZOMBIE

datatype chan =
    ChanProc nat | ChanSema nat | ChanInode nat | ChanBufLock nat | ChanBuf nat | ChanLog
  | ChanPipeRead uint | ChanPipeWrite uint | ChanTicks | ChanInput

record proc =
  p_sz :: uint
  p_pgdir :: uint
  p_kstack :: uint
  p_state :: procstate
  p_pid :: cint
  p_priority :: cint
  p_parent :: "nat option"
  p_tf :: uint
  p_context :: uint
  p_chan :: "chan option"
  p_killed :: cint
  p_ofile :: "nat option list"
  p_cwd :: "nat option"
  p_name :: "byte list"
  p_isthread :: cint
  p_stack :: uint
  p_ctime :: uint
  p_stime :: cint
  p_retime :: cint
  p_rutime :: cint

abbreviation NPROC :: nat where "NPROC \<equiv> 64"
abbreviation KSTACKSIZE :: uint where "KSTACKSIZE \<equiv> 4096"
abbreviation NOFILE :: nat where "NOFILE \<equiv> 16"

record proc_state = kmem_state +
  ptable :: "proc list"
  nextpid :: cint
  initproc :: "nat option"
  ticks :: uint
  forkret_addr :: uint \<comment> \<open>where the linker put \<open>forkret\<close>\<close>
  trapret_addr :: uint \<comment> \<open>where the linker put \<open>trapret\<close>\<close>

text \<open>\<open>struct proc_us\<close>, the copy of a table entry that user programs see: 52 bytes.\<close>

record proc_us =
  u_sz :: uint
  u_state :: procstate
  u_pid :: cint
  u_ppid :: cint
  u_priority :: cint
  u_name :: "byte list"
  u_ctime :: uint
  u_stime :: cint
  u_retime :: cint
  u_rutime :: cint

section \<open>The code\<close>

definition deref :: "'p option \<Rightarrow> ('p \<Rightarrow> ('s, 'a) K) \<Rightarrow> ('s, 'a) K" where
  "deref p f = (case p of None \<Rightarrow> panic ''trap'' | Some i \<Rightarrow> f i)"

definition set_proc :: "nat \<Rightarrow> (proc \<Rightarrow> proc) \<Rightarrow> 'a proc_state_scheme \<Rightarrow> 'a proc_state_scheme" where
  "set_proc i f s = s\<lparr>ptable := (ptable s)[i := f (ptable s ! i)]\<rparr>"

definition pinit :: "('a kctx_scheme, unit) K" where
  "pinit = block [initlock PtableLock ''ptable'', initlock SchedulerLock ''schedulerlock'']"

definition myproc :: "('a kctx_scheme, nat option) K" where
  "myproc =
     thenK pushcli (
     bindK mycpu (\<lambda>c.
     bindK (gets (\<lambda>s. cproc (cpus s ! c))) (\<lambda>p.
     thenK popcli (ret p))))"

text \<open>\<open>sizeof(struct trapframe)\<close> is 76 and \<open>sizeof(struct context)\<close> is 20; \<open>eip\<close> is at 16 in a context.\<close>

definition allocproc :: "('a proc_state_scheme, nat option) K" where
  "allocproc =
     thenK (acquire PtableLock) (
     bindK (gets (\<lambda>s. first_index (\<lambda>p. p_state p = UNUSED) (ptable s))) (\<lambda>found.
     case found of
       None \<Rightarrow> thenK (release PtableLock) (ret None)
     | Some p \<Rightarrow>
         thenK (block
           [modify (set_proc p (\<lambda>x. x\<lparr>p_state := EMBRYO, p_priority := 10\<rparr>)),
            modify (\<lambda>s. set_proc p (\<lambda>x. x\<lparr>p_pid := nextpid s\<rparr>) s),
            modify (\<lambda>s. s\<lparr>nextpid := nextpid s + 1\<rparr>),
            modify (\<lambda>s. set_proc p (\<lambda>x. x\<lparr>p_ctime := ticks s, p_retime := 0, p_rutime := 0, p_stime := 0\<rparr>) s),
            release PtableLock]) (
         bindK kalloc (\<lambda>k.
         thenK (modify (set_proc p (\<lambda>x. x\<lparr>p_kstack := k\<rparr>))) (
         if k = 0 then thenK (modify (set_proc p (\<lambda>x. x\<lparr>p_state := UNUSED\<rparr>))) (ret None)
         else
           let sp = k + KSTACKSIZE - 76 in
           thenK (block
             [modify (set_proc p (\<lambda>x. x\<lparr>p_tf := sp\<rparr>)),
              modify (\<lambda>s. s\<lparr>mem := store32 (mem s) (sp - 4) (trapret_addr s)\<rparr>),
              modify (set_proc p (\<lambda>x. x\<lparr>p_context := sp - 4 - 20\<rparr>)),
              modify (\<lambda>s. s\<lparr>mem := memset (mem s) (sp - 4 - 20) 0 20\<rparr>),
              modify (\<lambda>s. s\<lparr>mem := store32 (mem s) (sp - 4 - 20 + 16) (forkret_addr s)\<rparr>)])
           (ret (Some p)))))))"

text \<open>
  Enter the scheduler.  \<open>swtch\<close> returns when some CPU has switched back to this process.
\<close>

definition swtch_scheduler :: "('s, unit) K" where
  "swtch_scheduler = env_step Asleep"

definition sched :: "('a proc_state_scheme, unit) K" where
  "sched =
     bindK myproc (\<lambda>p.
     bindK (holding PtableLock) (\<lambda>h. if \<not> h then panic ''sched ptable.lock'' else
     bindK mycpu (\<lambda>c.
     bindK (gets (\<lambda>s. ncli (cpus s ! c))) (\<lambda>n. if n \<noteq> 1 then panic ''sched locks'' else
     deref p (\<lambda>p.
     bindK (gets (\<lambda>s. p_state (ptable s ! p))) (\<lambda>st. if st = RUNNING then panic ''sched running'' else
     bindK (gets FL_IF) (\<lambda>on. if on then panic ''sched interruptible'' else
     bindK mycpu (\<lambda>c.
     bindK (gets (\<lambda>s. intena (cpus s ! c))) (\<lambda>ie.
     thenK swtch_scheduler (
     bindK mycpu (\<lambda>c. modify (set_cpu c (intena_update (\<lambda>_. ie))))))))))))))"

definition yield :: "('a proc_state_scheme, unit) K" where
  "yield = block
     [acquire PtableLock,
      bindK myproc (\<lambda>p. deref p (\<lambda>p. modify (set_proc p (\<lambda>x. x\<lparr>p_state := RUNNABLE\<rparr>)))),
      sched,
      release PtableLock]"

definition sleep :: "chan \<Rightarrow> lockid option \<Rightarrow> ('a proc_state_scheme, unit) K" where
  "sleep chan lk =
     bindK myproc (\<lambda>p.
     case p of None \<Rightarrow> panic ''sleep'' | Some p \<Rightarrow>
     case lk of None \<Rightarrow> panic ''sleep without lk'' | Some lk \<Rightarrow> block
       [whenK (lk \<noteq> PtableLock) (block [acquire PtableLock, release lk]),
        modify (set_proc p (\<lambda>x. x\<lparr>p_chan := Some chan, p_state := SLEEPING\<rparr>)),
        sched,
        modify (set_proc p (\<lambda>x. x\<lparr>p_chan := None\<rparr>)),
        whenK (lk \<noteq> PtableLock) (block [release PtableLock, acquire lk])])"

definition wake :: "chan \<Rightarrow> proc \<Rightarrow> proc" where
  "wake chan p = (if p_state p = SLEEPING \<and> p_chan p = Some chan then p\<lparr>p_state := RUNNABLE\<rparr> else p)"

definition wakeup1 :: "chan \<Rightarrow> ('a proc_state_scheme, unit) K" where
  "wakeup1 chan = modify (\<lambda>s. s\<lparr>ptable := map (wake chan) (ptable s)\<rparr>)"

definition wakeup :: "chan \<Rightarrow> ('a proc_state_scheme, unit) K" where
  "wakeup chan = block [acquire PtableLock, wakeup1 chan, release PtableLock]"

definition kill :: "cint \<Rightarrow> ('a proc_state_scheme, cint) K" where
  "kill pid =
     thenK (acquire PtableLock) (
     bindK (gets (\<lambda>s. first_index (\<lambda>p. p_pid p = pid) (ptable s))) (\<lambda>found.
     case found of
       Some p \<Rightarrow> thenK (block
         [modify (set_proc p (\<lambda>x. x\<lparr>p_killed := 1\<rparr>)),
          modify (set_proc p (\<lambda>x. if p_state x = SLEEPING then x\<lparr>p_state := RUNNABLE\<rparr> else x)),
          release PtableLock]) (ret 0)
     | None \<Rightarrow> thenK (release PtableLock) (ret (-1))))"

definition proc_us_of :: "proc list \<Rightarrow> proc \<Rightarrow> proc_us" where
  "proc_us_of tab p =
     \<lparr>u_sz = p_sz p, u_state = p_state p, u_pid = p_pid p,
      u_ppid = (case p_parent p of None \<Rightarrow> -1 | Some q \<Rightarrow> p_pid (tab ! q)),
      u_priority = p_priority p, u_name = p_name p, u_ctime = p_ctime p,
      u_stime = p_stime p, u_retime = p_retime p, u_rutime = p_rutime p\<rparr>"

text \<open>The loop of \<open>getptable\<close>: \<open>i\<close> entries have been stored, \<open>ps\<close> is what is left of the table.\<close>

fun getptable_loop :: "int \<Rightarrow> int \<Rightarrow> proc list \<Rightarrow> proc list \<Rightarrow> nat \<Rightarrow> proc_us list \<Rightarrow> proc_us list" where
  "getptable_loop nproc sz tab [] i buffer = buffer"
| "getptable_loop nproc sz tab (p # ps) i buffer =
     (if int i < nproc \<and> 52 * (int i + 1) < sz then
        if p_state p = UNUSED then getptable_loop nproc sz tab ps i buffer
        else getptable_loop nproc sz tab ps (i + 1) (buffer[i := proc_us_of tab p])
      else buffer)"

text \<open>\<open>buffer\<close> is the caller's array, \<open>None\<close> when it passes a null pointer; the array is returned.\<close>

definition getptable ::
  "cint \<Rightarrow> cint \<Rightarrow> proc_us list option \<Rightarrow> ('a proc_state_scheme, cint \<times> proc_us list option) K" where
  "getptable nproc sz buffer =
     (case buffer of None \<Rightarrow> ret (-1, None)
      | Some buf \<Rightarrow>
          thenK (acquire PtableLock) (
          bindK (gets (\<lambda>s. getptable_loop (sint nproc) (sint sz) (ptable s) (ptable s) 0 buf)) (\<lambda>buf'.
          thenK (release PtableLock) (ret (0, Some buf')))))"

definition setpriority :: "cint \<Rightarrow> cint \<Rightarrow> ('a proc_state_scheme, cint) K" where
  "setpriority pid priority =
     (if 0 \<le> sint pid \<and> 0 \<le> sint priority then
        thenK (acquire PtableLock) (
        bindK (gets (\<lambda>s. first_index (\<lambda>p. p_pid p = pid \<and> p_state p \<noteq> UNUSED) (ptable s))) (\<lambda>found.
        thenK (case found of None \<Rightarrow> ret ()
               | Some p \<Rightarrow> modify (set_proc p (\<lambda>x. x\<lparr>p_priority := priority\<rparr>))) (
        thenK (release PtableLock) (
        ret (if found \<noteq> None then pid else -1)))))
      else ret (-1))"

definition tick_proc :: "proc \<Rightarrow> proc" where
  "tick_proc p = (case p_state p of
       SLEEPING \<Rightarrow> p\<lparr>p_stime := p_stime p + 1\<rparr>
     | RUNNABLE \<Rightarrow> p\<lparr>p_retime := p_retime p + 1\<rparr>
     | RUNNING \<Rightarrow> p\<lparr>p_rutime := p_rutime p + 1\<rparr>
     | _ \<Rightarrow> p)"

definition update_statistics :: "('a proc_state_scheme, unit) K" where
  "update_statistics = block
     [acquire PtableLock,
      modify (\<lambda>s. s\<lparr>ptable := map tick_proc (ptable s)\<rparr>),
      release PtableLock]"

section \<open>Frame rules\<close>

lemma proc_frame [simp]:
  "ptable (acquired l s) = ptable s"
  "nextpid (acquired l s) = nextpid s"
  "initproc (acquired l s) = initproc s"
  "ticks (acquired l s) = ticks s"
  "ptable (noted s) = ptable s"
  "nextpid (noted s) = nextpid s"
  "initproc (noted s) = initproc s"
  "ticks (noted s) = ticks s"
  by (simp_all add: acquired_def pushed_def noted_def set_cpu_def set_lock_def)

lemma proc_commute [simp]:
  "ptable_update u0 (acquired l s) = acquired l (ptable_update u0 s)"
  "nextpid_update u1 (acquired l s) = acquired l (nextpid_update u1 s)"
  "initproc_update u2 (acquired l s) = acquired l (initproc_update u2 s)"
  "ticks_update u3 (acquired l s) = acquired l (ticks_update u3 s)"
  "ptable_update u0 (noted s) = noted (ptable_update u0 s)"
  "nextpid_update u1 (noted s) = noted (nextpid_update u1 s)"
  "initproc_update u2 (noted s) = noted (initproc_update u2 s)"
  "ticks_update u3 (noted s) = noted (ticks_update u3 s)"
  by (simp_all add: acquired_def pushed_def noted_def set_cpu_def set_lock_def cur_def)

lemma proc_context [simp]:
  "cur (ptable_update u0 s) = cur s"
  "cpu_ok (ptable_update u0 s) = cpu_ok s"
  "free_lock l (ptable_update u0 s) = free_lock l s"
  "held_here l (ptable_update u0 s) = held_here l s"
  "cur (nextpid_update u1 s) = cur s"
  "cpu_ok (nextpid_update u1 s) = cpu_ok s"
  "free_lock l (nextpid_update u1 s) = free_lock l s"
  "held_here l (nextpid_update u1 s) = held_here l s"
  "cur (initproc_update u2 s) = cur s"
  "cpu_ok (initproc_update u2 s) = cpu_ok s"
  "free_lock l (initproc_update u2 s) = free_lock l s"
  "held_here l (initproc_update u2 s) = held_here l s"
  "cur (ticks_update u3 s) = cur s"
  "cpu_ok (ticks_update u3 s) = cpu_ok s"
  "free_lock l (ticks_update u3 s) = free_lock l s"
  "held_here l (ticks_update u3 s) = held_here l s"
  by (simp_all add: cur_def cpu_ok_def free_lock_def held_here_def)

lemma settled_frame [simp]:
  "ptable (settled s) = ptable s" "nextpid (settled s) = nextpid s"
  "initproc (settled s) = initproc s" "ticks (settled s) = ticks s"
  by (simp_all add: settled_def)

lemma kmem_frame_proc [simp]:
  "ptable (kfreed v s) = ptable s" "nextpid (kfreed v s) = nextpid s"
  "initproc (kfreed v s) = initproc s" "ticks (kfreed v s) = ticks s"
  "ptable (kalloced s) = ptable s" "nextpid (kalloced s) = nextpid s"
  "initproc (kalloced s) = initproc s" "ticks (kalloced s) = ticks s"
  by (simp_all add: kfreed_def kalloced_def)

lemma set_proc_simps [simp]:
  "ptable (set_proc i f s) = (ptable s)[i := f (ptable s ! i)]"
  "nextpid (set_proc i f s) = nextpid s" "initproc (set_proc i f s) = initproc s"
  "ticks (set_proc i f s) = ticks s" "kmem (set_proc i f s) = kmem s"
  "mem (set_proc i f s) = mem s" "kend (set_proc i f s) = kend s"
  "cpus (set_proc i f s) = cpus s" "locks (set_proc i f s) = locks s"
  "FL_IF (set_proc i f s) = FL_IF s" "cur (set_proc i f s) = cur s"
  "cpu_ok (set_proc i f s) = cpu_ok s" "free_lock l (set_proc i f s) = free_lock l s"
  "held_here l (set_proc i f s) = held_here l s"
  by (simp_all add: set_proc_def)

lemma set_proc_commute [simp]:
  "set_proc i f (acquired l s) = acquired l (set_proc i f s)"
  "set_proc i f (noted s) = noted (set_proc i f s)"
  by (simp_all add: set_proc_def)

lemma set_proc_set_proc [simp]:
  "i < length (ptable s) \<Longrightarrow> set_proc i f (set_proc i g s) = set_proc i (\<lambda>x. f (g x)) s"
  by (simp add: set_proc_def)

text \<open>The process the executing CPU runs.\<close>

definition curproc :: "'a kctx_scheme \<Rightarrow> nat option" where
  "curproc s = cproc (cpus s ! cur s)"

lemma cproc_set_cpu:
  "(\<And>c. cproc (f c) = cproc c) \<Longrightarrow> cproc ((cpus s)[i := f (cpus s ! i)] ! j) = cproc (cpus s ! j)"
  by (metis list_update_beyond not_le_imp_less nth_list_update_eq nth_list_update_neq)

lemma curproc_set_cpu:
  "(\<And>c. cproc (f c) = cproc c) \<Longrightarrow> (\<And>c. apicid (f c) = apicid c) \<Longrightarrow>
   curproc (set_cpu i f s) = curproc s"
  by (simp add: curproc_def cproc_set_cpu)

lemma curproc_FL_IF: "curproc (FL_IF_update f s) = curproc s"
  by (simp add: curproc_def)

lemma curproc_pushed: "curproc (pushed s) = curproc s"
  by (simp add: pushed_def noted_def curproc_set_cpu curproc_FL_IF)

lemma curproc_frame [simp]:
  "curproc (acquired l s) = curproc s" "curproc (noted s) = curproc s"
proof -
  have "curproc (set_lock l f t) = curproc t" for f and t :: "'a kctx_scheme"
    by (simp add: curproc_def)
  then show "curproc (acquired l s) = curproc s" by (simp add: acquired_def curproc_pushed)
qed (simp add: noted_def curproc_set_cpu)

lemma curproc_update [simp]:
  "curproc (kmem_update f s) = curproc s" "curproc (mem_update g s) = curproc s"
  "curproc (ptable_update h s') = curproc s'" "curproc (nextpid_update k s') = curproc s'"
  "curproc (set_proc i e s') = curproc s'"
  by (simp_all add: curproc_def cur_def set_proc_def)

lemma myproc_eval [simp]: "cpu_ok s \<Longrightarrow> myproc s env = Ok (curproc s) (noted s) env"
proof -
  assume ok: "cpu_ok s"
  have "cproc (cpus (pushed s) ! cur s) = curproc s"
    using curproc_pushed [of s] by (simp add: curproc_def)
  with ok show ?thesis
    by (simp add: myproc_def kmonad pushcli_eval locks_pushed popcli_pushed)
qed

section \<open>Evaluating sleep and wakeup\<close>

text \<open>
  \<open>proc_ctx p s\<close>: process \<open>p\<close> runs in the kernel on the executing CPU and that CPU holds no lock.
\<close>

definition proc_ctx :: "nat \<Rightarrow> 'a proc_state_scheme \<Rightarrow> bool" where
  "proc_ctx p s \<longleftrightarrow> cpu_ok s \<and> ncli (cpus s ! cur s) = 0 \<and> curproc s = Some p \<and>
     p < length (ptable s) \<and> free_lock PtableLock s"

lemma FL_IF_context:
  "ncli (cpus s ! cur s) = 0 \<Longrightarrow> cpu_ok (s\<lparr>FL_IF := b\<rparr>) = cpu_ok s"
  "free_lock l (s\<lparr>FL_IF := b\<rparr>) = free_lock l s" "curproc (s\<lparr>FL_IF := b\<rparr>) = curproc s"
  by (simp_all add: cpu_ok_def free_lock_def curproc_def)

lemma proc_ctx_FL_IF [simp]: "proc_ctx p (s\<lparr>FL_IF := b\<rparr>) = proc_ctx p s"
  by (auto simp: proc_ctx_def FL_IF_context)

lemma ncli_intena: "intena_update f (ncli_update g c) = ncli_update g (intena_update f c)"
  by (cases c) simp

lemma restore_intena:
  assumes "cpu_ok t" "ncli (cpus t ! cur t) = 0"
  shows "set_cpu (cur t) (intena_update (\<lambda>_. b)) (acquired l t) = acquired l (t\<lparr>FL_IF := b\<rparr>)"
  using assms
  by (simp add: acquired_def pushed_def noted_def kctx_normal cpu_ok_cur)
     (simp add: set_cpu_def set_lock_def o_def ncli_intena)

text \<open>\<open>sched\<close> switches away; once resumed it restores the interrupt flag of its own thread.\<close>

lemma sched_sleeps:
  assumes "proc_ctx p s" "p_state (ptable s ! p) \<noteq> RUNNING"
  shows "sched (acquired PtableLock s) [] = Asleep (acquired PtableLock s)"
  using assms
  by (simp add: sched_def proc_ctx_def kmonad holding_eval deref_def swtch_scheduler_def env_step_def)
     (simp add: acquired_def pushed_def)

lemma intena_acquired:
  "cpu_ok s \<Longrightarrow> ncli (cpus s ! cur s) = 0 \<Longrightarrow> intena (cpus (acquired l s) ! cur s) = FL_IF s"
  by (simp add: acquired_def pushed_def noted_def cpu_ok_cur)

lemma locks_acquired: "locks (acquired l s) l = (locks s l)\<lparr>lk_locked := 1, lk_cpu := Some (cur s)\<rparr>"
  by (simp add: acquired_def pushed_def)

lemma sched_resumes:
  assumes "proc_ctx p s" "p_state (ptable s ! p) \<noteq> RUNNING"
    and "f (acquired PtableLock s) = acquired PtableLock t" "proc_ctx q t"
  shows "sched (acquired PtableLock s) (f # env) =
    Ok () (acquired PtableLock (t\<lparr>FL_IF := FL_IF s\<rparr>)) env"
  using assms
  by (simp add: sched_def proc_ctx_def kmonad holding_eval deref_def swtch_scheduler_def env_step_def
      locks_acquired intena_acquired restore_intena)

definition slept :: "nat \<Rightarrow> chan \<Rightarrow> 'a proc_state_scheme \<Rightarrow> 'a proc_state_scheme" where
  "slept p chan = set_proc p (\<lambda>x. x\<lparr>p_chan := Some chan, p_state := SLEEPING\<rparr>)"

definition woken :: "nat \<Rightarrow> 'a proc_state_scheme \<Rightarrow> 'a proc_state_scheme" where
  "woken p = set_proc p (\<lambda>x. x\<lparr>p_chan := None\<rparr>)"

lemma proc_ctx_set_proc [simp]: "proc_ctx q (set_proc p f s) = proc_ctx q s"
  by (simp add: proc_ctx_def)

lemma slept_simps [simp]:
  "proc_ctx q (slept p c s) = proc_ctx q s" "FL_IF (slept p c s) = FL_IF s"
  "cpu_ok (slept p c s) = cpu_ok s" "free_lock l (slept p c s) = free_lock l s"
  "length (ptable (slept p c s)) = length (ptable s)"
  by (simp_all add: slept_def)

lemma slept_entry [simp]:
  "p < length (ptable s) \<Longrightarrow>
   ptable (slept p c s) ! p = (ptable s ! p)\<lparr>p_chan := Some c, p_state := SLEEPING\<rparr>"
  by (simp add: slept_def)

lemma sleep_enters:
  assumes "proc_ctx p s" "lk \<noteq> PtableLock" "free_lock lk s"
  shows "sleep c (Some lk) (acquired lk s) env =
    thenK sched (block
       [modify (woken p), release PtableLock, acquire lk])
      (acquired PtableLock (slept p c s)) env"
proof -
  have "release lk (acquired PtableLock (acquired lk s)) env = Ok () (acquired PtableLock s) env"
    using assms by (intro release_acquired_outer) (auto simp: proc_ctx_def)
  with assms show ?thesis
    by (simp add: sleep_def kmonad proc_ctx_def slept_def woken_def split: outcome.split)
qed

lemma sleep_sleeps:
  assumes "proc_ctx p s" "lk \<noteq> PtableLock" "free_lock lk s"
  shows "sleep c (Some lk) (acquired lk s) [] = Asleep (acquired PtableLock (slept p c s))"
proof -
  have "p < length (ptable s)" using assms by (simp add: proc_ctx_def)
  with assms show ?thesis
    unfolding sleep_enters [OF assms] by (simp add: kmonad sched_sleeps [of p])
qed

lemma sleep_resumes:
  assumes "proc_ctx p s" "lk \<noteq> PtableLock" "free_lock lk s"
    and "f (acquired PtableLock (slept p c s)) = acquired PtableLock t" "proc_ctx p t" "free_lock lk t"
  shows "sleep c (Some lk) (acquired lk s) (f # env) =
    Ok () (acquired lk (woken p (t\<lparr>FL_IF := FL_IF s\<rparr>))) env"
proof -
  have p: "p < length (ptable s)" using assms by (simp add: proc_ctx_def)
  have t: "proc_ctx p (woken p (t\<lparr>FL_IF := FL_IF s\<rparr>))" "free_lock lk (woken p (t\<lparr>FL_IF := FL_IF s\<rparr>))"
    using assms by (simp_all add: woken_def FL_IF_context)
  have c: "woken p (acquired PtableLock x) = acquired PtableLock (woken p x)" for x :: "'a proc_state_scheme"
    by (simp add: woken_def)
  show ?thesis
    unfolding sleep_enters [OF assms(1-3)]
    using assms p t
    by (simp add: kmonad sched_resumes [where f = f and p = p and q = p and t = t] c)
       (simp add: proc_ctx_def)
qed

text \<open>While \<open>ptable.lock\<close> is busy, \<open>sleep\<close> waits with \<open>lk\<close> still held.\<close>

lemma sleep_contended:
  assumes "cpu_ok s" "curproc s = Some p" "lk \<noteq> PtableLock" "free_lock lk s" "busy_elsewhere PtableLock s"
    and "f (pushed (acquired lk s)) = pushed (acquired lk t)" "proc_ctx p t" "free_lock lk t"
  shows "sleep c (Some lk) (acquired lk s) (f # env) = sleep c (Some lk) (acquired lk t) env"
proof -
  have t: "cpu_ok t" "free_lock PtableLock t" "curproc t = Some p" using assms(7) by (simp_all add: proc_ctx_def)
  have "acquire PtableLock (acquired lk s) (f # env) = Ok () (acquired PtableLock (acquired lk t)) env"
    using assms t by (intro acquire_spins) (simp_all add: busy_elsewhere_def locks_acquired_other)
  then show ?thesis
    using assms(1-3) t by (simp add: sleep_def kmonad)
qed


text \<open>Sleeping on a channel with \<open>ptable.lock\<close> itself, as \<open>wait\<close> and \<open>join\<close> do.\<close>

lemma sleep_ptable_sleeps:
  assumes "proc_ctx p s"
  shows "sleep c (Some PtableLock) (acquired PtableLock s) [] = Asleep (acquired PtableLock (slept p c s))"
proof -
  have "p < length (ptable s)" using assms by (simp add: proc_ctx_def)
  moreover have "cpu_ok s" "curproc s = Some p" using assms by (simp_all add: proc_ctx_def)
  ultimately show ?thesis
    using assms sched_sleeps [of p "slept p c s"] by (simp add: sleep_def kmonad) (simp add: slept_def)
qed

lemma sleep_ptable_resumes:
  assumes "proc_ctx p s"
    and "f (acquired PtableLock (slept p c s)) = acquired PtableLock t" "proc_ctx p t"
  shows "sleep c (Some PtableLock) (acquired PtableLock s) (f # env) =
    Ok () (acquired PtableLock (woken p (t\<lparr>FL_IF := FL_IF s\<rparr>))) env"
proof -
  have "p < length (ptable s)" using assms by (simp add: proc_ctx_def)
  moreover have "cpu_ok s" "curproc s = Some p" using assms by (simp_all add: proc_ctx_def)
  ultimately show ?thesis
    using assms sched_resumes [of p "slept p c s" f t p env]
    by (simp add: sleep_def kmonad) (simp add: slept_def woken_def)
qed

lemma wakeup1_eval [simp]: "wakeup1 c s env = Ok () (s\<lparr>ptable := map (wake c) (ptable s)\<rparr>) env"
  by (simp add: wakeup1_def kmonad)

lemma wakeup_eval [simp]:
  "cpu_ok s \<Longrightarrow> free_lock PtableLock s \<Longrightarrow>
   wakeup c s env = Ok () (noted (s\<lparr>ptable := map (wake c) (ptable s)\<rparr>)) env"
  by (simp add: wakeup_def kmonad)

section \<open>Waiting loops\<close>

text \<open>
  \<open>while(cond) sleep(chan, lk)\<close>: the loop the kernel blocks in, everywhere.
\<close>

definition wait_while :: "('a proc_state_scheme \<Rightarrow> bool) \<Rightarrow> chan \<Rightarrow> lockid \<Rightarrow> ('a proc_state_scheme, unit) K" where
  "wait_while cond chan lk = loopK (
     bindK (gets cond) (\<lambda>b. if b then thenK (sleep chan (Some lk)) (ret None) else ret (Some ())))"

text \<open>
  What a waiter relies on: whenever it has gone to sleep and is resumed, \<open>ptable.lock\<close> is held
  for it again by the CPU that runs it, the lock it waits with is free, and the invariant
  \<open>I\<close> of the data the lock protects holds.
\<close>

definition resumes :: "nat \<Rightarrow> chan \<Rightarrow> lockid \<Rightarrow> ('a proc_state_scheme \<Rightarrow> bool) \<Rightarrow>
    ('a proc_state_scheme \<Rightarrow> 'a proc_state_scheme) \<Rightarrow> bool" where
  "resumes p c lk I f \<longleftrightarrow>
     (\<forall>u. proc_ctx p u \<and> free_lock lk u \<and> I u \<longrightarrow>
        (\<exists>t. f (acquired PtableLock (slept p c u)) = acquired PtableLock t \<and>
             proc_ctx p t \<and> free_lock lk t \<and> I t))"

text \<open>What may be said of the state without looking at the sleeper's entry or the interrupt flag.\<close>

definition undisturbed :: "nat \<Rightarrow> ('a proc_state_scheme \<Rightarrow> bool) \<Rightarrow> bool" where
  "undisturbed p I \<longleftrightarrow> (\<forall>t b. I (woken p (t\<lparr>FL_IF := b\<rparr>)) = I t)"

lemma undisturbed_True [simp]: "undisturbed p (\<lambda>_. True)"
  by (simp add: undisturbed_def)

lemma proc_ctx_cpu_ok: "proc_ctx p s \<Longrightarrow> cpu_ok s"
  by (simp add: proc_ctx_def)

lemma proc_ctx_noted [simp]: "proc_ctx p s \<Longrightarrow> proc_ctx p (noted s)"
  by (simp add: proc_ctx_def)

lemma wait_while_sleeps:
  assumes "proc_ctx p u" "lk \<noteq> PtableLock" "free_lock lk u" "cond (acquired lk u)"
  shows "wait_while cond c lk (acquired lk u) [] = Asleep (acquired PtableLock (slept p c u))"
  using assms by (simp add: wait_while_def loopK.simps kmonad sleep_sleeps)

lemma wait_while_done:
  "\<not> cond s \<Longrightarrow> wait_while cond c lk s env = Ok () s env"
  unfolding wait_while_def by (intro loopK_leave) (simp add: kmonad)

lemma wait_while_resumed:
  assumes "proc_ctx p u" "lk \<noteq> PtableLock" "free_lock lk u" "cond (acquired lk u)"
    and "f (acquired PtableLock (slept p c u)) = acquired PtableLock t" "proc_ctx p t" "free_lock lk t"
  shows "wait_while cond c lk (acquired lk u) (f # env) =
    wait_while cond c lk (acquired lk (woken p (t\<lparr>FL_IF := FL_IF u\<rparr>))) env"
  unfolding wait_while_def
  using assms(4) sleep_resumes [of p u lk f c t env] assms
  by (intro loopK_round) (simp_all add: kmonad)

text \<open>
  The loop is left only with the condition false, the lock held and the invariant in place;
  otherwise the process is asleep and the condition still holds.
\<close>

lemma wait_while_outcome:
  assumes "proc_ctx p u" "free_lock lk u" "I u" "\<forall>f\<in>set env. resumes p c lk I f"
    and "lk \<noteq> PtableLock" "undisturbed p I"
  shows "(\<exists>t env'. wait_while cond c lk (acquired lk u) env = Ok () (acquired lk t) env' \<and>
      proc_ctx p t \<and> free_lock lk t \<and> I t \<and> \<not> cond (acquired lk t)) \<or>
    (\<exists>t. wait_while cond c lk (acquired lk u) env = Asleep (acquired PtableLock (slept p c t)) \<and>
      I t \<and> cond (acquired lk t))"
  using assms(1-4)
proof (induction env arbitrary: u)
  case Nil
  then show ?case
    using assms(5) wait_while_sleeps [of p u lk cond c] wait_while_done [of cond "acquired lk u" c lk "[]"]
    by (cases "cond (acquired lk u)") auto
next
  case (Cons f env)
  show ?case
  proof (cases "cond (acquired lk u)")
    case True
    obtain t where t: "f (acquired PtableLock (slept p c u)) = acquired PtableLock t"
      "proc_ctx p t" "free_lock lk t" "I t"
      using Cons.prems by (auto simp: resumes_def)
    let ?t = "woken p (t\<lparr>FL_IF := FL_IF u\<rparr>)"
    have "wait_while cond c lk (acquired lk u) (f # env) = wait_while cond c lk (acquired lk ?t) env"
      using Cons.prems True t assms(5) by (intro wait_while_resumed)
    moreover have "proc_ctx p ?t" "free_lock lk ?t" "I ?t"
      using t assms(6) by (simp_all add: woken_def FL_IF_context undisturbed_def)
    ultimately show ?thesis using Cons.IH Cons.prems(4) by simp
  next
    case False
    with Cons.prems wait_while_done [of cond "acquired lk u" c lk "f # env"] show ?thesis by auto
  qed
qed

section \<open>Allocating a table entry\<close>

text \<open>The entry \<open>allocproc\<close> makes out of a free one.\<close>

definition embryo :: "cint \<Rightarrow> uint \<Rightarrow> uint \<Rightarrow> proc \<Rightarrow> proc" where
  "embryo pid now k x = x\<lparr>p_state := EMBRYO, p_priority := 10, p_pid := pid, p_ctime := now, p_retime := 0,
     p_rutime := 0, p_stime := 0, p_kstack := k, p_tf := k + 4020, p_context := k + 3996\<rparr>"

text \<open>What it writes on the new kernel stack.\<close>

definition new_stack :: "uint \<Rightarrow> uint \<Rightarrow> uint \<Rightarrow> memory \<Rightarrow> memory" where
  "new_stack k trapret forkret m =
     store32 (memset (store32 m (k + 4016) trapret) (k + 3996) 0 20) (k + 4012) forkret"

lemma same_outside_new_stack: "same_outside k m (new_stack k trapret forkret m)"
  unfolding new_stack_def by (intro same_outside_store32_at same_outside_memset_at) simp_all

lemma new_stack_loads:
  "load32 (new_stack k trapret forkret m) (k + 4012) = forkret"
  "load32 (new_stack k trapret forkret m) (k + 4016) = trapret"
proof -
  have "load32 (new_stack k trapret forkret m) (k + 4016) =
      load32 (store32 m (k + 4016) trapret) (k + 4016)"
    unfolding load32_def new_stack_def by (simp add: store32_other memset_fills filled_def)
  then show "load32 (new_stack k trapret forkret m) (k + 4016) = trapret" by simp
qed (simp add: new_stack_def)

lemma kmem_ready_frame [simp]:
  "kmem_ready (set_proc i f s) = kmem_ready s" "kmem_ready (s\<lparr>nextpid := n\<rparr>) = kmem_ready s"
  by (simp_all add: kmem_ready_def)

lemma kmem_inv_frame [simp]:
  "kmem_inv (set_proc i f s) xs = kmem_inv s xs" "kmem_inv (s\<lparr>nextpid := n\<rparr>) xs = kmem_inv s xs"
  "kmem_inv (noted s') xs = kmem_inv s' xs" "kmem_inv (s\<lparr>ptable := ps\<rparr>) xs = kmem_inv s xs"
  by (simp_all add: kmem_inv_def)

lemma link_addrs_frame [simp]:
  "forkret_addr (acquired l s) = forkret_addr s" "trapret_addr (acquired l s) = trapret_addr s"
  "forkret_addr (noted s) = forkret_addr s" "trapret_addr (noted s) = trapret_addr s"
  "forkret_addr (set_proc i f s) = forkret_addr s" "trapret_addr (set_proc i f s) = trapret_addr s"
  "forkret_addr (kalloced s) = forkret_addr s" "trapret_addr (kalloced s) = trapret_addr s"
  by (simp_all add: acquired_def pushed_def noted_def set_cpu_def set_lock_def set_proc_def
      kalloced_def settled_def)

lemma allocproc_full:
  assumes "cpu_ok s" "free_lock PtableLock s"
    and "first_index (\<lambda>p. p_state p = UNUSED) (ptable s) = None"
  shows "allocproc s env = Ok None (noted s) env"
  using assms by (simp add: allocproc_def kmonad)

lemma kmem_ready_noted: "cpu_ok s \<Longrightarrow> kmem_ready s \<Longrightarrow> kmem_ready (noted s)"
  by (simp add: kmem_ready_def)

lemma allocproc_out_of_memory:
  assumes "cpu_ok s" "free_lock PtableLock s" "kmem_ready s" "kmem_inv s []"
    and "first_index (\<lambda>p. p_state p = UNUSED) (ptable s) = Some p"
  shows "\<exists>t. allocproc s env = Ok None t env \<and> p_state (ptable t ! p) = UNUSED \<and>
    (\<forall>q. q \<noteq> p \<longrightarrow> ptable t ! q = ptable s ! q) \<and> length (ptable t) = length (ptable s) \<and>
    nextpid t = nextpid s + 1 \<and> kmem_inv t []"
proof -
  have "freelist (kmem s) = 0" "p < length (ptable s)"
    using assms by (auto simp: kmem_inv_Nil dest: first_index_lt)
  with assms show ?thesis
    by (simp add: allocproc_def kmonad kalloc_eval kmem_ready_noted kmem_inv_Nil)
       (simp add: kalloced_def)
qed

lemma allocproc_allocates:
  assumes "cpu_ok s" "free_lock PtableLock s" "kmem_ready s" "kmem_inv s (k # ks)"
    and "first_index (\<lambda>p. p_state p = UNUSED) (ptable s) = Some p"
  shows "\<exists>t. allocproc s env = Ok (Some p) t env \<and>
    ptable t = (ptable s)[p := embryo (nextpid s) (ticks s) k (ptable s ! p)] \<and>
    mem t = new_stack k (trapret_addr s) (forkret_addr s) (mem s) \<and>
    nextpid t = nextpid s + 1 \<and> kmem_inv t ks \<and> kmem_ready t"
proof -
  have k: "freelist (kmem s) = k" "k \<noteq> 0" "k mod 4096 = 0" "k \<notin> set ks" and p: "p < length (ptable s)"
    using assms by (auto simp: kmem_inv_def page_ok_def dest: first_index_lt)
  define s1 where "s1 = noted (s\<lparr>nextpid := nextpid s + 1,
    ptable := (ptable s)[p := (ptable s ! p)\<lparr>p_state := EMBRYO, p_priority := 10, p_pid := nextpid s,
       p_ctime := ticks s, p_retime := 0, p_rutime := 0, p_stime := 0\<rparr>]\<rparr>)"
  have s1: "kmem_ready s1" "freelist (kmem s1) = k" "kmem_inv s1 (k # ks)" "mem s1 = mem s"
    "nextpid s1 = nextpid s + 1" "trapret_addr s1 = trapret_addr s" "forkret_addr s1 = forkret_addr s"
    using assms k by (simp_all add: s1_def kmem_ready_def kmem_inv_def)
  have inv: "kmem_inv (kalloced s1) ks" "kmem_ready (kalloced s1)"
    using kmem_inv_kalloced [OF s1(3)] s1(1) by simp_all
  define t where "t = (kalloced s1)\<lparr>mem := new_stack k (trapret_addr s) (forkret_addr s) (mem s),
     ptable := (ptable s)[p := embryo (nextpid s) (ticks s) k (ptable s ! p)]\<rparr>"
  have ka: "kalloc s1 env = Ok k (kalloced s1) env" using s1(1,2) by (simp add: kalloc_eval)
  have "allocproc s env = Ok (Some p) t env"
    using assms(1,2,5) p k(2) ka [unfolded s1_def]
    by (simp add: allocproc_def kmonad set_proc_def Let_def)
       (simp add: t_def s1_def embryo_def new_stack_def add.commute)
  moreover have "kmem_inv t ks"
  proof -
    have "same_outside k (mem (kalloced s1)) (new_stack k (trapret_addr s) (forkret_addr s) (mem s))"
      by (simp add: s1 same_outside_new_stack)
    from kmem_inv_owner_writes [OF inv(1) k(3,4) this] show ?thesis by (simp add: t_def)
  qed
  ultimately show ?thesis using inv s1
    by (intro exI [of _ t]) (simp add: t_def kmem_ready_def)
qed

section \<open>Process ids\<close>

definition live :: "proc list \<Rightarrow> proc list" where
  "live = filter (\<lambda>p. p_state p \<noteq> UNUSED)"

text \<open>Live processes have distinct, positive ids below \<open>nextpid\<close>.\<close>

definition pid_inv :: "'a proc_state_scheme \<Rightarrow> bool" where
  "pid_inv s \<longleftrightarrow> distinct (map p_pid (live (ptable s))) \<and>
     (\<forall>p\<in>set (live (ptable s)). 0 < sint (p_pid p) \<and> sint (p_pid p) < sint (nextpid s))"

lemma sint_succ: "sint (n :: cint) < 2147483647 \<Longrightarrow> sint (n + 1) = sint n + 1"
proof -
  assume "sint n < 2147483647"
  moreover have "- 2147483648 \<le> sint n"
    using sint_ge [of n] by simp
  ultimately show ?thesis
    by (simp add: sint_word_ariths signed_take_bit_int_eq_self)
qed

lemma live_split:
  "p < length ps \<Longrightarrow> live ps = live (take p ps) @ live [ps ! p] @ live (drop (Suc p) ps)"
  unfolding live_def by (metis filter_append append_Cons append_Nil id_take_nth_drop)

lemma live_update:
  "p < length ps \<Longrightarrow> live (ps[p := x]) = live (take p ps) @ live [x] @ live (drop (Suc p) ps)"
  unfolding live_def by (simp add: upd_conv_take_nth_drop)

lemma pid_inv_add:
  assumes "pid_inv s" "p < length (ptable s)" "p_state (ptable s ! p) = UNUSED"
    and "0 < sint (nextpid s)" "sint (nextpid s) < 2147483647"
    and "ptable t = (ptable s)[p := x]" "p_pid x = nextpid s" "nextpid t = nextpid s + 1"
  shows "pid_inv t"
proof -
  let ?A = "live (take p (ptable s))" and ?B = "live (drop (Suc p) (ptable s))"
  have ls: "live (ptable s) = ?A @ ?B"
    using live_split [OF assms(2)] assms(3) by (simp add: live_def)
  have lt: "live (ptable t) = ?A @ live [x] @ ?B"
    using assms(2,6) by (simp add: live_update)
  have nt: "sint (nextpid t) = sint (nextpid s) + 1" using assms(5,8) by (simp add: sint_succ)
  have inv: "distinct (map p_pid (?A @ ?B))"
    and bd: "\<forall>q\<in>set (?A @ ?B). 0 < sint (p_pid q) \<and> sint (p_pid q) < sint (nextpid s)"
    using assms(1) unfolding pid_inv_def ls by blast+
  have "\<forall>q\<in>set (?A @ ?B). p_pid q \<noteq> nextpid s" using bd by (metis less_irrefl)
  with inv assms(7) have d: "distinct (map p_pid (?A @ [x] @ ?B))" by auto
  have b: "\<forall>q\<in>set (?A @ [x] @ ?B). 0 < sint (p_pid q) \<and> sint (p_pid q) < sint (nextpid t)"
  proof
    fix q assume "q \<in> set (?A @ [x] @ ?B)"
    then consider "q = x" | "q \<in> set (?A @ ?B)" by auto
    then show "0 < sint (p_pid q) \<and> sint (p_pid q) < sint (nextpid t)"
    proof cases
      case 2
      with bd have "0 < sint (p_pid q) \<and> sint (p_pid q) < sint (nextpid s)" by blast
      with nt show ?thesis by simp
    qed (use assms(4,7) nt in simp)
  qed
  show ?thesis
    using d b unfolding pid_inv_def lt by (cases "p_state x = UNUSED") (simp_all add: live_def)
qed

section \<open>The loop of \<open>getptable\<close>\<close>

lemma live_Cons: "live (p # ps) = (if p_state p = UNUSED then live ps else p # live ps)"
  by (simp add: live_def)

lemma getptable_loop_copies:
  assumes "\<And>j. j < lim \<longleftrightarrow> int j < nproc \<and> 52 * (int j + 1) < sz" "lim \<le> length buf" "i \<le> lim"
  shows "getptable_loop nproc sz tab ps i buf =
    (let k = min (length (live ps)) (lim - i)
     in take i buf @ map (proc_us_of tab) (take k (live ps)) @ drop (i + k) buf)"
  using assms(2,3)
proof (induction ps arbitrary: i buf)
  case Nil
  then show ?case by (simp add: live_def)
next
  case (Cons p ps)
  show ?case
  proof (cases "i < lim \<and> p_state p \<noteq> UNUSED")
    case True
    then have "lim - i = Suc (lim - Suc i)" by (simp add: Suc_diff_Suc)
    with True Cons assms(1) [of i] show ?thesis
      by (simp add: live_Cons Let_def take_Suc_conv_app_nth)
  next
    case False
    with Cons assms(1) [of i] show ?thesis
      by (cases "i < lim") (auto simp: live_Cons Let_def)
  qed
qed

section \<open>Properties\<close>

lemma sleep_cycle:
  assumes "proc_ctx p s" "lk \<noteq> PtableLock" "free_lock lk s"
  shows "\<exists>t. sleep c (Some lk) (acquired lk s) [] = Asleep (acquired PtableLock t) \<and>
     free_lock lk t \<and> free_lock PtableLock t \<and>
     ptable t = (ptable s)[p := (ptable s ! p)\<lparr>p_chan := Some c, p_state := SLEEPING\<rparr>] \<and>
     (\<exists>u. wakeup c t env = Ok () u env \<and> p_state (ptable u ! p) = RUNNABLE) \<and>
     (\<forall>f t'. f (acquired PtableLock t) = acquired PtableLock t' \<and> proc_ctx p t' \<and> free_lock lk t' \<longrightarrow>
        (\<exists>u. sleep c (Some lk) (acquired lk s) (f # env) = Ok () (acquired lk u) env \<and>
             p_chan (ptable u ! p) = None \<and> FL_IF u = FL_IF s))"
proof (rule exI [of _ "slept p c s"], intro conjI allI impI)
  have p: "p < length (ptable s)" "cpu_ok s" "free_lock PtableLock s"
    using assms by (simp_all add: proc_ctx_def)
  show "sleep c (Some lk) (acquired lk s) [] = Asleep (acquired PtableLock (slept p c s))"
    by (rule sleep_sleeps [OF assms])
  show "\<exists>u. wakeup c (slept p c s) env = Ok () u env \<and> p_state (ptable u ! p) = RUNNABLE"
    using p by (simp add: wake_def)
  fix f :: "'a proc_state_scheme \<Rightarrow> 'a proc_state_scheme" and t' assume f: "f (acquired PtableLock (slept p c s)) = acquired PtableLock t' \<and>
    proc_ctx p t' \<and> free_lock lk t'"
  then have "p < length (ptable t')" by (simp add: proc_ctx_def)
  with f show "\<exists>u. sleep c (Some lk) (acquired lk s) (f # env) = Ok () (acquired lk u) env \<and>
      p_chan (ptable u ! p) = None \<and> FL_IF u = FL_IF s"
    using sleep_resumes [OF assms, of f c t' env] by (auto simp: woken_def)
qed (use assms in \<open>simp_all add: proc_ctx_def slept_def\<close>)

text \<open>
  C3.  No wakeup is lost.  A process that calls \<open>sleep(chan, lk)\<close> with \<open>lk\<close> held gives the CPU
  away in a state where \<open>lk\<close> is free, \<open>ptable.lock\<close> is held, and its own entry, the only one
  changed, sleeps on \<open>chan\<close>; a \<open>wakeup(chan)\<close> that runs as soon as \<open>ptable.lock\<close> is free makes
  it runnable; and whenever the process is resumed, \<open>sleep\<close> returns with \<open>lk\<close> held again, the
  channel cleared and the interrupt flag of the caller restored.  When another CPU has \<open>ptable.lock\<close>,
  \<open>lk\<close> is still held while \<open>sleep\<close> spins for it, so nobody can change the condition and call
  \<open>wakeup\<close> in between; once the lock is freed \<open>sleep\<close> goes on as described.
\<close>

theorem sleep_no_lost_wakeup:
  assumes "proc_ctx p s" "lk \<noteq> PtableLock" "free_lock lk s"
  shows "(\<exists>t. sleep c (Some lk) (acquired lk s) [] = Asleep (acquired PtableLock t) \<and>
     free_lock lk t \<and> free_lock PtableLock t \<and>
     ptable t = (ptable s)[p := (ptable s ! p)\<lparr>p_chan := Some c, p_state := SLEEPING\<rparr>] \<and>
     (\<exists>u. wakeup c t env = Ok () u env \<and> p_state (ptable u ! p) = RUNNABLE) \<and>
     (\<forall>f t'. f (acquired PtableLock t) = acquired PtableLock t' \<and> proc_ctx p t' \<and> free_lock lk t' \<longrightarrow>
        (\<exists>u. sleep c (Some lk) (acquired lk s) (f # env) = Ok () (acquired lk u) env \<and>
             p_chan (ptable u ! p) = None \<and> FL_IF u = FL_IF s))) \<and>
    (\<forall>s' f. cpu_ok s' \<and> curproc s' = Some p \<and> free_lock lk s' \<and> busy_elsewhere PtableLock s' \<and>
       f (pushed (acquired lk s')) = pushed (acquired lk s) \<longrightarrow>
       sleep c (Some lk) (acquired lk s') (f # env) = sleep c (Some lk) (acquired lk s) env)"
  using sleep_cycle [OF assms] sleep_contended [OF _ _ assms(2) _ _ _ assms(1,3)] by blast


text \<open>
  A small machine for the examples: CPU 1 runs process 1 (pid 2), whose parent, process 0
  (pid 1), waits for it; two pages are free.
\<close>

definition blank_proc :: proc where
  "blank_proc = \<lparr>p_sz = 0, p_pgdir = 0, p_kstack = 0, p_state = UNUSED, p_pid = 0, p_priority = 0,
     p_parent = None, p_tf = 0, p_context = 0, p_chan = None, p_killed = 0, p_ofile = replicate 16 None,
     p_cwd = None, p_name = replicate 16 0, p_isthread = 0, p_stack = 0, p_ctime = 0, p_stime = 0,
     p_retime = 0, p_rutime = 0\<rparr>"

definition init_proc :: proc where
  "init_proc = blank_proc\<lparr>p_state := SLEEPING, p_pid := 1, p_priority := 10, p_chan := Some (ChanProc 0)\<rparr>"

definition shell_proc :: proc where
  "shell_proc = blank_proc\<lparr>p_state := RUNNING, p_pid := 2, p_priority := 10, p_parent := Some 0\<rparr>"

definition machine :: proc_state where
  "machine = kmem_state.extend
     (two_pages\<lparr>cpus := [\<lparr>apicid = 0, ncli = 0, intena = False, cproc = None\<rparr>,
                        \<lparr>apicid = 4, ncli = 0, intena = False, cproc = Some 1\<rparr>]\<rparr>)
     \<lparr>ptable = init_proc # shell_proc # replicate 62 blank_proc, nextpid = 3, initproc = Some 0,
      ticks = 100, forkret_addr = 0x80103a00, trapret_addr = 0x80105b00\<rparr>"

lemmas machine_defs = machine_def two_pages_def two_cpus_def kctx.defs kmem_state.defs

lemma machine_ctx: "proc_ctx 1 machine" "free_lock l machine" "cpu_ok machine"
  by (simp_all add: proc_ctx_def cpu_ok_def cur_def curproc_def free_lock_def machine_defs)

lemma machine_kmem: "kmem_ready machine" "kmem_inv machine [0x80400000, 0x80401000]"
proof -
  have "kmem_inv machine xs = kmem_inv two_pages xs" for xs
    by (simp add: kmem_inv_def machine_defs)
  with two_pages_inv show "kmem_inv machine [0x80400000, 0x80401000]" by simp
qed (use machine_ctx in \<open>simp add: kmem_ready_def\<close>)

theorem sleep_no_lost_wakeup_witness:
  "\<exists>t u. sleep ChanTicks (Some TickLock) (acquired TickLock machine) [] = Asleep (acquired PtableLock t) \<and>
     wakeup ChanTicks t [] = Ok () u [] \<and> p_state (ptable u ! 1) = RUNNABLE"
  using sleep_no_lost_wakeup [OF machine_ctx(1) _ machine_ctx(2), of TickLock ChanTicks "[]"] by blast




text \<open>
  C21.  \<open>getptable\<close> copies live processes in table order: with room for \<open>k\<close> entries, where
  \<open>k\<close> is the least of \<open>nproc\<close>, \<open>(size - 1) / 52\<close> and the number of live processes, the first
  \<open>k\<close> elements of the buffer describe the first \<open>k\<close> live processes, the others are kept, and
  the process table is not changed.
\<close>

theorem getptable_copies:
  assumes "cpu_ok s" "free_lock PtableLock s"
    and "0 \<le> sint nproc" "0 < sint sz" "sint sz \<le> 52 * int (length buf)"
    and "k = min (length (live (ptable s))) (min (nat (sint nproc)) (nat ((sint sz - 1) div 52)))"
  shows "\<exists>u. getptable nproc sz (Some buf) s env =
       Ok (0, Some (map (proc_us_of (ptable s)) (take k (live (ptable s))) @ drop k buf)) u env \<and>
     ptable u = ptable s"
proof -
  have "int (nat ((sint sz - 1) div 52)) = (sint sz - 1) div 52" using assms(4) by simp
  then have "nat ((sint sz - 1) div 52) \<le> length buf" using assms(5) by linarith
  moreover have "j < min (nat (sint nproc)) (nat ((sint sz - 1) div 52)) \<longleftrightarrow>
      int j < sint nproc \<and> 52 * (int j + 1) < sint sz" for j
  proof -
    have "52 * (a + 1) < z \<longleftrightarrow> a < (z - 1) div 52" for a z :: int by auto
    then show ?thesis by (simp only: zless_nat_eq_int_zless min_less_iff_conj)
  qed
  ultimately have "getptable_loop (sint nproc) (sint sz) (ptable s) (ptable s) 0 buf =
      map (proc_us_of (ptable s)) (take k (live (ptable s))) @ drop k buf"
    unfolding assms(6) by (subst getptable_loop_copies) (simp_all add: Let_def)
  with assms(1,2) show ?thesis by (simp add: getptable_def kmonad)
qed

theorem getptable_copies_witness:
  "\<exists>u b. getptable 64 156 (Some (replicate 3 (proc_us_of [] blank_proc))) machine [] = Ok (0, Some b) u [] \<and>
     map u_pid b = [1, 2, 0] \<and> map u_ppid b = [-1, 1, -1]"
proof -
  have l: "live (ptable machine) = [init_proc, shell_proc]"
    by (simp add: live_def machine_defs init_proc_def shell_proc_def blank_proc_def)
  show ?thesis
    using getptable_copies [OF machine_ctx(3,2), of 64 156 "replicate 3 (proc_us_of [] blank_proc)" 2 "[]"]
    by (auto simp: l proc_us_of_def init_proc_def shell_proc_def blank_proc_def eval_nat_numeral)
       (simp add: machine_defs init_proc_def blank_proc_def)
qed

lemma getptable_null: "getptable nproc sz None s env = Ok (-1, None) s env"
  by (simp add: getptable_def kmonad)

text \<open>
  One clock tick adds one to exactly one of the three counters of every process that sleeps,
  is runnable or runs, and to none of the others.
\<close>

lemma update_statistics_ticks:
  assumes "cpu_ok s" "free_lock PtableLock s"
  shows "\<exists>u. update_statistics s env = Ok () u env \<and> ptable u = map tick_proc (ptable s)"
    and "p_stime (tick_proc p) + p_retime (tick_proc p) + p_rutime (tick_proc p) =
      p_stime p + p_retime p + p_rutime p + (if p_state p \<in> {SLEEPING, RUNNABLE, RUNNING} then 1 else 0)"
  using assms by (simp_all add: update_statistics_def kmonad tick_proc_def split: procstate.split)

text \<open>
  \<open>kill\<close> does not look at the state of an entry, and the process id of an entry never used is
  0: \<open>kill(0)\<close> returns 0 and marks a free entry as killed, and since \<open>allocproc\<close> does not
  clear the mark, the next process to get that entry is born killed.
\<close>

lemma kill_zero_marks_free_entry:
  assumes "cpu_ok s" "free_lock PtableLock s" "ptable s ! p = blank_proc" "p < length (ptable s)"
    and "\<forall>q<p. p_pid (ptable s ! q) \<noteq> 0"
  shows "\<exists>u. kill 0 s env = Ok 0 u env \<and> ptable u = (ptable s)[p := blank_proc\<lparr>p_killed := 1\<rparr>]"
    and "p_killed (embryo pid now k (blank_proc\<lparr>p_killed := 1\<rparr>)) = 1"
proof -
  have "first_index (\<lambda>p. p_pid p = 0) (ptable s) = Some p"
    using assms(3-5) by (simp add: first_index_Some blank_proc_def)
  with assms show "\<exists>u. kill 0 s env = Ok 0 u env \<and> ptable u = (ptable s)[p := blank_proc\<lparr>p_killed := 1\<rparr>]"
    by (simp add: kill_def kmonad blank_proc_def)
qed (simp add: embryo_def)

end
