(* ===== verification/Vm.thy ===== *)
theory Vm
  imports Proc
begin

text \<open>
  Page tables, \<open>vm.c\<close>.  A page directory and its page tables are pages of kernel memory, so
  they are read and written there: entry \<open>i\<close> of the table at \<open>pgdir\<close> is the word at
  \<open>pgdir + 4 * i\<close>.  \<open>lookup\<close> is what the paging hardware reads off them.  A loop that walks
  addresses page by page goes round at most \<open>2 ^ 20\<close> times before it has seen the whole
  address space; the loops carry that bound, and running past it is the outcome \<open>Spin\<close>.
  Segment descriptors (\<open>seginit\<close> and the TSS descriptor in \<open>switchuvm\<close>) are constants of
  the hardware setup and left out; the messages \<open>cprintf\<close> prints are not part of the state.
\<close>

section \<open>State\<close>

abbreviation PTE_P :: uint where "PTE_P \<equiv> 0x001"
abbreviation PTE_W :: uint where "PTE_W \<equiv> 0x002"
abbreviation PTE_U :: uint where "PTE_U \<equiv> 0x004"
abbreviation NPDENTRIES :: nat where "NPDENTRIES \<equiv> 1024"
abbreviation KERNLINK :: uint where "KERNLINK \<equiv> 0x80100000"

record vm_state = proc_state +
  kpgdir :: uint
  kdata :: uint    \<comment> \<open>the linker symbol \<open>data\<close>: start of the kernel's writable data\<close>
  cr3 :: uint      \<comment> \<open>hardware: physical address of the page directory in use\<close>
  ts_esp0 :: uint  \<comment> \<open>hardware: kernel stack pointer the TSS of the executing CPU holds\<close>

section \<open>The code\<close>

definition PDX :: "uint \<Rightarrow> uint" where
  "PDX va = drop_bit 22 va AND 0x3FF"

definition PTX :: "uint \<Rightarrow> uint" where
  "PTX va = drop_bit 12 va AND 0x3FF"

definition PGADDR :: "uint \<Rightarrow> uint \<Rightarrow> uint \<Rightarrow> uint" where
  "PGADDR d t off = push_bit 22 d OR push_bit 12 t OR off"

definition PTE_ADDR :: "uint \<Rightarrow> uint" where
  "PTE_ADDR pte = pte AND NOT 0xFFF"

definition PTE_FLAGS :: "uint \<Rightarrow> uint" where
  "PTE_FLAGS pte = pte AND 0xFFF"

text \<open>The address of the page table entry for \<open>va\<close>, or 0.\<close>

definition walkpgdir :: "uint \<Rightarrow> uint \<Rightarrow> bool \<Rightarrow> ('a kmem_state_scheme, uint) K" where
  "walkpgdir pgdir va alloc =
     (let pde = pgdir + 4 * PDX va in
      bindK (gets (\<lambda>s. load32 (mem s) pde)) (\<lambda>e.
      if e AND PTE_P \<noteq> 0 then ret (P2V (PTE_ADDR e) + 4 * PTX va)
      else if \<not> alloc then ret 0
      else bindK kalloc (\<lambda>pgtab.
        if pgtab = 0 then ret 0
        else thenK (block
          [modify (\<lambda>s. s\<lparr>mem := memset (mem s) pgtab 0 PGSIZE\<rparr>),
           modify (\<lambda>s. s\<lparr>mem := store32 (mem s) pde (V2P pgtab OR PTE_P OR PTE_W OR PTE_U)\<rparr>)])
        (ret (pgtab + 4 * PTX va)))))"

fun mappages_loop :: "nat \<Rightarrow> uint \<Rightarrow> uint \<Rightarrow> uint \<Rightarrow> uint \<Rightarrow> uint \<Rightarrow> ('a kmem_state_scheme, cint) K" where
  "mappages_loop 0 pgdir a lst pa perm = (\<lambda>s env. Spin)"
| "mappages_loop (Suc n) pgdir a lst pa perm =
     bindK (walkpgdir pgdir a True) (\<lambda>pte.
     if pte = 0 then ret (-1) else
     bindK (gets (\<lambda>s. load32 (mem s) pte)) (\<lambda>e.
     if e AND PTE_P \<noteq> 0 then panic ''remap'' else
     thenK (modify (\<lambda>s. s\<lparr>mem := store32 (mem s) pte (pa OR perm OR PTE_P)\<rparr>)) (
     if a = lst then ret 0
     else mappages_loop n pgdir (a + PGSIZE) lst (pa + PGSIZE) perm)))"

definition mappages :: "uint \<Rightarrow> uint \<Rightarrow> uint \<Rightarrow> uint \<Rightarrow> uint \<Rightarrow> ('a kmem_state_scheme, cint) K" where
  "mappages pgdir va sz pa perm =
     mappages_loop (Suc (2 ^ 20)) pgdir (PGROUNDDOWN va) (PGROUNDDOWN (va + sz - 1)) pa perm"

fun deallocuvm_loop :: "nat \<Rightarrow> uint \<Rightarrow> uint \<Rightarrow> uint \<Rightarrow> ('a kmem_state_scheme, unit) K" where
  "deallocuvm_loop 0 pgdir a oldsz = (\<lambda>s env. Spin)"
| "deallocuvm_loop (Suc n) pgdir a oldsz =
     (if a < oldsz then
        bindK (walkpgdir pgdir a False) (\<lambda>pte.
        if pte = 0 then deallocuvm_loop n pgdir (PGADDR (PDX a + 1) 0 0 - PGSIZE + PGSIZE) oldsz
        else
          bindK (gets (\<lambda>s. load32 (mem s) pte)) (\<lambda>e.
          thenK (if e AND PTE_P \<noteq> 0 then
                   if PTE_ADDR e = 0 then panic ''kfree''
                   else block [kfree (P2V (PTE_ADDR e)),
                               modify (\<lambda>s. s\<lparr>mem := store32 (mem s) pte 0\<rparr>)]
                 else ret ()) (
          deallocuvm_loop n pgdir (a + PGSIZE) oldsz)))
      else ret ())"

definition deallocuvm :: "uint \<Rightarrow> uint \<Rightarrow> uint \<Rightarrow> ('a kmem_state_scheme, uint) K" where
  "deallocuvm pgdir oldsz newsz =
     (if newsz \<ge> oldsz then ret oldsz
      else thenK (deallocuvm_loop (Suc (2 ^ 20)) pgdir (PGROUNDUP newsz) oldsz) (ret newsz))"

definition freevm :: "uint \<Rightarrow> ('a kmem_state_scheme, unit) K" where
  "freevm pgdir =
     (if pgdir = 0 then panic ''freevm: no pgdir'' else
      bindK (deallocuvm pgdir KERNBASE 0) (\<lambda>_. block
        [forK [0..<NPDENTRIES] (\<lambda>i.
           bindK (gets (\<lambda>s. load32 (mem s) (pgdir + 4 * of_nat i))) (\<lambda>e.
           whenK (e AND PTE_P \<noteq> 0) (kfree (P2V (PTE_ADDR e))))),
         kfree pgdir]))"

text \<open>The table \<open>kmap\<close>: virtual start, physical start, physical end, permissions.\<close>

definition kmap :: "uint \<Rightarrow> (uint \<times> uint \<times> uint \<times> uint) list" where
  "kmap data =
     [(KERNBASE, 0, EXTMEM, PTE_W),
      (KERNLINK, V2P KERNLINK, V2P data, 0),
      (data, V2P data, PHYSTOP, PTE_W),
      (DEVSPACE, DEVSPACE, 0, PTE_W)]"

fun setupkvm_loop :: "(uint \<times> uint \<times> uint \<times> uint) list \<Rightarrow> uint \<Rightarrow> ('a kmem_state_scheme, uint) K" where
  "setupkvm_loop [] pgdir = ret pgdir"
| "setupkvm_loop ((virt, phys_start, phys_end, perm) # ks) pgdir =
     bindK (mappages pgdir virt (phys_end - phys_start) phys_start perm) (\<lambda>r.
     if sint r < 0 then thenK (freevm pgdir) (ret 0) else setupkvm_loop ks pgdir)"

definition setupkvm :: "('a vm_state_scheme, uint) K" where
  "setupkvm =
     bindK kalloc (\<lambda>pgdir.
     if pgdir = 0 then ret 0 else
     thenK (modify (\<lambda>s. s\<lparr>mem := memset (mem s) pgdir 0 PGSIZE\<rparr>)) (
     if P2V PHYSTOP > DEVSPACE then panic ''PHYSTOP too high'' else
     bindK (gets kdata) (\<lambda>data. setupkvm_loop (kmap data) pgdir)))"

definition switchkvm :: "('a vm_state_scheme, unit) K" where
  "switchkvm = modify (\<lambda>s. s\<lparr>cr3 := V2P (kpgdir s)\<rparr>)"

definition kvmalloc :: "('a vm_state_scheme, unit) K" where
  "kvmalloc = bindK setupkvm (\<lambda>d. block [modify (\<lambda>s. s\<lparr>kpgdir := d\<rparr>), switchkvm])"

definition switchuvm :: "nat option \<Rightarrow> ('a vm_state_scheme, unit) K" where
  "switchuvm p =
     (case p of None \<Rightarrow> panic ''switchuvm: no process'' | Some p \<Rightarrow>
      bindK (gets (\<lambda>s. ptable s ! p)) (\<lambda>q.
      if p_kstack q = 0 then panic ''switchuvm: no kstack''
      else if p_pgdir q = 0 then panic ''switchuvm: no pgdir''
      else block
        [pushcli,
         bindK mycpu (\<lambda>c. modify (\<lambda>s. s\<lparr>ts_esp0 := p_kstack q + KSTACKSIZE\<rparr>)),
         modify (\<lambda>s. s\<lparr>cr3 := V2P (p_pgdir q)\<rparr>),
         popcli]))"

text \<open>\<open>init\<close> is the address of the linked-in \<open>initcode\<close>.\<close>

definition inituvm :: "uint \<Rightarrow> uint \<Rightarrow> uint \<Rightarrow> ('a kmem_state_scheme, unit) K" where
  "inituvm pgdir init sz =
     (if sz \<ge> PGSIZE then panic ''inituvm: more than a page'' else
      bindK kalloc (\<lambda>m.
      thenK (modify (\<lambda>s. s\<lparr>mem := memset (mem s) m 0 PGSIZE\<rparr>)) (
      bindK (mappages pgdir 0 PGSIZE (V2P m) (PTE_W OR PTE_U)) (\<lambda>_.
      modify (\<lambda>s. s\<lparr>mem := memmove (mem s) m init sz\<rparr>)))))"

fun allocuvm_loop :: "nat \<Rightarrow> uint \<Rightarrow> uint \<Rightarrow> uint \<Rightarrow> uint \<Rightarrow> ('a kmem_state_scheme, uint) K" where
  "allocuvm_loop 0 pgdir a oldsz newsz = (\<lambda>s env. Spin)"
| "allocuvm_loop (Suc n) pgdir a oldsz newsz =
     (if a < newsz then
        bindK kalloc (\<lambda>m.
        if m = 0 then bindK (deallocuvm pgdir newsz oldsz) (\<lambda>_. ret 0) else
        thenK (modify (\<lambda>s. s\<lparr>mem := memset (mem s) m 0 PGSIZE\<rparr>)) (
        bindK (mappages pgdir a PGSIZE (V2P m) (PTE_W OR PTE_U)) (\<lambda>r.
        if sint r < 0 then
          bindK (deallocuvm pgdir newsz oldsz) (\<lambda>_. thenK (kfree m) (ret 0))
        else allocuvm_loop n pgdir (a + PGSIZE) oldsz newsz)))
      else ret newsz)"

definition allocuvm :: "uint \<Rightarrow> uint \<Rightarrow> uint \<Rightarrow> ('a kmem_state_scheme, uint) K" where
  "allocuvm pgdir oldsz newsz =
     (if newsz \<ge> KERNBASE then ret 0
      else if newsz < oldsz then ret oldsz
      else allocuvm_loop (Suc (2 ^ 20)) pgdir (PGROUNDUP oldsz) oldsz newsz)"

definition clearpteu :: "uint \<Rightarrow> uint \<Rightarrow> ('a kmem_state_scheme, unit) K" where
  "clearpteu pgdir uva =
     bindK (walkpgdir pgdir uva False) (\<lambda>pte.
     if pte = 0 then panic ''clearpteu''
     else modify (\<lambda>s. s\<lparr>mem := store32 (mem s) pte (load32 (mem s) pte AND NOT PTE_U)\<rparr>))"

fun copyuvm_loop :: "nat \<Rightarrow> uint \<Rightarrow> uint \<Rightarrow> uint \<Rightarrow> uint \<Rightarrow> ('a kmem_state_scheme, uint) K" where
  "copyuvm_loop 0 pgdir d i sz = (\<lambda>s env. Spin)"
| "copyuvm_loop (Suc n) pgdir d i sz =
     (if i < sz then
        bindK (walkpgdir pgdir i False) (\<lambda>pte.
        if pte = 0 then panic ''copyuvm: pte should exist'' else
        bindK (gets (\<lambda>s. load32 (mem s) pte)) (\<lambda>e.
        if e AND PTE_P = 0 then panic ''copyuvm: page not present'' else
        bindK kalloc (\<lambda>m.
        if m = 0 then thenK (freevm d) (ret 0) else
        thenK (modify (\<lambda>s. s\<lparr>mem := memmove (mem s) m (P2V (PTE_ADDR e)) PGSIZE\<rparr>)) (
        bindK (mappages d i PGSIZE (V2P m) (PTE_FLAGS e)) (\<lambda>r.
        if sint r < 0 then thenK (freevm d) (ret 0)
        else copyuvm_loop n pgdir d (i + PGSIZE) sz)))))
      else ret d)"

definition copyuvm :: "uint \<Rightarrow> uint \<Rightarrow> ('a vm_state_scheme, uint) K" where
  "copyuvm pgdir sz =
     bindK setupkvm (\<lambda>d. if d = 0 then ret 0 else copyuvm_loop (Suc (2 ^ 20)) pgdir d 0 sz)"

text \<open>\<open>uva2ka\<close> does not check that \<open>walkpgdir\<close> found an entry before it reads it.\<close>

definition uva2ka :: "uint \<Rightarrow> uint \<Rightarrow> ('a kmem_state_scheme, uint) K" where
  "uva2ka pgdir uva =
     bindK (walkpgdir pgdir uva False) (\<lambda>pte.
     if pte = 0 then panic ''trap'' else
     bindK (gets (\<lambda>s. load32 (mem s) pte)) (\<lambda>e.
     if e AND PTE_P = 0 then ret 0
     else if e AND PTE_U = 0 then ret 0
     else ret (P2V (PTE_ADDR e))))"

text \<open>What \<open>p\<close> points at is passed as a list of bytes.\<close>

definition store_bytes :: "memory \<Rightarrow> uint \<Rightarrow> byte list \<Rightarrow> memory" where
  "store_bytes m a bs = (\<lambda>x. if unat (x - a) < length bs then bs ! unat (x - a) else m x)"

lemma page_remainder: "unat (PGSIZE - (va - PGROUNDDOWN va)) = 4096 - unat va mod 4096"
proof -
  have "PGROUNDDOWN va \<le> va" by (simp add: word_le_nat_alt unat_PGROUNDDOWN)
  then have d: "unat (va - PGROUNDDOWN va) = unat va mod 4096"
    by (simp add: unat_sub unat_PGROUNDDOWN minus_div_mult_eq_mod)
  moreover have "unat va mod 4096 < 4096" by simp
  ultimately have "va - PGROUNDDOWN va \<le> PGSIZE" by (simp add: word_le_nat_alt)
  with d show ?thesis by (simp add: unat_sub)
qed

function copyout_loop :: "uint \<Rightarrow> uint \<Rightarrow> byte list \<Rightarrow> ('a kmem_state_scheme, cint) K" where
  "copyout_loop pgdir va buf =
     (if buf = [] then ret 0 else
        bindK (uva2ka pgdir (PGROUNDDOWN va)) (\<lambda>pa0.
        if pa0 = 0 then ret (-1) else
        thenK (modify (\<lambda>s. s\<lparr>mem := store_bytes (mem s) (pa0 + (va - PGROUNDDOWN va))
          (take (unat (PGSIZE - (va - PGROUNDDOWN va))) buf)\<rparr>)) (
        copyout_loop pgdir (PGROUNDDOWN va + PGSIZE) (drop (unat (PGSIZE - (va - PGROUNDDOWN va))) buf))))"
  by pat_completeness auto

termination copyout_loop
proof (relation "measure (\<lambda>(pgdir, va, buf). length buf)", goal_cases)
  case (2 pgdir va buf)
  have "unat va mod 4096 < 4096" "0 < length buf" using 2 by simp_all
  then have "length buf + unat va mod 4096 - 4096 < length buf" by linarith
  then show ?case by (simp add: page_remainder)
qed simp

declare copyout_loop.simps [simp del]

definition copyout :: "uint \<Rightarrow> uint \<Rightarrow> byte list \<Rightarrow> ('a kmem_state_scheme, cint) K" where
  "copyout pgdir va p = copyout_loop pgdir va p"

section \<open>Frame rules\<close>

lemma vm_frame [simp]:
  "kpgdir (acquired l s) = kpgdir s"
  "cr3 (acquired l s) = cr3 s"
  "ts_esp0 (acquired l s) = ts_esp0 s"
  "kpgdir (noted s) = kpgdir s"
  "cr3 (noted s) = cr3 s"
  "ts_esp0 (noted s) = ts_esp0 s"
  by (simp_all add: acquired_def pushed_def noted_def set_cpu_def set_lock_def)

lemma vm_commute [simp]:
  "kpgdir_update u0 (acquired l s) = acquired l (kpgdir_update u0 s)"
  "cr3_update u1 (acquired l s) = acquired l (cr3_update u1 s)"
  "ts_esp0_update u2 (acquired l s) = acquired l (ts_esp0_update u2 s)"
  "kpgdir_update u0 (noted s) = noted (kpgdir_update u0 s)"
  "cr3_update u1 (noted s) = noted (cr3_update u1 s)"
  "ts_esp0_update u2 (noted s) = noted (ts_esp0_update u2 s)"
  by (simp_all add: acquired_def pushed_def noted_def set_cpu_def set_lock_def cur_def)

lemma vm_context [simp]:
  "cur (kpgdir_update u0 s) = cur s"
  "cpu_ok (kpgdir_update u0 s) = cpu_ok s"
  "free_lock l (kpgdir_update u0 s) = free_lock l s"
  "held_here l (kpgdir_update u0 s) = held_here l s"
  "cur (cr3_update u1 s) = cur s"
  "cpu_ok (cr3_update u1 s) = cpu_ok s"
  "free_lock l (cr3_update u1 s) = free_lock l s"
  "held_here l (cr3_update u1 s) = held_here l s"
  "cur (ts_esp0_update u2 s) = cur s"
  "cpu_ok (ts_esp0_update u2 s) = cpu_ok s"
  "free_lock l (ts_esp0_update u2 s) = free_lock l s"
  "held_here l (ts_esp0_update u2 s) = held_here l s"
  by (simp_all add: cur_def cpu_ok_def free_lock_def held_here_def)

lemma vm_ops [simp]:
  "kpgdir (set_proc i g s) = kpgdir s"
  "kpgdir (slept p c s) = kpgdir s"
  "kpgdir (woken p s) = kpgdir s"
  "kpgdir (settled s) = kpgdir s"
  "kpgdir (kfreed a s) = kpgdir s"
  "kpgdir (kalloced s) = kpgdir s"
  "kpgdir (set_cpu i h s) = kpgdir s"
  "cr3 (set_proc i g s) = cr3 s"
  "cr3 (slept p c s) = cr3 s"
  "cr3 (woken p s) = cr3 s"
  "cr3 (settled s) = cr3 s"
  "cr3 (kfreed a s) = cr3 s"
  "cr3 (kalloced s) = cr3 s"
  "cr3 (set_cpu i h s) = cr3 s"
  "ts_esp0 (set_proc i g s) = ts_esp0 s"
  "ts_esp0 (slept p c s) = ts_esp0 s"
  "ts_esp0 (woken p s) = ts_esp0 s"
  "ts_esp0 (settled s) = ts_esp0 s"
  "ts_esp0 (kfreed a s) = ts_esp0 s"
  "ts_esp0 (kalloced s) = ts_esp0 s"
  "ts_esp0 (set_cpu i h s) = ts_esp0 s"
  by (simp_all add: set_proc_def slept_def woken_def settled_def kfreed_def kalloced_def set_cpu_def)

lemma vm_kept [simp]:
  "curproc (kpgdir_update u0 s) = curproc s"
  "proc_ctx p (kpgdir_update u0 s) = proc_ctx p s"
  "kmem_ready (kpgdir_update u0 s) = kmem_ready s"
  "kmem_inv (kpgdir_update u0 s) xs = kmem_inv s xs"
  "curproc (cr3_update u1 s) = curproc s"
  "proc_ctx p (cr3_update u1 s) = proc_ctx p s"
  "kmem_ready (cr3_update u1 s) = kmem_ready s"
  "kmem_inv (cr3_update u1 s) xs = kmem_inv s xs"
  "curproc (ts_esp0_update u2 s) = curproc s"
  "proc_ctx p (ts_esp0_update u2 s) = proc_ctx p s"
  "kmem_ready (ts_esp0_update u2 s) = kmem_ready s"
  "kmem_inv (ts_esp0_update u2 s) xs = kmem_inv s xs"
  by (simp_all add: curproc_def proc_ctx_def kmem_ready_def kmem_inv_def cur_def cpu_ok_def free_lock_def)

section \<open>Entries of a table\<close>

lemma unat_AND_mask10: "unat (x AND 0x3FF :: uint) < 1024"
proof -
  have "x AND 0x3FF \<le> 0x3FF" by (rule word_and_le1)
  then show ?thesis by (simp add: word_le_nat_alt)
qed

lemma PDX_lt: "unat (PDX va) < 1024" and PTX_lt: "unat (PTX va) < 1024"
  by (simp_all add: PDX_def PTX_def unat_AND_mask10)

lemma entry_offset: "unat i < 1024 \<Longrightarrow> unat (4 * i :: uint) = 4 * unat i"
  by (simp add: unat_word_ariths)

lemma entry_apart:
  fixes i j k :: uint
  assumes "unat i < 1024" "unat j < 1024" "i \<noteq> j" "unat k < 4"
  shows "4 \<le> unat (4 * j + k - 4 * i)"
proof (rule ccontr)
  assume d: "\<not> 4 \<le> unat (4 * j + k - 4 * i)"
  have "unat (4 * i + (4 * j + k - 4 * i)) = 4 * unat i + unat (4 * j + k - 4 * i)"
    using assms(1) d by (subst unat_word_ariths) (simp add: entry_offset)
  moreover have "unat (4 * i + (4 * j + k - 4 * i)) = 4 * unat j + unat k"
    using assms(2,4) by (simp add: unat_word_ariths)
  ultimately have "unat i = unat j" using d assms(4) by linarith
  with assms(3) show False by (simp add: word_unat_eq_iff)
qed

lemma load32_store32_entry:
  assumes "unat i < 1024" "unat j < 1024" "i \<noteq> j"
  shows "load32 (store32 m (v + 4 * i) w) (v + 4 * j) = load32 m (v + 4 * j)"
proof (rule load32_cong)
  fix k :: uint assume "k < 4"
  then have "4 \<le> unat (4 * j + k - 4 * i)" using assms by (intro entry_apart) (auto simp: word_less_nat_alt)
  then show "store32 m (v + 4 * i) w (v + 4 * j + k) = m (v + 4 * j + k)"
    by (intro store32_other) (simp add: word_le_nat_alt add.assoc)
qed

lemma load32_other_page:
  assumes "same_outside v m m'" "x mod 4096 = 0" "v mod 4096 = 0" "x \<noteq> v" "unat i < 1024"
  shows "load32 m' (x + 4 * i) = load32 m (x + 4 * i)"
proof (rule load32_cong)
  fix k :: uint assume "k < 4"
  then have "unat (4 * i + k) < 4096"
    using assms(5) by (simp add: unat_word_ariths word_less_nat_alt)
  from pages_disjoint [OF assms(2-4) this] assms(1) show "m' (x + 4 * i + k) = m (x + 4 * i + k)"
    by (simp add: same_outside_def add.assoc)
qed

lemma load32_zero_page: "unat i < 1024 \<Longrightarrow> load32 (memset m v 0 4096) (v + 4 * i) = 0"
proof -
  assume i: "unat i < 1024"
  have "memset m v 0 4096 (v + 4 * i + k) = 0" if "unat k < 4" for k
    using i that by (simp add: memset_fills filled_def add.assoc unat_word_ariths)
  from this [of 0] this [of 1] this [of 2] this [of 3] show ?thesis by (simp add: load32_def)
qed

lemma PTE_ADDR_PGROUNDDOWN: "PTE_ADDR e = PGROUNDDOWN e"
  by (simp add: PTE_ADDR_def PGROUNDDOWN_def)

lemma index_bits:
  "PDX va = take_bit 10 (drop_bit 22 va)" "PTX va = take_bit 10 (drop_bit 12 va)"
  "PGROUNDDOWN va = push_bit 12 (drop_bit 12 va)"
proof -
  have "NOT (mask 12 :: uint) = - 4096" by (simp add: mask_eq_exp_minus_1)
  then show "PGROUNDDOWN va = push_bit 12 (drop_bit 12 va)"
    by (simp add: PGROUNDDOWN_def flip: and_not_mask_eq)
qed (simp_all add: PDX_def PTX_def take_bit_eq_mask mask_eq_exp_minus_1)

lemma PGADDR_split: "PGADDR (PDX va) (PTX va) 0 = PGROUNDDOWN va"
  unfolding PGADDR_def index_bits
  by (rule bit_word_eqI) (auto simp: bit_simps)

lemma PDX_PGROUNDDOWN: "PDX (PGROUNDDOWN va) = PDX va" "PTX (PGROUNDDOWN va) = PTX va"
  unfolding index_bits by (rule bit_word_eqI; auto simp: bit_simps)+

lemma same_page: "PDX a = PDX b \<and> PTX a = PTX b \<longleftrightarrow> PGROUNDDOWN a = PGROUNDDOWN b"
  by (metis PGADDR_split PDX_PGROUNDDOWN)

section \<open>What the hardware reads\<close>

definition present :: "uint \<Rightarrow> bool" where
  "present e \<longleftrightarrow> e AND PTE_P \<noteq> 0"

text \<open>Entry \<open>i\<close> of the page directory, and the table it points to.\<close>

definition dir_entry :: "memory \<Rightarrow> uint \<Rightarrow> uint \<Rightarrow> uint" where
  "dir_entry m pgdir i = load32 m (pgdir + 4 * i)"

definition table_of :: "uint \<Rightarrow> uint" where
  "table_of e = P2V (PTE_ADDR e)"

definition lookup :: "memory \<Rightarrow> uint \<Rightarrow> uint \<Rightarrow> uint option" where
  "lookup m pgdir va =
     (let d = dir_entry m pgdir (PDX va); e = load32 m (table_of d + 4 * PTX va)
      in if present d \<and> present e then Some e else None)"

text \<open>
  The pages of a page table are pages of the allocator that are not free, and different
  directory entries have different tables.
\<close>

definition pt_inv :: "uint \<Rightarrow> memory \<Rightarrow> uint \<Rightarrow> uint list \<Rightarrow> bool" where
  "pt_inv e m pgdir xs \<longleftrightarrow>
     page_ok e pgdir \<and> pgdir \<notin> set xs \<and>
     (\<forall>i. unat i < 1024 \<and> present (dir_entry m pgdir i) \<longrightarrow>
        page_ok e (table_of (dir_entry m pgdir i)) \<and>
        table_of (dir_entry m pgdir i) \<notin> insert pgdir (set xs)) \<and>
     (\<forall>i j. unat i < 1024 \<and> unat j < 1024 \<and> present (dir_entry m pgdir i) \<and>
        present (dir_entry m pgdir j) \<and> i \<noteq> j \<longrightarrow>
        table_of (dir_entry m pgdir i) \<noteq> table_of (dir_entry m pgdir j))"

lemma present_bit: "present e \<longleftrightarrow> bit e 0"
  unfolding present_def and_one_eq bit_0 by (simp only: even_iff_mod_2_eq_zero)

lemma present_OR [simp]:
  "present (a OR PTE_P)" "present (a OR PTE_P OR b)" "present (a OR b OR PTE_P)" "\<not> present 0"
  by (simp_all add: present_bit bit_simps)

lemma V2P_aligned:
  assumes "k mod 4096 = 0"
  shows "V2P k mod 4096 = 0"
proof -
  obtain q where q: "unat k = 4096 * q" using aligned_unat [OF assms] by blast
  have "V2P k = k + 0x80000000" by (simp add: V2P_def)
  then have "unat (V2P k) = (4096 * q + 2147483648) mod 4294967296"
    using q by (simp add: unat_word_ariths)
  then have "unat (V2P k) mod 4096 = 0"
    by (simp add: mod_mod_cancel)
  then have "unat (V2P k mod 4096) = 0" by (simp add: unat_mod)
  then show ?thesis by (simp add: word_unat_eq_iff)
qed

lemma new_table_entry:
  assumes "k mod 4096 = 0"
  shows "table_of (V2P k OR 1 OR 2 OR 4) = k"
proof -
  have "V2P k mod 4096 = 0" using assms by (rule V2P_aligned)
  then have "push_bit 12 (drop_bit 12 (V2P k)) = V2P k"
    by (simp add: push_bit_eq_mult drop_bit_eq_div flip: minus_mod_eq_div_mult)
  moreover have "drop_bit 12 (V2P k OR 1 OR 2 OR 4) = drop_bit 12 (V2P k)"
    by (simp add: drop_bit_or)
  ultimately show ?thesis
    by (simp add: table_of_def PTE_ADDR_PGROUNDDOWN index_bits(3))
qed

lemma pt_inv_cong:
  "(\<And>i. unat i < 1024 \<Longrightarrow> dir_entry m' pgdir i = dir_entry m pgdir i) \<Longrightarrow>
   pt_inv e m' pgdir xs = pt_inv e m pgdir xs"
  unfolding pt_inv_def by (simp cong: conj_cong)

lemma pt_inv_dir:
  assumes "pt_inv e m pgdir xs"
  shows "pgdir mod 4096 = 0" "pgdir \<notin> set xs" "page_ok e pgdir"
  using assms by (auto simp: pt_inv_def page_ok_def)

lemma pt_inv_table:
  assumes "pt_inv e m pgdir xs" "unat i < 1024" "present (dir_entry m pgdir i)"
  shows "table_of (dir_entry m pgdir i) mod 4096 = 0" "table_of (dir_entry m pgdir i) \<notin> set xs"
    "table_of (dir_entry m pgdir i) \<noteq> pgdir"
  using assms by (auto simp: pt_inv_def page_ok_def)

text \<open>Writing an entry of a table that is in place.\<close>

lemma write_entry:
  assumes inv: "pt_inv e m pgdir xs" and pres: "present (dir_entry m pgdir (PDX va))"
    and m': "m' = store32 m (table_of (dir_entry m pgdir (PDX va)) + 4 * PTX va) w"
  shows "pt_inv e m' pgdir xs"
    and "lookup m' pgdir va' =
      (if PGROUNDDOWN va' = PGROUNDDOWN va then (if present w then Some w else None)
       else lookup m pgdir va')"
    and "same_outside (table_of (dir_entry m pgdir (PDX va))) m m'"
proof -
  let ?T = "table_of (dir_entry m pgdir (PDX va))"
  note T = pt_inv_table [OF inv PDX_lt pres]
  show out: "same_outside ?T m m'"
    unfolding m' by (rule same_outside_store32_at) (use PTX_lt [of va] in \<open>simp_all add: entry_offset\<close>)
  have dir: "dir_entry m' pgdir i = dir_entry m pgdir i" if "unat i < 1024" for i
    unfolding dir_entry_def using T pt_inv_dir [OF inv] that by (intro load32_other_page [OF out]) auto
  have "pt_inv e m' pgdir xs = pt_inv e m pgdir xs" by (rule pt_inv_cong) (rule dir)
  with inv show "pt_inv e m' pgdir xs" by simp
  show "lookup m' pgdir va' = (if PGROUNDDOWN va' = PGROUNDDOWN va then (if present w then Some w else None)
       else lookup m pgdir va')"
  proof (cases "PDX va' = PDX va")
    case True
    have "load32 m' (?T + 4 * PTX va') = (if PTX va' = PTX va then w else load32 m (?T + 4 * PTX va'))"
      unfolding m' by (simp add: load32_store32_entry PTX_lt)
    with True pres dir [OF PDX_lt] show ?thesis
      using same_page [of va' va] by (simp add: lookup_def Let_def)
  next
    case False
    have "load32 m' (table_of (dir_entry m pgdir (PDX va')) + 4 * PTX va') =
        load32 m (table_of (dir_entry m pgdir (PDX va')) + 4 * PTX va')"
      if "present (dir_entry m pgdir (PDX va'))"
      using pt_inv_table [OF inv PDX_lt that] T inv PDX_lt False that pres
      by (intro load32_other_page [OF out]) (auto simp: pt_inv_def PTX_lt)
    with False dir [OF PDX_lt] show ?thesis
      using same_page [of va' va] by (auto simp: lookup_def Let_def)
  qed
qed

text \<open>A fresh, zeroed table put in place of a missing one changes no translation.\<close>

definition with_table :: "memory \<Rightarrow> uint \<Rightarrow> uint \<Rightarrow> uint \<Rightarrow> memory" where
  "with_table m pgdir i k =
     store32 (memset m k 0 PGSIZE) (pgdir + 4 * i) (V2P k OR PTE_P OR PTE_W OR PTE_U)"

lemma with_table_loads:
  assumes inv: "pt_inv e m pgdir (k # xs)" and k: "k mod 4096 = 0" and i: "unat i < 1024"
  shows "unat j < 1024 \<Longrightarrow> dir_entry (with_table m pgdir i k) pgdir j =
      (if j = i then V2P k OR PTE_P OR PTE_W OR PTE_U else dir_entry m pgdir j)"
    and "x mod 4096 = 0 \<Longrightarrow> x \<noteq> pgdir \<Longrightarrow> unat j < 1024 \<Longrightarrow>
      load32 (with_table m pgdir i k) (x + 4 * j) = (if x = k then 0 else load32 m (x + 4 * j))"
proof -
  have dir: "pgdir mod 4096 = 0" "pgdir \<noteq> k" using pt_inv_dir [OF inv] by auto
  have zero: "same_outside k m (memset m k 0 4096)" by (rule same_outside_memset)
  have store: "same_outside pgdir (memset m k 0 4096) (with_table m pgdir i k)"
    unfolding with_table_def
    by (rule same_outside_store32_at) (use i in \<open>simp_all add: entry_offset\<close>)
  show "dir_entry (with_table m pgdir i k) pgdir j =
      (if j = i then V2P k OR PTE_P OR PTE_W OR PTE_U else dir_entry m pgdir j)" if "unat j < 1024"
    using that i load32_other_page [OF zero dir(1) k dir(2) that]
    by (simp add: dir_entry_def with_table_def load32_store32_entry)
  show "load32 (with_table m pgdir i k) (x + 4 * j) = (if x = k then 0 else load32 m (x + 4 * j))"
    if "x mod 4096 = 0" "x \<noteq> pgdir" "unat j < 1024"
    using that load32_other_page [OF store that(1) dir(1) that(2,3)]
      load32_other_page [OF zero that(1) k _ that(3)] load32_zero_page [OF that(3)] by auto
qed

lemma pt_inv_with_table:
  assumes inv: "pt_inv e m pgdir (k # xs)" and k: "page_ok e k" "k \<notin> set xs" and i: "unat i < 1024"
    and absent: "\<not> present (dir_entry m pgdir i)"
  shows "pt_inv e (with_table m pgdir i k) pgdir xs"
proof -
  have al: "k mod 4096 = 0" using k by (simp add: page_ok_def)
  have entry: "dir_entry (with_table m pgdir i k) pgdir j =
      (if j = i then V2P k OR PTE_P OR PTE_W OR PTE_U else dir_entry m pgdir j)" if "unat j < 1024" for j
    using with_table_loads(1) [OF inv al i that] .
  have new: "table_of (V2P k OR PTE_P OR PTE_W OR PTE_U) = k" using al by (rule new_table_entry)
  have old: "page_ok e (table_of (dir_entry m pgdir j)) \<and> table_of (dir_entry m pgdir j) \<notin> insert pgdir (set (k # xs))"
    if "unat j < 1024" "present (dir_entry m pgdir j)" for j
    using inv that unfolding pt_inv_def by blast
  have apart: "table_of (dir_entry m pgdir j) \<noteq> table_of (dir_entry m pgdir l)"
    if "unat j < 1024" "unat l < 1024" "present (dir_entry m pgdir j)" "present (dir_entry m pgdir l)" "j \<noteq> l" for j l
    using inv that unfolding pt_inv_def by blast
  have "pgdir \<noteq> k" "page_ok e pgdir" "pgdir \<notin> set xs" using inv by (auto simp: pt_inv_def)
  moreover have "page_ok e (table_of (dir_entry (with_table m pgdir i k) pgdir j)) \<and>
      table_of (dir_entry (with_table m pgdir i k) pgdir j) \<notin> insert pgdir (set xs)"
    if "unat j < 1024" "present (dir_entry (with_table m pgdir i k) pgdir j)" for j
    using that old [of j] entry [of j] new k calculation by (cases "j = i") auto
  moreover have "table_of (dir_entry (with_table m pgdir i k) pgdir j) \<noteq>
      table_of (dir_entry (with_table m pgdir i k) pgdir l)"
    if "unat j < 1024" "unat l < 1024" "present (dir_entry (with_table m pgdir i k) pgdir j)"
      "present (dir_entry (with_table m pgdir i k) pgdir l)" "j \<noteq> l" for j l
    using that old [of j] old [of l] entry [of j] entry [of l] new apart [of j l]
    by (cases "j = i"; cases "l = i") auto
  ultimately show ?thesis unfolding pt_inv_def by blast
qed

lemma lookup_with_table:
  assumes inv: "pt_inv e m pgdir (k # xs)" and k: "k mod 4096 = 0" and i: "unat i < 1024"
    and absent: "\<not> present (dir_entry m pgdir i)"
  shows "lookup (with_table m pgdir i k) pgdir va = lookup m pgdir va"
proof (cases "PDX va = i")
  case True
  have "load32 (with_table m pgdir i k) (k + 4 * PTX va) = 0"
    using with_table_loads(2) [OF inv k i k _ PTX_lt] pt_inv_dir(2) [OF inv] by auto
  with True absent show ?thesis
    using with_table_loads(1) [OF inv k i PDX_lt [of va]] new_table_entry [OF k]
    by (simp add: lookup_def Let_def)
next
  case False
  have "load32 (with_table m pgdir i k) (table_of (dir_entry m pgdir (PDX va)) + 4 * PTX va) =
      load32 m (table_of (dir_entry m pgdir (PDX va)) + 4 * PTX va)"
    if "present (dir_entry m pgdir (PDX va))"
    using pt_inv_table [OF inv PDX_lt that] with_table_loads(2) [OF inv k i _ _ PTX_lt] by auto
  with False show ?thesis
    using with_table_loads(1) [OF inv k i PDX_lt [of va]] by (auto simp: lookup_def Let_def)
qed

section \<open>Walking and mapping\<close>

lemma new_entry: "present (V2P k OR 7)" "k mod 4096 = 0 \<Longrightarrow> table_of (V2P k OR 7) = k"
  using new_table_entry [of k] by (simp_all add: present_bit bit_simps)

lemma kmem_ready_mem [simp]: "kmem_ready (s\<lparr>mem := m\<rparr>) = kmem_ready s"
  by (simp add: kmem_ready_def)

lemma walkpgdir_present:
  "present (dir_entry (mem s) pgdir (PDX va)) \<Longrightarrow>
   walkpgdir pgdir va alloc s env = Ok (table_of (dir_entry (mem s) pgdir (PDX va)) + 4 * PTX va) s env"
  by (simp add: walkpgdir_def kmonad Let_def present_def dir_entry_def table_of_def)

lemma walkpgdir_absent:
  "\<not> present (dir_entry (mem s) pgdir (PDX va)) \<Longrightarrow> walkpgdir pgdir va False s env = Ok 0 s env"
  by (simp add: walkpgdir_def kmonad Let_def present_def dir_entry_def)

lemma walkpgdir_no_memory:
  assumes "\<not> present (dir_entry (mem s) pgdir (PDX va))" "kmem_ready s" "kmem_inv s []"
  shows "walkpgdir pgdir va True s env = Ok 0 (kalloced s) env"
  using assms
  by (simp add: walkpgdir_def kmonad Let_def present_def dir_entry_def kalloc_eval kmem_inv_Nil)

lemma walkpgdir_allocates:
  assumes "\<not> present (dir_entry (mem s) pgdir (PDX va))" "kmem_ready s" "kmem_inv s (k # xs)"
  shows "walkpgdir pgdir va True s env =
    Ok (k + 4 * PTX va) ((kalloced s)\<lparr>mem := with_table (mem s) pgdir (PDX va) k\<rparr>) env"
proof -
  have "freelist (kmem s) = k" "k \<noteq> 0" using assms(3) by (simp_all add: kmem_inv_def)
  with assms(1,2) show ?thesis
    by (simp add: walkpgdir_def kmonad Let_def present_def dir_entry_def kalloc_eval with_table_def)
qed

text \<open>
  With \<open>alloc\<close>, the walk ends at the entry of a table that is in place, and no translation has
  changed, unless a table was missing and memory is out.
\<close>

lemma walkpgdir_alloc:
  assumes "kmem_ready s" "kmem_inv s xs" "pt_inv (kend s) (mem s) pgdir xs"
  obtains
    (fail) t where "walkpgdir pgdir va True s env = Ok 0 t env" "xs = []" "mem t = mem s" "kmem_inv t []"
  | (found) t xs' where "walkpgdir pgdir va True s env =
        Ok (table_of (dir_entry (mem t) pgdir (PDX va)) + 4 * PTX va) t env"
      "present (dir_entry (mem t) pgdir (PDX va))" "kmem_ready t" "kmem_inv t xs'" "kend t = kend s"
      "pt_inv (kend t) (mem t) pgdir xs'" "\<forall>va'. lookup (mem t) pgdir va' = lookup (mem s) pgdir va'"
      "xs' = xs \<or> (\<exists>k. xs = k # xs')"
proof (cases "present (dir_entry (mem s) pgdir (PDX va))")
  case True
  with assms show ?thesis by (intro found [of s xs]) (simp_all add: walkpgdir_present)
next
  case False
  show ?thesis
  proof (cases xs)
    case Nil
    with False assms show ?thesis
      by (intro fail [of "kalloced s"]) (simp_all add: walkpgdir_no_memory kmem_inv_Nil kalloced_def)
  next
    case (Cons k ks)
    have k: "page_ok (kend s) k" "k \<notin> set ks" "k mod 4096 = 0"
      using assms(2) Cons by (auto simp: kmem_inv_def page_ok_def)
    let ?m = "with_table (mem s) pgdir (PDX va) k" let ?t = "(kalloced s)\<lparr>mem := ?m\<rparr>"
    have entry: "dir_entry ?m pgdir (PDX va) = V2P k OR PTE_P OR PTE_W OR PTE_U"
      using with_table_loads(1) [OF _ k(3) PDX_lt PDX_lt] assms(3) Cons by simp
    have "kmem_inv ?t ks"
    proof -
      have dir: "pgdir mod 4096 = 0" "pgdir \<notin> set ks" using pt_inv_dir [OF assms(3)] Cons by auto
      have "kmem_inv (kalloced s) ks" using assms(2) Cons by (simp add: kmem_inv_kalloced)
      from kmem_inv_owner_writes [OF this k(3,2), of "memset (mem s) k 0 PGSIZE"]
      have "kmem_inv ((kalloced s)\<lparr>mem := memset (mem s) k 0 PGSIZE\<rparr>) ks"
        by (simp add: same_outside_memset)
      from kmem_inv_owner_writes [OF this dir, of ?m] show ?thesis
        using PDX_lt [of va]
        by (simp add: with_table_def same_outside_store32_at entry_offset)
    qed
    with False assms Cons k entry show ?thesis
      by (intro found [of ?t ks])
        (simp_all add: walkpgdir_allocates new_entry pt_inv_with_table lookup_with_table PDX_lt)
  qed
qed

lemma PGROUNDDOWN_aligned: "va mod 4096 = 0 \<Longrightarrow> PGROUNDDOWN va = va"
  by (simp add: PGROUNDDOWN_def mask_off_low minus_mod_eq_div_mult [symmetric])

lemma PGROUNDDOWN_last: "va mod 4096 = 0 \<Longrightarrow> PGROUNDDOWN (va + 4096 - 1) = va"
proof -
  assume a: "va mod 4096 = 0"
  then obtain q where q: "unat va = 4096 * q" "q < 1048576" by (rule aligned_unat)
  have "va + 4096 - 1 = va + 4095" by simp
  with q have "unat (va + 4096 - 1) = 4096 * q + 4095" by (simp add: unat_word_ariths)
  with q have "unat (PGROUNDDOWN (va + 4096 - 1)) = unat va" by (simp only: unat_PGROUNDDOWN) simp
  then show ?thesis by (simp only: word_unat_eq_iff)
qed

lemma kmem_inv_write_entry:
  assumes "kmem_inv t xs" "pt_inv e (mem t) pgdir xs" "present (dir_entry (mem t) pgdir (PDX va))"
  shows "kmem_inv (t\<lparr>mem := store32 (mem t) (table_of (dir_entry (mem t) pgdir (PDX va)) + 4 * PTX va) w\<rparr>) xs"
  using pt_inv_table [OF assms(2) PDX_lt assms(3)] write_entry(3) [OF assms(2,3) refl]
  by (intro kmem_inv_owner_writes [OF assms(1)])

lemma mappages_one:
  "va mod 4096 = 0 \<Longrightarrow> mappages pgdir va PGSIZE pa perm = mappages_loop (Suc (2 ^ 20)) pgdir va va pa perm"
  unfolding mappages_def by (simp only: PGROUNDDOWN_aligned PGROUNDDOWN_last)

lemma entry_nonzero:
  assumes "pt_inv e m pgdir xs" "unat i < 1024" "present (dir_entry m pgdir i)" "unat j < 1024"
  shows "table_of (dir_entry m pgdir i) + 4 * j \<noteq> 0"
proof
  let ?T = "table_of (dir_entry m pgdir i)"
  assume zero: "?T + 4 * j = 0"
  have "page_ok e ?T" using assms by (simp add: pt_inv_def)
  then have T: "?T mod 4096 = 0" "?T \<noteq> 0" by (simp add: page_ok_def, rule page_ok_nonzero)
  have "unat (?T + 4 * j) div 4096 = unat ?T div 4096"
    using T(1) assms(4) by (intro page_offset_div) (simp_all add: entry_offset)
  moreover obtain q where q: "unat ?T = 4096 * q" using aligned_unat [OF T(1)] by blast
  ultimately have "q = 0" unfolding zero by simp
  with q T(2) show False by (simp add: word_unat_eq_iff)
qed

lemma mappages_page:
  assumes "kmem_ready s" "kmem_inv s xs" "pt_inv (kend s) (mem s) pgdir xs"
    and va: "va mod 4096 = 0" "lookup (mem s) pgdir va = None"
  shows "\<exists>r t xs'. mappages pgdir va PGSIZE pa perm s env = Ok r t env \<and> kmem_inv t xs' \<and>
     pt_inv (kend s) (mem t) pgdir xs' \<and>
     (r = -1 \<and> xs = [] \<and> (\<forall>va'. lookup (mem t) pgdir va' = lookup (mem s) pgdir va') \<or>
      r = 0 \<and> (\<forall>va'. lookup (mem t) pgdir va' =
        (if PGROUNDDOWN va' = va then Some (pa OR perm OR PTE_P) else lookup (mem s) pgdir va')))"
  using assms(1-3)
proof (cases rule: walkpgdir_alloc [where va = va and env = env])
  case (fail t)
  then show ?thesis using assms
    by (intro exI [of _ "-1"] exI [of _ t] exI [of _ "[]"])
       (simp only: mappages_one mappages_loop.simps, simp add: kmonad)
next
  case (found t xs')
  let ?pte = "table_of (dir_entry (mem t) pgdir (PDX va)) + 4 * PTX va"
  let ?u = "t\<lparr>mem := store32 (mem t) ?pte (pa OR perm OR PTE_P)\<rparr>"
  have free: "\<not> present (load32 (mem t) ?pte)"
    using va(2) found(2,7) by (auto simp: lookup_def Let_def split: if_splits)
  have nz: "?pte \<noteq> 0" by (rule entry_nonzero [OF found(6) PDX_lt found(2) PTX_lt])
  have "mappages pgdir va PGSIZE pa perm s env = Ok 0 ?u env"
    using found(1) free nz va(1)
    by (simp only: mappages_one mappages_loop.simps) (simp add: kmonad present_def)
  moreover have "kmem_inv ?u xs'" using found by (intro kmem_inv_write_entry)
  moreover have "pt_inv (kend s) (mem ?u) pgdir xs'"
    using write_entry(1) [OF found(6,2) refl] found(5) by simp
  moreover have "lookup (mem ?u) pgdir va' =
      (if PGROUNDDOWN va' = va then Some (pa OR perm OR PTE_P) else lookup (mem s) pgdir va')" for va'
    using write_entry(2) [OF found(6,2) refl] found(7) va(1) by (simp add: PGROUNDDOWN_aligned)
  ultimately show ?thesis by blast
qed

section \<open>Properties\<close>

text \<open>
  C8.  Mapping a page maps that page and nothing else: on a well-formed page table in which
  \<open>va\<close> is not mapped, \<open>mappages\<close> for one page returns 0 with \<open>va\<close> translated to \<open>pa\<close> with
  the given permissions and every other address translated as before, or returns -1, when a
  page table was needed and memory is out, with every address translated as before; the page
  table stays well-formed and its pages stay apart from the free ones.
\<close>

theorem mappages_maps:
  assumes "kmem_ready s" "kmem_inv s xs" "pt_inv (kend s) (mem s) pgdir xs"
    and "va mod 4096 = 0" "lookup (mem s) pgdir va = None"
  shows "\<exists>r t xs'. mappages pgdir va PGSIZE pa perm s env = Ok r t env \<and> kmem_inv t xs' \<and>
     pt_inv (kend s) (mem t) pgdir xs' \<and>
     (r = -1 \<and> xs = [] \<and> (\<forall>va'. lookup (mem t) pgdir va' = lookup (mem s) pgdir va') \<or>
      r = 0 \<and> (\<forall>va'. lookup (mem t) pgdir va' =
        (if PGROUNDDOWN va' = va then Some (pa OR perm OR PTE_P) else lookup (mem s) pgdir va')))"
  using assms by (rule mappages_page)

lemma machine_empty_table:
  "pt_inv (kend machine) (mem machine) 0x80402000 [0x80400000, 0x80401000]"
  "lookup (mem machine) 0x80402000 va = None"
proof -
  have "same_outside 0x80400000 (\<lambda>_. 0) (mem machine)"
    by (simp add: machine_defs same_outside_store32)
  then have "dir_entry (mem machine) 0x80402000 i = 0" if "unat i < 1024" for i
    using load32_other_page [of "0x80400000" "\<lambda>_. 0" "mem machine" "0x80402000" i] that
    by (simp add: dir_entry_def load32_def)
  then show "pt_inv (kend machine) (mem machine) 0x80402000 [0x80400000, 0x80401000]"
    "lookup (mem machine) 0x80402000 va = None"
    by (auto simp: pt_inv_def lookup_def PDX_lt page_ok_def V2P_def machine_defs)
qed

theorem mappages_maps_witness:
  "\<exists>r t. mappages 0x80402000 0x3000 PGSIZE 0x400000 PTE_W machine [] = Ok r t [] \<and> r = 0 \<and>
     lookup (mem t) 0x80402000 0x3123 = Some 0x400003 \<and> lookup (mem t) 0x80402000 0x4000 = None"
proof -
  have "PGROUNDDOWN 0x3123 = 0x3000" "PGROUNDDOWN 0x4000 = 0x4000" by (simp_all add: PGROUNDDOWN_def)
  then show ?thesis
    using mappages_maps [OF machine_kmem machine_empty_table(1) _ machine_empty_table(2),
        of "0x3000" "0x400000" PTE_W "[]"] machine_empty_table(2)
    by auto
qed

end
