(* ===== verification/Sched.thy ===== *)
theory Sched
  imports Vm
begin

text \<open>
  The scheduler of \<open>proc.c\<close> and \<open>sdh.h\<close>: the pseudo random generator, the five policies, the
  loop of \<open>scheduler()\<close> and the system calls that read and set the policy.  A policy is a
  function pointer in the source; here it is a name that \<open>ready_process\<close> calls.  The table
  \<open>schedulerFunction\<close> has five entries: reading past it gives a pointer of which nothing is
  known, \<open>None\<close>, and calling that is a fault.  The static variables of the policies are part
  of the state.

  The contract of a policy is the locale \<open>sched_policy\<close>; each of the five is an
  interpretation, and the lemmas about a scheduling round are proved once from it.
\<close>

section \<open>State\<close>

datatype policy = DefaultScheduler | PriorityScheduler | FcfsScheduler | RrScheduler | SmlScheduler

record sched_t =
  z1 :: cint
  z2 :: cint
  z3 :: cint
  z4 :: cint
  rr_idx :: nat
  schedSelected :: cint
  ready_process :: "policy option"

record sched_state = vm_state +
  schd :: sched_t

section \<open>The code\<close>

text \<open>
  One of the four generators of \<open>random\<close>.  The masks are constants of 64 bit type, the result
  is stored in 32 bits, so the bits above do not matter; \<open>>>\<close> on an int keeps the sign.
\<close>

definition lfsr :: "nat \<Rightarrow> nat \<Rightarrow> uint \<Rightarrow> nat \<Rightarrow> cint \<Rightarrow> cint" where
  "lfsr l1 r m l2 z = push_bit l2 (z AND m) XOR signed_drop_bit r (push_bit l1 z XOR z)"

text \<open>The C remainder has the sign of its first operand.\<close>

definition c_rem :: "int \<Rightarrow> int \<Rightarrow> int" where
  "c_rem a b = sgn a * (\<bar>a\<bar> mod \<bar>b\<bar>)"

definition random :: "cint \<Rightarrow> ('a sched_state_scheme, cint) K" where
  "random mx =
     (if sint mx \<le> 0 then ret 1 else
      thenK (block
        [modify (\<lambda>s. s\<lparr>schd := (schd s)\<lparr>z1 := lfsr 6 13 4294967294 18 (z1 (schd s))\<rparr>\<rparr>),
         modify (\<lambda>s. s\<lparr>schd := (schd s)\<lparr>z2 := lfsr 2 27 4294967288 2 (z2 (schd s))\<rparr>\<rparr>),
         modify (\<lambda>s. s\<lparr>schd := (schd s)\<lparr>z3 := lfsr 13 21 4294967280 7 (z3 (schd s))\<rparr>\<rparr>),
         modify (\<lambda>s. s\<lparr>schd := (schd s)\<lparr>z4 := lfsr 3 12 4294967168 13 (z4 (schd s))\<rparr>\<rparr>)]) (
      bindK (gets (\<lambda>s. z1 (schd s) XOR z2 (schd s) XOR z3 (schd s) XOR z4 (schd s))) (\<lambda>z.
      let rand = c_rem (sint z) (sint mx) in
      ret (word_of_int (if rand < 0 then rand * -1 else rand)))))"

definition runnable :: "proc \<Rightarrow> bool" where
  "runnable p \<longleftrightarrow> p_state p = RUNNABLE"

definition defaultScheduler :: "('a sched_state_scheme, nat option) K" where
  "defaultScheduler =
     bindK (random 64) (\<lambda>rnd.
     gets (\<lambda>s. find (\<lambda>p. runnable (ptable s ! p)) (map (\<lambda>i. (nat (sint rnd) + i) mod NPROC) [0..<NPROC])))"

text \<open>The loop that \<open>priorityScheduler\<close> and \<open>fcfsScheduler\<close> share, with their comparison.\<close>

definition pick :: "(proc \<Rightarrow> proc \<Rightarrow> bool) \<Rightarrow> proc list \<Rightarrow> nat option \<Rightarrow> nat \<Rightarrow> nat option" where
  "pick better tab res p =
     (if runnable (tab ! p) then
        (case res of Some r \<Rightarrow> if better (tab ! p) (tab ! r) then Some p else res
                   | None \<Rightarrow> Some p)
      else res)"

definition priorityScheduler :: "('a sched_state_scheme, nat option) K" where
  "priorityScheduler =
     gets (\<lambda>s. foldl (pick (\<lambda>p r. p_priority p <s p_priority r) (ptable s)) None [0..<NPROC])"

definition fcfsScheduler :: "('a sched_state_scheme, nat option) K" where
  "fcfsScheduler =
     gets (\<lambda>s. foldl (pick (\<lambda>p r. p_ctime p < p_ctime r) (ptable s)) None [0..<NPROC])"

text \<open>The do-while loop of \<open>rrScheduler\<close>: it ends when \<open>idx\<close> comes back to \<open>i\<close>, after \<open>NPROC\<close> rounds.\<close>

fun rr_loop :: "nat \<Rightarrow> nat \<Rightarrow> ('a sched_state_scheme, nat option) K" where
  "rr_loop 0 i = (\<lambda>s env. Spin)"
| "rr_loop (Suc n) i =
     thenK (modify (\<lambda>s. s\<lparr>schd := (schd s)\<lparr>rr_idx := (rr_idx (schd s) + 1) mod NPROC\<rparr>\<rparr>)) (
     bindK (gets (\<lambda>s. (rr_idx (schd s), runnable (ptable s ! rr_idx (schd s))))) (\<lambda>(idx, ok).
     if ok then ret (Some idx) else if i \<noteq> idx then rr_loop n i else ret None))"

definition rrScheduler :: "('a sched_state_scheme, nat option) K" where
  "rrScheduler = bindK (gets (\<lambda>s. rr_idx (schd s))) (\<lambda>i. rr_loop NPROC i)"

definition MLQ_TIME_SLICES :: "int list" where
  "MLQ_TIME_SLICES = [7, 14, 0]"

text \<open>The level the inner loop of \<open>smlScheduler\<close> files a process under.\<close>

fun sml_level :: "nat \<Rightarrow> nat \<Rightarrow> cint \<Rightarrow> nat" where
  "sml_level 0 i prio = i"
| "sml_level (Suc n) i prio =
     (if i < 2 then if sint prio \<le> MLQ_TIME_SLICES ! i then i else sml_level n (i + 1) prio
      else i)"

definition sml_fill :: "proc list \<Rightarrow> nat list list \<Rightarrow> nat \<Rightarrow> nat list list" where
  "sml_fill tab MQ p =
     (if runnable (tab ! p) then
        let l = sml_level 3 0 (p_priority (tab ! p)) in MQ[l := MQ ! l @ [p]]
      else MQ)"

fun sml_choose :: "nat list list \<Rightarrow> ('a sched_state_scheme, nat option) K" where
  "sml_choose [] = ret None"
| "sml_choose (q # qs) =
     (if length q > 0 then bindK (random (of_nat (length q))) (\<lambda>r. ret (Some (q ! nat (sint r))))
      else sml_choose qs)"

definition smlScheduler :: "('a sched_state_scheme, nat option) K" where
  "smlScheduler =
     bindK (gets (\<lambda>s. foldl (sml_fill (ptable s)) [[], [], []] [0..<NPROC])) sml_choose"

definition schedulerFunction :: "policy list" where
  "schedulerFunction = [DefaultScheduler, PriorityScheduler, FcfsScheduler, RrScheduler, SmlScheduler]"

definition schedulerName :: "string list" where
  "schedulerName = [''DEFAULT'', ''PRIORITY'', ''FCFS'', ''CFS'', ''SML'']"

definition call_policy :: "policy option \<Rightarrow> ('a sched_state_scheme, nat option) K" where
  "call_policy f = (case f of
       None \<Rightarrow> panic ''trap''
     | Some DefaultScheduler \<Rightarrow> defaultScheduler
     | Some PriorityScheduler \<Rightarrow> priorityScheduler
     | Some FcfsScheduler \<Rightarrow> fcfsScheduler
     | Some RrScheduler \<Rightarrow> rrScheduler
     | Some SmlScheduler \<Rightarrow> smlScheduler)"

text \<open>
  One round of the loop of \<open>scheduler()\<close> on CPU \<open>c\<close>.  \<open>swtch\<close> runs the process until it
  switches back: that is one move of the environment.
\<close>

definition scheduler_round :: "nat \<Rightarrow> ('a sched_state_scheme, unit) K" where
  "scheduler_round c =
     thenK (block [sti, acquire PtableLock, acquire SchedulerLock]) (
     bindK (gets (\<lambda>s. ready_process (schd s))) (\<lambda>f.
     bindK (call_policy f) (\<lambda>p.
     block
       [release SchedulerLock,
        (case p of None \<Rightarrow> ret ()
         | Some i \<Rightarrow> block
            [modify (set_cpu c (cproc_update (\<lambda>_. Some i))),
             switchuvm (Some i),
             modify (set_proc i (\<lambda>x. x\<lparr>p_state := RUNNING\<rparr>)),
             env_step Asleep,
             switchkvm,
             modify (set_cpu c (cproc_update (\<lambda>_. None)))]),
        release PtableLock])))"

text \<open>\<open>scheduler()\<close> does not return; \<open>scheduler n\<close> is its first \<open>n\<close> rounds.\<close>

definition scheduler :: "nat \<Rightarrow> ('a sched_state_scheme, unit) K" where
  "scheduler n =
     bindK mycpu (\<lambda>c.
     thenK (modify (set_cpu c (cproc_update (\<lambda>_. None)))) (
     bindK (repeatK n (scheduler_round c)) (\<lambda>_. ret ())))"

definition getscheduler :: "('a sched_state_scheme, cint) K" where
  "getscheduler =
     thenK (acquire SchedulerLock) (
     bindK (gets (\<lambda>s. schedSelected (schd s))) (\<lambda>sid.
     thenK (release SchedulerLock) (ret sid)))"

definition setscheduler :: "cint \<Rightarrow> ('a sched_state_scheme, cint) K" where
  "setscheduler sid =
     (let mx = int (length schedulerName) in
      if sint sid < 0 \<or> sint sid > mx then ret (-1)
      else thenK (block
        [acquire SchedulerLock,
         modify (\<lambda>s. s\<lparr>schd := (schd s)\<lparr>ready_process :=
            (if nat (sint sid) < length schedulerFunction then Some (schedulerFunction ! nat (sint sid))
             else None)\<rparr>\<rparr>),
         modify (\<lambda>s. s\<lparr>schd := (schd s)\<lparr>schedSelected := sid\<rparr>\<rparr>),
         release SchedulerLock])
      (ret sid))"

section \<open>Frame rules\<close>

lemma schd_frame [simp]:
  "schd (acquired l s) = schd s"
  "schd (noted s) = schd s"
  by (simp_all add: acquired_def pushed_def noted_def set_cpu_def set_lock_def)

lemma schd_commute [simp]:
  "schd_update u0 (acquired l s) = acquired l (schd_update u0 s)"
  "schd_update u0 (noted s) = noted (schd_update u0 s)"
  by (simp_all add: acquired_def pushed_def noted_def set_cpu_def set_lock_def cur_def)

lemma schd_context [simp]:
  "cur (schd_update u0 s) = cur s"
  "cpu_ok (schd_update u0 s) = cpu_ok s"
  "free_lock l (schd_update u0 s) = free_lock l s"
  "held_here l (schd_update u0 s) = held_here l s"
  by (simp_all add: cur_def cpu_ok_def free_lock_def held_here_def)

lemma schd_ops [simp]:
  "schd (set_proc i g s) = schd s"
  "schd (slept p c s) = schd s"
  "schd (woken p s) = schd s"
  "schd (settled s) = schd s"
  "schd (kfreed a s) = schd s"
  "schd (kalloced s) = schd s"
  "schd (set_cpu i h s) = schd s"
  by (simp_all add: set_proc_def slept_def woken_def settled_def kfreed_def kalloced_def set_cpu_def)

lemma schd_kept [simp]:
  "curproc (schd_update u0 s) = curproc s"
  "proc_ctx p (schd_update u0 s) = proc_ctx p s"
  "kmem_ready (schd_update u0 s) = kmem_ready s"
  "kmem_inv (schd_update u0 s) xs = kmem_inv s xs"
  by (simp_all add: curproc_def proc_ctx_def kmem_ready_def kmem_inv_def cur_def cpu_ok_def free_lock_def)

text \<open>The index ranges of the table stay folded.\<close>

declare upt_rec_numeral [simp del]

section \<open>The generator\<close>

lemma c_rem_bound: "0 < b \<Longrightarrow> \<bar>c_rem a b\<bar> < b"
  by (simp add: c_rem_def abs_mult abs_sgn_eq)

lemma sint_word_of_int: "0 \<le> k \<Longrightarrow> k < 2147483648 \<Longrightarrow> sint (word_of_int k :: cint) = k"
  by (simp add: signed_of_int signed_take_bit_int_eq_self)

lemma random_eval:
  assumes "0 < sint mx"
  obtains r x where "random mx s env = Ok r (s\<lparr>schd := x\<rparr>) env" "0 \<le> sint r" "sint r < sint mx"
    "rr_idx x = rr_idx (schd s)" "schedSelected x = schedSelected (schd s)"
    "ready_process x = ready_process (schd s)"
proof -
  define x where "x = (schd s)\<lparr>z1 := lfsr 6 13 4294967294 18 (z1 (schd s)),
    z2 := lfsr 2 27 4294967288 2 (z2 (schd s)), z3 := lfsr 13 21 4294967280 7 (z3 (schd s)),
    z4 := lfsr 3 12 4294967168 13 (z4 (schd s))\<rparr>"
  define k where "k = \<bar>c_rem (sint (z1 x XOR z2 x XOR z3 x XOR z4 x)) (sint mx)\<bar>"
  have "random mx s env = Ok (word_of_int k) (s\<lparr>schd := x\<rparr>) env"
    using assms by (auto simp: random_def kmonad x_def k_def Let_def)
  moreover have "k < sint mx" using c_rem_bound [OF assms] by (simp add: k_def)
  moreover have "sint mx < 2147483648" using sint_lt [of mx] by simp
  ultimately show thesis
    by (intro that [of "word_of_int k" x]) (simp_all add: sint_word_of_int k_def x_def)
qed

lemma random_ex:
  "0 < sint mx \<Longrightarrow> \<exists>r x. random mx s env = Ok r (s\<lparr>schd := x\<rparr>) env \<and> 0 \<le> sint r \<and> sint r < sint mx \<and>
     rr_idx x = rr_idx (schd s)"
  by (rule random_eval) blast+

section \<open>The contract of a policy\<close>

text \<open>
  A policy returns, changes nothing but the static variables of the scheduler, and chooses a
  runnable process whenever there is one.
\<close>

locale sched_policy =
  fixes select :: "('s, nat option) K"
    and table :: "'s \<Rightarrow> proc list"
    and fit :: "'s \<Rightarrow> bool"
    and upd :: "'x \<Rightarrow> 's \<Rightarrow> 's"
  assumes returns: "fit s \<Longrightarrow> \<exists>r x. select s env = Ok r (upd x s) env \<and> fit (upd x s)"
    and sound: "fit s \<Longrightarrow> select s env = Ok (Some p) t env' \<Longrightarrow> p < length (table s) \<and> runnable (table s ! p)"
    and complete: "fit s \<Longrightarrow> select s env = Ok None t env' \<Longrightarrow> \<forall>q\<in>set (table s). \<not> runnable q"
begin

lemma chooses_runnable:
  assumes "fit s" "p \<in> set (table s)" "runnable p"
  shows "\<exists>q x. select s env = Ok (Some q) (upd x s) env \<and> q < length (table s) \<and> runnable (table s ! q)"
proof -
  obtain r x where r: "select s env = Ok r (upd x s) env" using returns [OF assms(1)] by blast
  with assms complete [OF assms(1)] obtain q where "r = Some q" by (cases r) auto
  with r sound [OF assms(1)] show ?thesis by blast
qed

lemma contract:
  assumes "fit s"
  shows "\<exists>r x. select s env = Ok r (upd x s) env \<and> fit (upd x s) \<and>
    (case r of Some p \<Rightarrow> p < length (table s) \<and> runnable (table s ! p)
     | None \<Rightarrow> \<forall>p\<in>set (table s). \<not> runnable p)"
proof -
  obtain r x where r: "select s env = Ok r (upd x s) env" "fit (upd x s)"
    using returns [OF assms] by blast
  with sound [OF assms] complete [OF assms] show ?thesis
    by (intro exI [of _ r] exI [of _ x]) (auto split: option.split)
qed

lemma idle:
  assumes "fit s" "\<forall>p\<in>set (table s). \<not> runnable p"
  shows "\<exists>x. select s env = Ok None (upd x s) env"
proof -
  obtain r x where r: "select s env = Ok r (upd x s) env" using returns [OF assms(1)] by blast
  have "r = None"
  proof (rule ccontr)
    assume "r \<noteq> None"
    with r obtain q where "select s env = Ok (Some q) (upd x s) env" by auto
    from sound [OF assms(1) this] assms(2) show False by (auto dest: nth_mem)
  qed
  with r show ?thesis by blast
qed

end

definition sched_fit :: "'a sched_state_scheme \<Rightarrow> bool" where
  "sched_fit s \<longleftrightarrow> length (ptable s) = NPROC \<and> rr_idx (schd s) < NPROC"

section \<open>Scanning the table\<close>

lemma find_None:
  "find P xs = None \<longleftrightarrow> (\<forall>x\<in>set xs. \<not> P x)" "None = find P xs \<longleftrightarrow> (\<forall>x\<in>set xs. \<not> P x)"
  by (auto simp: find_None_iff find_None_iff2)

lemma find_Some_in: "find P xs = Some x \<Longrightarrow> x \<in> set xs \<and> P x"
  by (auto simp: find_Some_iff)

text \<open>Going round from any start visits every entry.\<close>

lemma rotate_all:
  assumes "0 < (n :: nat)"
  shows "(\<lambda>i. (r + i) mod n) ` {0..<n} = {0..<n}"
proof
  show "{0..<n} \<subseteq> (\<lambda>i. (r + i) mod n) ` {0..<n}"
  proof
    fix j assume j: "j \<in> {0..<n}"
    let ?i = "(j + n - r mod n) mod n"
    have "(r + ?i) mod n = (r mod n + (j + n - r mod n)) mod n"
      by (metis mod_add_left_eq mod_add_right_eq)
    also have "r mod n + (j + n - r mod n) = j + n" using mod_less_divisor [OF assms, of r] by linarith
    also have "(j + n) mod n = j" using j by simp
    finally show "j \<in> (\<lambda>i. (r + i) mod n) ` {0..<n}"
      using assms by (intro image_eqI [of _ _ ?i]) auto
  qed
qed (use assms in auto)

lemma default_eval:
  assumes "sched_fit s"
  obtains r x where "defaultScheduler s env =
      Ok (find (\<lambda>p. runnable (ptable s ! p)) (map (\<lambda>i. (r + i) mod NPROC) [0..<NPROC])) (s\<lparr>schd := x\<rparr>) env"
    "sched_fit (s\<lparr>schd := x\<rparr>)"
proof -
  obtain rnd x where "random 64 s env = Ok rnd (s\<lparr>schd := x\<rparr>) env" "rr_idx x = rr_idx (schd s)"
    by (rule random_eval [of 64 s env]) auto
  with assms show thesis
    by (intro that [of "nat (sint rnd)" x]) (simp_all add: defaultScheduler_def kmonad sched_fit_def)
qed

interpretation default: sched_policy defaultScheduler ptable sched_fit "\<lambda>x s. s\<lparr>schd := x\<rparr>"
proof (unfold_locales, goal_cases)
  case (1 s env)
  show ?case by (rule default_eval [OF 1, of env]) blast
next
  case (2 s env p t env')
  show ?case
    by (rule default_eval [OF 2(1), of env]) (use 2 in \<open>auto simp: sched_fit_def dest!: find_Some_in [OF sym]\<close>)
next
  case (3 s env t env')
  obtain r where "\<forall>q\<in>(\<lambda>i. (r + i) mod NPROC) ` {0..<NPROC}. \<not> runnable (ptable s ! q)"
    by (rule default_eval [OF 3(1), of env]) (use 3(2) in \<open>auto simp: find_None\<close>)
  then have "\<forall>q<NPROC. \<not> runnable (ptable s ! q)" by (simp only: rotate_all) simp
  with 3(1) show ?case by (auto simp: sched_fit_def in_set_conv_nth)
qed

section \<open>Round robin\<close>

text \<open>
  The loop is a search through the table in circular order, from the entry after \<open>i\<close> to \<open>i\<close>
  itself, and \<open>idx\<close> stays where the search ended.
\<close>

definition rr_order :: "nat \<Rightarrow> nat \<Rightarrow> nat list" where
  "rr_order i k = map (\<lambda>j. (i + 1 + j) mod NPROC) [k..<NPROC]"

lemma rr_order_step: "k < NPROC \<Longrightarrow> rr_order i k = (i + 1 + k) mod NPROC # rr_order i (Suc k)"
  unfolding rr_order_def by (simp only: upt_conv_Cons list.map)

lemma rr_last: "i < NPROC \<Longrightarrow> k < NPROC \<Longrightarrow> (i + 1 + k) mod NPROC = i \<longleftrightarrow> k = 63"
  by (cases "i + 1 + k < NPROC") (simp, simp add: mod_if, arith)

lemma rr_loop_search:
  assumes "i < NPROC" "k < NPROC" "n = NPROC - k" "rr_idx (schd s) = (i + k) mod NPROC"
  shows "rr_loop n i s env =
    (let r = find (\<lambda>p. runnable (ptable s ! p)) (rr_order i k)
     in Ok r (s\<lparr>schd := (schd s)\<lparr>rr_idx := (case r of Some p \<Rightarrow> p | None \<Rightarrow> i)\<rparr>\<rparr>) env)"
  using assms(2-)
proof (induction n arbitrary: k s)
  case (Suc n)
  let ?q = "(i + 1 + k) mod NPROC" let ?s = "s\<lparr>schd := (schd s)\<lparr>rr_idx := ?q\<rparr>\<rparr>"
  have q: "(rr_idx (schd s) + 1) mod NPROC = ?q" unfolding Suc.prems(3) by (simp add: mod_simps add.commute add.left_commute)
  show ?case
  proof (cases "runnable (ptable s ! ?q)")
    case True
    with Suc.prems(1) q show ?thesis by (simp add: kmonad rr_order_step)
  next
    case False
    show ?thesis
    proof (cases "k = 63")
      case True
      with assms(1) have "?q = i" using rr_last [of i k] by simp
      with False True q show ?thesis by (simp add: kmonad rr_order_step, simp add: rr_order_def)
    next
      case 2: False
      with Suc.prems have k: "Suc k < NPROC" "n = NPROC - Suc k" by auto
      have "?q \<noteq> i" using 2 assms(1) Suc.prems(1) rr_last [of i k] by simp
      with False q Suc.prems(1) Suc.IH [OF k, of ?s] show ?thesis
        by (simp add: kmonad rr_order_step Let_def)
    qed
  qed
qed simp

lemma rr_eval:
  assumes "sched_fit s" "i = rr_idx (schd s)"
  shows "rrScheduler s env =
    (let r = find (\<lambda>p. runnable (ptable s ! p)) (rr_order i 0)
     in Ok r (s\<lparr>schd := (schd s)\<lparr>rr_idx := (case r of Some p \<Rightarrow> p | None \<Rightarrow> i)\<rparr>\<rparr>) env)"
proof -
  have "rrScheduler s env = rr_loop NPROC i s env"
    using assms(2) by (simp only: rrScheduler_def bindK_def gets_def outcome.case)
  also have "\<dots> = (let r = find (\<lambda>p. runnable (ptable s ! p)) (rr_order i 0)
     in Ok r (s\<lparr>schd := (schd s)\<lparr>rr_idx := (case r of Some p \<Rightarrow> p | None \<Rightarrow> i)\<rparr>\<rparr>) env)"
    using assms by (intro rr_loop_search) (simp_all add: sched_fit_def)
  finally show ?thesis .
qed

lemma set_rr_order: "set (rr_order i 0) = {0..<NPROC}"
  using rotate_all [of NPROC "i + 1"] by (simp add: rr_order_def)

interpretation rr: sched_policy rrScheduler ptable sched_fit "\<lambda>x s. s\<lparr>schd := x\<rparr>"
proof (unfold_locales, goal_cases)
  case (1 s env)
  let ?r = "find (\<lambda>p. runnable (ptable s ! p)) (rr_order (rr_idx (schd s)) 0)"
  let ?x = "(schd s)\<lparr>rr_idx := (case ?r of Some p \<Rightarrow> p | None \<Rightarrow> rr_idx (schd s))\<rparr>"
  have "rr_idx ?x < NPROC"
    using 1 by (auto simp: sched_fit_def set_rr_order dest!: find_Some_in split: option.split)
  with 1 show ?case
    by (intro exI [of _ ?r] exI [of _ ?x]) (simp add: rr_eval Let_def, simp add: sched_fit_def)
next
  case (2 s env p t env')
  then show ?case
    by (auto simp: rr_eval Let_def sched_fit_def set_rr_order dest!: find_Some_in)
next
  case (3 s env t env')
  then have "\<forall>q<NPROC. \<not> runnable (ptable s ! q)"
    by (auto simp: rr_eval Let_def find_None set_rr_order)
  with 3(1) show ?case by (auto simp: sched_fit_def in_set_conv_nth)
qed

section \<open>The best of the runnable\<close>

text \<open>
  Picking with a comparison of keys finds the runnable process with the least key, the first
  of them in table order.
\<close>

definition least_key :: "(proc \<Rightarrow> 'k :: linorder) \<Rightarrow> proc list \<Rightarrow> nat list \<Rightarrow> nat option \<Rightarrow> bool" where
  "least_key key tab is r \<longleftrightarrow> (case r of
       None \<Rightarrow> \<forall>q\<in>set is. \<not> runnable (tab ! q)
     | Some p \<Rightarrow> p \<in> set is \<and> runnable (tab ! p) \<and>
         (\<forall>q\<in>set is. runnable (tab ! q) \<longrightarrow> key (tab ! p) < key (tab ! q) \<or>
            key (tab ! p) = key (tab ! q) \<and> p \<le> q))"

lemma pick_least:
  assumes "\<And>p r. better p r \<longleftrightarrow> key p < key r"
  shows "least_key key tab [0..<n] (foldl (pick better tab) None [0..<n])"
proof (induction n)
  case 0
  then show ?case by (simp add: least_key_def)
next
  case (Suc n)
  have step: "foldl (pick better tab) None [0..<Suc n] = pick better tab (foldl (pick better tab) None [0..<n]) n"
    by simp
  show ?case
  proof (cases "foldl (pick better tab) None [0..<n]")
    case None
    with Suc have "\<forall>q<n. \<not> runnable (tab ! q)" by (simp add: least_key_def)
    with None show ?thesis unfolding step by (auto simp: least_key_def pick_def less_Suc_eq)
  next
    case (Some a)
    with Suc have a: "a < n" "runnable (tab ! a)"
      "\<And>q. q < n \<Longrightarrow> runnable (tab ! q) \<Longrightarrow> key (tab ! a) < key (tab ! q) \<or> key (tab ! a) = key (tab ! q) \<and> a \<le> q"
      by (auto simp: least_key_def)
    show ?thesis
    proof (cases "runnable (tab ! n) \<and> key (tab ! n) < key (tab ! a)")
      case True
      have "key (tab ! n) < key (tab ! q)" if "q < n" "runnable (tab ! q)" for q
        using a(3) [OF that] True by auto
      with True Some show ?thesis unfolding step by (simp add: least_key_def pick_def assms less_Suc_eq)
    next
      case False
      with Some a show ?thesis unfolding step
        by (auto simp: least_key_def pick_def assms less_Suc_eq not_less)
    qed
  qed
qed

lemma priority_least:
  "\<exists>r. priorityScheduler s env = Ok r s env \<and> least_key (\<lambda>p. sint (p_priority p)) (ptable s) [0..<NPROC] r"
  using pick_least [of "\<lambda>p r. p_priority p <s p_priority r" "\<lambda>p. sint (p_priority p)" "ptable s" NPROC]
  by (simp add: priorityScheduler_def kmonad word_sless_alt)

lemma fcfs_least:
  "\<exists>r. fcfsScheduler s env = Ok r s env \<and> least_key p_ctime (ptable s) [0..<NPROC] r"
  using pick_least [of "\<lambda>p r. p_ctime p < p_ctime r" p_ctime "ptable s" NPROC]
  by (simp add: fcfsScheduler_def kmonad)

lemma least_key_Some:
  "least_key key tab is (Some p) \<Longrightarrow> p \<in> set is \<and> runnable (tab ! p)"
  "least_key key tab is None \<Longrightarrow> q \<in> set is \<Longrightarrow> \<not> runnable (tab ! q)"
  by (auto simp: least_key_def)

lemma schd_same: "\<exists>x. s = s\<lparr>schd := x\<rparr>"
  by (rule exI [of _ "schd s"]) simp

interpretation priority: sched_policy priorityScheduler ptable sched_fit "\<lambda>x s. s\<lparr>schd := x\<rparr>"
proof (unfold_locales, goal_cases)
  case (1 s env)
  then show ?case using priority_least [of s env] schd_same by metis
next
  case (2 s env p t env')
  then show ?case using priority_least [of s env] by (auto simp: sched_fit_def dest: least_key_Some)
next
  case (3 s env t env')
  then have "\<forall>q<NPROC. \<not> runnable (ptable s ! q)"
    using priority_least [of s env] by (auto dest: least_key_Some(2))
  with 3(1) show ?case by (auto simp: sched_fit_def in_set_conv_nth)
qed

interpretation fcfs: sched_policy fcfsScheduler ptable sched_fit "\<lambda>x s. s\<lparr>schd := x\<rparr>"
proof (unfold_locales, goal_cases)
  case (1 s env)
  then show ?case using fcfs_least [of s env] schd_same by metis
next
  case (2 s env p t env')
  then show ?case using fcfs_least [of s env] by (auto simp: sched_fit_def dest: least_key_Some)
next
  case (3 s env t env')
  then have "\<forall>q<NPROC. \<not> runnable (ptable s ! q)"
    using fcfs_least [of s env] by (auto dest: least_key_Some(2))
  with 3(1) show ?case by (auto simp: sched_fit_def in_set_conv_nth)
qed

section \<open>Multilevel queues\<close>

definition level :: "proc \<Rightarrow> nat" where
  "level p = (if sint (p_priority p) \<le> 7 then 0 else if sint (p_priority p) \<le> 14 then 1 else 2)"

lemma sml_level_eq: "sml_level 3 0 (p_priority p) = level p"
  by (simp add: eval_nat_numeral MLQ_TIME_SLICES_def level_def)

definition queue :: "proc list \<Rightarrow> nat list \<Rightarrow> nat \<Rightarrow> nat list" where
  "queue tab is l = filter (\<lambda>p. runnable (tab ! p) \<and> level (tab ! p) = l) is"

lemma sml_fill_eq:
  "sml_fill tab [a, b, c] p =
     [a @ queue tab [p] 0, b @ queue tab [p] 1, c @ queue tab [p] 2]"
proof -
  have "level (tab ! p) \<in> {0, 1, 2}" by (simp add: level_def)
  then show ?thesis unfolding sml_fill_def sml_level_eq Let_def queue_def by auto
qed

lemma queue_Cons: "queue tab (p # ps) l = queue tab [p] l @ queue tab ps l"
  by (simp add: queue_def)

lemma sml_queues:
  "foldl (sml_fill tab) [a, b, c] is = [a @ queue tab is 0, b @ queue tab is 1, c @ queue tab is 2]"
proof (induction "is" arbitrary: a b c)
  case (Cons p ps)
  show ?case by (simp add: sml_fill_eq Cons queue_Cons [of tab p ps])
qed (simp add: queue_def)

text \<open>
  The choice: a member of the first queue that is not empty.  A queue is shorter than
  \<open>2 ^ 31\<close>, so its length survives the conversion to int.
\<close>

lemma sml_choose_member:
  assumes "\<forall>q\<in>set qs. length q < 2147483648"
  shows "\<exists>r x. sml_choose qs s env = Ok r (s\<lparr>schd := x\<rparr>) env \<and> rr_idx x = rr_idx (schd s) \<and>
    (case r of None \<Rightarrow> \<forall>q\<in>set qs. q = []
     | Some p \<Rightarrow> \<exists>l<length qs. p \<in> set (qs ! l) \<and> (\<forall>k<l. qs ! k = []))"
  using assms
proof (induction qs)
  case Nil
  show ?case by (intro exI [of _ None] exI [of _ "schd s"]) (simp add: kmonad)
next
  case (Cons q qs)
  show ?case
  proof (cases "q = []")
    case True
    obtain r x where IH: "sml_choose qs s env = Ok r (s\<lparr>schd := x\<rparr>) env" "rr_idx x = rr_idx (schd s)"
      "case r of None \<Rightarrow> \<forall>q\<in>set qs. q = []
       | Some p \<Rightarrow> \<exists>l<length qs. p \<in> set (qs ! l) \<and> (\<forall>k<l. qs ! k = [])"
      using Cons by auto
    have "\<exists>l<length (q # qs). p \<in> set ((q # qs) ! l) \<and> (\<forall>k<l. (q # qs) ! k = [])" if "r = Some p" for p
    proof -
      from IH(3) that obtain l where "l < length qs" "p \<in> set (qs ! l)" "\<forall>k<l. qs ! k = []" by auto
      with True show ?thesis by (intro exI [of _ "Suc l"]) (auto simp: less_Suc_eq_0_disj)
    qed
    with True IH show ?thesis by (intro exI [of _ r] exI [of _ x]) (auto split: option.split)
  next
    case False
    have n: "sint (of_nat (length q) :: cint) = int (length q)"
      using Cons.prems sint_word_of_int [of "int (length q)"] by simp
    obtain r x where r: "random (of_nat (length q)) s env = Ok r (s\<lparr>schd := x\<rparr>) env" "0 \<le> sint r"
      "sint r < int (length q)" "rr_idx x = rr_idx (schd s)"
      using random_ex [of "of_nat (length q)" s env] False n by auto
    then have "q ! nat (sint r) \<in> set q" by (intro nth_mem) linarith
    with False r show ?thesis
      by (intro exI [of _ "Some (q ! nat (sint r))"] exI [of _ x])
         (simp add: kmonad, intro exI [of _ 0], simp)
  qed
qed

lemma sml_ex:
  "\<exists>r x. smlScheduler s env = Ok r (s\<lparr>schd := x\<rparr>) env \<and> rr_idx x = rr_idx (schd s) \<and>
     (case r of None \<Rightarrow> \<forall>q<NPROC. \<not> runnable (ptable s ! q)
      | Some p \<Rightarrow> p < NPROC \<and> runnable (ptable s ! p) \<and>
          (\<forall>q<NPROC. runnable (ptable s ! q) \<longrightarrow> level (ptable s ! p) \<le> level (ptable s ! q)))"
proof -
  let ?Q = "queue (ptable s) [0..<NPROC]" let ?qs = "[?Q 0, ?Q 1, ?Q 2]"
  have Q: "p \<in> set (?Q l) \<longleftrightarrow> p < NPROC \<and> runnable (ptable s ! p) \<and> level (ptable s ! p) = l" for p l
    by (auto simp: queue_def)
  have nth: "l < 3 \<Longrightarrow> ?qs ! l = ?Q l" for l by (auto simp: less_Suc_eq eval_nat_numeral)
  have lev: "level p < 3" for p by (simp add: level_def)
  have "length (?Q l) < 2147483648" for l
    unfolding queue_def by (rule le_less_trans [OF length_filter_le]) simp
  then have small: "\<forall>q\<in>set ?qs. length q < 2147483648" by simp
  obtain r x where r: "sml_choose ?qs s env = Ok r (s\<lparr>schd := x\<rparr>) env" "rr_idx x = rr_idx (schd s)"
    "case r of None \<Rightarrow> \<forall>q\<in>set ?qs. q = []
     | Some p \<Rightarrow> \<exists>l<length ?qs. p \<in> set (?qs ! l) \<and> (\<forall>k<l. ?qs ! k = [])"
    using sml_choose_member [OF small] by blast
  have e: "smlScheduler s env = Ok r (s\<lparr>schd := x\<rparr>) env"
    using r(1) by (simp add: smlScheduler_def kmonad sml_queues)
  have "case r of None \<Rightarrow> \<forall>q<NPROC. \<not> runnable (ptable s ! q)
      | Some p \<Rightarrow> p < NPROC \<and> runnable (ptable s ! p) \<and>
          (\<forall>q<NPROC. runnable (ptable s ! q) \<longrightarrow> level (ptable s ! p) \<le> level (ptable s ! q))"
  proof (cases r)
    case None
    with r(3) have "?Q l = []" if "l < 3" for l using that nth [of l] by (auto simp: less_Suc_eq eval_nat_numeral)
    then have "\<not> runnable (ptable s ! q)" if "q < NPROC" for q
      using Q [of q "level (ptable s ! q)"] lev [of "ptable s ! q"] that by auto
    with None show ?thesis by simp
  next
    case (Some p)
    with r(3) obtain l where l: "l < 3" "p \<in> set (?Q l)" "\<forall>k<l. ?Q k = []"
      using nth by (auto simp: eval_nat_numeral)
    have "level (ptable s ! p) \<le> level (ptable s ! q)" if "q < NPROC" "runnable (ptable s ! q)" for q
      using l Q [of q "level (ptable s ! q)"] Q [of p l] that by (metis empty_iff empty_set not_le)
    with l(2) Some Q show ?thesis by auto
  qed
  with e r(2) show ?thesis by blast
qed

interpretation sml: sched_policy smlScheduler ptable sched_fit "\<lambda>x s. s\<lparr>schd := x\<rparr>"
proof (unfold_locales, goal_cases)
  case (1 s env)
  obtain r x where "smlScheduler s env = Ok r (s\<lparr>schd := x\<rparr>) env" "rr_idx x = rr_idx (schd s)"
    using sml_ex [of s env] by blast
  with 1 show ?case by (intro exI [of _ r] exI [of _ x]) (simp add: sched_fit_def)
next
  case (2 s env p t env')
  then show ?case using sml_ex [of s env] by (auto simp: sched_fit_def)
next
  case (3 s env t env')
  then have "\<forall>q<NPROC. \<not> runnable (ptable s ! q)" using sml_ex [of s env] by auto
  with 3(1) show ?case by (auto simp: sched_fit_def in_set_conv_nth)
qed

lemma policy_contract:
  assumes "sched_fit s"
  shows "\<exists>r x. call_policy (Some f) s env = Ok r (s\<lparr>schd := x\<rparr>) env \<and> sched_fit (s\<lparr>schd := x\<rparr>) \<and>
    (case r of Some p \<Rightarrow> p < length (ptable s) \<and> p_state (ptable s ! p) = RUNNABLE
     | None \<Rightarrow> \<forall>p\<in>set (ptable s). p_state p \<noteq> RUNNABLE)"
  using default.contract [OF assms, of env] priority.contract [OF assms, of env]
    fcfs.contract [OF assms, of env] rr.contract [OF assms, of env] sml.contract [OF assms, of env]
  unfolding runnable_def by (cases f) (simp_all add: call_policy_def)

section \<open>Properties\<close>

text \<open>
  C22.  Every policy is work conserving and safe: whichever of the five is installed, it
  returns, changes nothing but the scheduler's static variables, selects a process that is
  runnable, and selects none only when no process is runnable.
\<close>

theorem policy_selects:
  assumes "sched_fit s"
  shows "\<exists>r x. call_policy (Some f) s env = Ok r (s\<lparr>schd := x\<rparr>) env \<and> sched_fit (s\<lparr>schd := x\<rparr>) \<and>
    (case r of Some p \<Rightarrow> p < length (ptable s) \<and> p_state (ptable s ! p) = RUNNABLE
     | None \<Rightarrow> \<forall>p\<in>set (ptable s). p_state p \<noteq> RUNNABLE)"
  using assms by (rule policy_contract)

text \<open>
  C23.  What the policies optimise.  The priority policy selects a runnable process with the
  numerically least priority and FCFS one with the earliest creation time, the first such in
  table order; the multilevel policy selects from the lowest level that has a runnable process.
\<close>

theorem policies_optimal:
  "(\<exists>r. priorityScheduler s env = Ok r s env \<and> least_key (\<lambda>p. sint (p_priority p)) (ptable s) [0..<NPROC] r) \<and>
   (\<exists>r. fcfsScheduler s env = Ok r s env \<and> least_key p_ctime (ptable s) [0..<NPROC] r) \<and>
   (\<exists>r x. smlScheduler s env = Ok r (s\<lparr>schd := x\<rparr>) env \<and>
     (case r of None \<Rightarrow> \<forall>q<NPROC. \<not> runnable (ptable s ! q)
      | Some p \<Rightarrow> p < NPROC \<and> runnable (ptable s ! p) \<and>
          (\<forall>q<NPROC. runnable (ptable s ! q) \<longrightarrow> level (ptable s ! p) \<le> level (ptable s ! q))))"
  using priority_least [of s env] fcfs_least [of s env] sml_ex [of s env] by blast

text \<open>
  C24.  Random numbers stay in range: for a positive \<open>max\<close> the result is at least 0 and less
  than \<open>max\<close>; otherwise it is 1 and the generators are not stepped.
\<close>

theorem random_range:
  "\<exists>r x. random mx s env = Ok r (s\<lparr>schd := x\<rparr>) env \<and>
     (if 0 < sint mx then 0 \<le> sint r \<and> sint r < sint mx else r = 1 \<and> x = schd s)"
proof (cases "0 < sint mx")
  case True
  with random_ex [OF True, of s env] show ?thesis by auto
next
  case False
  then show ?thesis by (intro exI [of _ 1] exI [of _ "schd s"]) (simp add: random_def kmonad)
qed

text \<open>
  The selections of successive calls of \<open>rrScheduler\<close>, with the process table \<open>tabs\<close> shows at
  each call; in between, everything but the scheduler's own variables may change.
\<close>

primrec rr_history :: "proc list list \<Rightarrow> 'a sched_state_scheme \<Rightarrow> nat option list" where
  "rr_history [] s = []"
| "rr_history (tab # tabs) s =
     (case rrScheduler (s\<lparr>ptable := tab\<rparr>) [] of Ok r t env \<Rightarrow> r # rr_history tabs t | _ \<Rightarrow> [])"

text \<open>How many entries come before \<open>p\<close> when the search starts after \<open>i\<close>.\<close>

definition rr_dist :: "nat \<Rightarrow> nat \<Rightarrow> nat" where
  "rr_dist i p = (p + 63 - i) mod NPROC"

lemma rr_order_nth: "j < NPROC \<Longrightarrow> rr_order i 0 ! j = (i + 1 + j) mod NPROC"
  by (simp add: rr_order_def)

lemma rr_dist_cases: "p < NPROC \<Longrightarrow> i < NPROC \<Longrightarrow> rr_dist i p = (if i < p then p - i - 1 else p + 63 - i)"
  by (simp add: rr_dist_def mod_if)

lemma rr_dist_self: "p < NPROC \<Longrightarrow> i < NPROC \<Longrightarrow> (i + 1 + rr_dist i p) mod NPROC = p"
  by (simp add: rr_dist_cases)

lemma rr_dist_next:
  assumes "p < NPROC" "i < NPROC" "j < rr_dist i p"
  shows "rr_dist ((i + 1 + j) mod NPROC) p < rr_dist i p"
proof (cases "i + 1 + j < NPROC")
  case True
  then have "(i + 1 + j) mod NPROC = i + 1 + j" by simp
  with True assms rr_dist_cases [OF assms(1,2)] rr_dist_cases [OF assms(1) True] show ?thesis
    by (auto split: if_splits)
next
  case False
  have "rr_dist i p < NPROC" by (simp add: rr_dist_def)
  with assms have lt: "i + 1 + j - NPROC < NPROC" by linarith
  have "(i + 1 + j) mod NPROC = (i + 1 + j - NPROC) mod NPROC" using False by (intro le_mod_geq) simp
  with lt have "(i + 1 + j) mod NPROC = i + 1 + j - NPROC" by simp
  with False assms rr_dist_cases [OF assms(1,2)] rr_dist_cases [OF assms(1) lt] show ?thesis
    by (auto split: if_splits)
qed

lemma rr_progress:
  assumes "sched_fit s" "p < NPROC" "runnable (ptable s ! p)"
  shows "\<exists>q x. rrScheduler s env = Ok (Some q) (s\<lparr>schd := x\<rparr>) env \<and> sched_fit (s\<lparr>schd := x\<rparr>) \<and>
    (q = p \<or> rr_dist (rr_idx x) p < rr_dist (rr_idx (schd s)) p)"
proof -
  let ?i = "rr_idx (schd s)" let ?f = "find (\<lambda>p. runnable (ptable s ! p)) (rr_order ?i 0)"
  have i: "?i < NPROC" "length (ptable s) = NPROC" using assms(1) by (simp_all add: sched_fit_def)
  have "?f \<noteq> None" using assms(2,3) by (auto simp: find_None set_rr_order)
  then obtain q where q: "?f = Some q" by blast
  then obtain j where j: "j < NPROC" "q = (?i + 1 + j) mod NPROC"
    "\<forall>k<j. \<not> runnable (ptable s ! ((?i + 1 + k) mod NPROC))"
    by (auto simp: find_Some_iff rr_order_def)
  have "\<not> rr_dist ?i p < j" using j(3) rr_dist_self [OF assms(2) i(1)] assms(3) by auto
  then have "q = p \<or> rr_dist q p < rr_dist ?i p"
    using j(2) rr_dist_self [OF assms(2) i(1)] rr_dist_next [OF assms(2) i(1), of j] by (cases "j = rr_dist ?i p") auto
  moreover have "q < NPROC" using j(2) by simp
  ultimately show ?thesis
    using rr_eval [OF assms(1) refl, of env] q i
    by (intro exI [of _ q] exI [of _ "(schd s)\<lparr>rr_idx := q\<rparr>"]) (simp add: Let_def sched_fit_def)
qed

lemma rr_reaches:
  assumes "rr_idx (schd s) < NPROC" "p < NPROC" "rr_dist (rr_idx (schd s)) p < length tabs"
    and "\<forall>tab\<in>set tabs. length tab = NPROC \<and> runnable (tab ! p)"
  shows "Some p \<in> set (rr_history tabs s)"
  using assms
proof (induction tabs arbitrary: s)
  case (Cons tab tabs)
  let ?s = "s\<lparr>ptable := tab\<rparr>"
  have "sched_fit ?s" "runnable (ptable ?s ! p)" using Cons.prems by (simp_all add: sched_fit_def)
  from rr_progress [OF this(1) Cons.prems(2) this(2), of "[]"] obtain q x where
    q: "rrScheduler ?s [] = Ok (Some q) (?s\<lparr>schd := x\<rparr>) []" "rr_idx x < NPROC"
      "q = p \<or> rr_dist (rr_idx x) p < rr_dist (rr_idx (schd s)) p"
    by (auto simp: sched_fit_def)
  show ?case
  proof (cases "q = p")
    case False
    with q Cons.prems have "Some p \<in> set (rr_history tabs (?s\<lparr>schd := x\<rparr>))"
      by (intro Cons.IH) auto
    with q show ?thesis by simp
  qed (simp add: q(1))
qed simp

text \<open>
  C7.  Round robin does not starve: over any \<open>NPROC\<close> successive selections, a process that is
  runnable at each of them is selected, whatever else happens to the table in between.
\<close>

theorem rr_no_starvation:
  assumes "sched_fit s" "p < NPROC" "length tabs = NPROC"
    and "\<forall>tab\<in>set tabs. length tab = NPROC \<and> p_state (tab ! p) = RUNNABLE"
  shows "Some p \<in> set (rr_history tabs s)"
proof (rule rr_reaches)
  show "rr_dist (rr_idx (schd s)) p < length tabs" using assms(3) by (simp add: rr_dist_def)
qed (use assms in \<open>auto simp: sched_fit_def runnable_def\<close>)

section \<open>A scheduling round\<close>

lemma cproc_commute:
  "cproc_update f (ncli_update g c) = ncli_update g (cproc_update f c)"
  "cproc_update f (intena_update h c) = intena_update h (cproc_update f c)"
  by (cases c, simp)+

lemma set_cpu_frame [simp]:
  "ptable (set_cpu i f s) = ptable s"
  by (simp add: set_cpu_def)

lemma set_cproc_acquired:
  assumes "cpu_ok s"
  shows "set_cpu (cur s) (cproc_update f) (acquired l s) = acquired l (set_cpu (cur s) (cproc_update f) s)"
  using assms
  by (simp add: acquired_def pushed_def noted_def kctx_normal cpu_ok_cur cproc_commute cong: if_cong)

lemma set_cproc_context [simp]:
  "cur (set_cpu i (cproc_update f) s) = cur s"
  "cpu_ok s \<Longrightarrow> cpu_ok (set_cpu (cur s) (cproc_update f) s)"
  "free_lock l (set_cpu i (cproc_update f) s) = free_lock l s"
proof -
  assume ok: "cpu_ok s"
  show "cpu_ok (set_cpu (cur s) (cproc_update f) s)"
    using cpu_ok_cur [OF ok]
    by (simp add: cpu_ok_def [of "set_cpu (cur s) (cproc_update f) s"] first_index_list_update)
       (use ok in \<open>simp add: cpu_ok_def\<close>)
qed (simp_all add: free_lock_def)

lemma switchuvm_eval:
  assumes "cpu_ok s" "p_kstack (ptable s ! p) \<noteq> 0" "p_pgdir (ptable s ! p) \<noteq> 0"
  shows "switchuvm (Some p) s env = Ok () (noted (s\<lparr>ts_esp0 := p_kstack (ptable s ! p) + KSTACKSIZE,
     cr3 := V2P (p_pgdir (ptable s ! p))\<rparr>)) env"
proof -
  have "(pushed s)\<lparr>ts_esp0 := a, cr3 := b\<rparr> = pushed (s\<lparr>ts_esp0 := a, cr3 := b\<rparr>)" for a b
    by (simp add: pushed_def noted_def set_cpu_def cur_def)
  with assms show ?thesis
    by (simp add: switchuvm_def kmonad pushcli_eval locks_pushed popcli_pushed)
qed

text \<open>\<open>idle_cpu s\<close>: the executing CPU is in its scheduler, between two rounds.\<close>

definition idle_cpu :: "'a sched_state_scheme \<Rightarrow> bool" where
  "idle_cpu s \<longleftrightarrow> cpu_ok s \<and> ncli (cpus s ! cur s) = 0 \<and> free_lock PtableLock s \<and> free_lock SchedulerLock s"

definition runs :: "nat \<Rightarrow> sched_t \<Rightarrow> 'a sched_state_scheme \<Rightarrow> 'a sched_state_scheme" where
  "runs p x s = set_proc p (\<lambda>q. q\<lparr>p_state := RUNNING\<rparr>)
     ((set_cpu (cur s) (cproc_update (\<lambda>_. Some p)) (s\<lparr>FL_IF := True, schd := x\<rparr>))
      \<lparr>ts_esp0 := p_kstack (ptable s ! p) + KSTACKSIZE, cr3 := V2P (p_pgdir (ptable s ! p))\<rparr>)"

lemma round_dispatch:
  assumes "idle_cpu s" "ready_process (schd s) = f"
    and "call_policy f (acquired SchedulerLock (acquired PtableLock (s\<lparr>FL_IF := True\<rparr>))) [] =
      Ok (Some p) ((acquired SchedulerLock (acquired PtableLock (s\<lparr>FL_IF := True\<rparr>)))\<lparr>schd := x\<rparr>) []"
    and "p_kstack (ptable s ! p) \<noteq> 0" "p_pgdir (ptable s ! p) \<noteq> 0"
  shows "scheduler_round (cur s) s [] = Asleep (acquired PtableLock (runs p x s))"
proof -
  let ?s = "s\<lparr>FL_IF := True\<rparr>"
  let ?t = "set_cpu (cur s) (cproc_update (\<lambda>_. Some p)) (?s\<lparr>schd := x\<rparr>)"
  have ok: "cpu_ok ?s" "free_lock PtableLock ?s" "free_lock SchedulerLock ?s"
    using assms(1) by (simp_all add: idle_cpu_def FL_IF_context)
  have t: "cpu_ok ?t" using ok set_cproc_context(2) [of "?s\<lparr>schd := x\<rparr>"] by simp
  have "switchuvm (Some p) (acquired PtableLock ?t) [] =
      Ok () (acquired PtableLock (?t\<lparr>ts_esp0 := p_kstack (ptable s ! p) + KSTACKSIZE,
        cr3 := V2P (p_pgdir (ptable s ! p))\<rparr>)) []"
    using t assms(4,5) by (simp add: switchuvm_eval)
  moreover have "set_cpu (cur s) (cproc_update (\<lambda>_. Some p)) (acquired PtableLock (?s\<lparr>schd := x\<rparr>)) =
      acquired PtableLock ?t"
    using ok set_cproc_acquired [of "?s\<lparr>schd := x\<rparr>"] by simp
  ultimately show ?thesis
    using ok t assms(2,3)
    by (simp add: scheduler_round_def kmonad sti_def env_step_def) (simp add: runs_def)
qed


lemma round_idle:
  assumes "idle_cpu s" "ready_process (schd s) = f"
    and "call_policy f (acquired SchedulerLock (acquired PtableLock (s\<lparr>FL_IF := True\<rparr>))) env =
      Ok None ((acquired SchedulerLock (acquired PtableLock (s\<lparr>FL_IF := True\<rparr>)))\<lparr>schd := x\<rparr>) env"
  shows "scheduler_round (cur s) s env = Ok () (noted (s\<lparr>FL_IF := True, schd := x\<rparr>)) env"
proof -
  let ?s = "s\<lparr>FL_IF := True\<rparr>"
  have ok: "cpu_ok ?s" "free_lock PtableLock ?s" "free_lock SchedulerLock ?s"
    using assms(1) by (simp_all add: idle_cpu_def FL_IF_context)
  with assms(2,3) show ?thesis by (simp add: scheduler_round_def kmonad sti_def)
qed

text \<open>
  C25.  A scheduling round dispatches correctly: with any policy installed, if some process is
  runnable the round switches to a runnable one, and at that moment the process is marked
  running, it is the process of this CPU, its address space is loaded, \<open>ptable.lock\<close> is held,
  \<open>schedulerlock\<close> is free and no other entry has changed; if none is runnable the round ends
  with the table unchanged and both locks free.
\<close>

theorem scheduler_round_dispatches:
  assumes "idle_cpu s" "sched_fit s" "ready_process (schd s) = Some f"
    and "\<forall>p\<in>set (ptable s). p_state p = RUNNABLE \<longrightarrow> p_kstack p \<noteq> 0 \<and> p_pgdir p \<noteq> 0"
  shows "(\<exists>p u. scheduler_round (cur s) s [] = Asleep u \<and> p_state (ptable s ! p) = RUNNABLE \<and>
      ptable u = (ptable s)[p := (ptable s ! p)\<lparr>p_state := RUNNING\<rparr>] \<and>
      curproc u = Some p \<and> cr3 u = V2P (p_pgdir (ptable s ! p)) \<and>
      held_here PtableLock u \<and> free_lock SchedulerLock u) \<or>
    (\<forall>p\<in>set (ptable s). p_state p \<noteq> RUNNABLE) \<and>
    (\<exists>u. scheduler_round (cur s) s [] = Ok () u [] \<and> ptable u = ptable s \<and>
      free_lock PtableLock u \<and> free_lock SchedulerLock u)"
proof -
  let ?a = "acquired SchedulerLock (acquired PtableLock (s\<lparr>FL_IF := True\<rparr>))"
  have fit: "sched_fit ?a" "ptable ?a = ptable s" using assms(2) by (simp_all add: sched_fit_def)
  obtain r x where r: "call_policy (Some f) ?a [] = Ok r (?a\<lparr>schd := x\<rparr>) []"
    "case r of Some p \<Rightarrow> p < length (ptable s) \<and> p_state (ptable s ! p) = RUNNABLE
     | None \<Rightarrow> \<forall>p\<in>set (ptable s). p_state p \<noteq> RUNNABLE"
    using policy_contract [OF fit(1), of f "[]"] unfolding fit(2) by blast
  have ok: "cpu_ok s" "cur s < length (cpus s)" "free_lock PtableLock s" "free_lock SchedulerLock s"
    using assms(1) cpu_ok_cur by (auto simp: idle_cpu_def)
  show ?thesis
  proof (cases r)
    case None
    with r(2) ok round_idle [OF assms(1,3), of "[]" x] r(1) show ?thesis
      by (simp add: FL_IF_context)
  next
    case (Some p)
    with r(2) have p: "p < length (ptable s)" "p_state (ptable s ! p) = RUNNABLE" by auto
    with assms(4) have "p_kstack (ptable s ! p) \<noteq> 0" "p_pgdir (ptable s ! p) \<noteq> 0" by auto
    with Some r(1) have "scheduler_round (cur s) s [] = Asleep (acquired PtableLock (runs p x s))"
      by (intro round_dispatch [OF assms(1,3)]) simp_all
    moreover have "curproc (runs p x s) = Some p"
      using ok(2) by (simp add: runs_def curproc_def set_proc_def cur_def set_cpu_def first_index_list_update)
    ultimately show ?thesis
      using p ok by (intro disjI1 exI [of _ p]) (simp add: runs_def FL_IF_context)
  qed
qed

text \<open>The machine with its scheduler; process 0 can be made runnable with its own stack and tables.\<close>

definition vm_machine :: vm_state where
  "vm_machine = proc_state.extend machine
     \<lparr>kpgdir = 0x80402000, kdata = 0x80108000, cr3 = 0x402000, ts_esp0 = 0\<rparr>"

definition sched_machine :: sched_state where
  "sched_machine = vm_state.extend vm_machine
     \<lparr>schd = \<lparr>z1 = 12345, z2 = 12345, z3 = 12345, z4 = 12345, rr_idx = 63, schedSelected = 0,
       ready_process = Some DefaultScheduler\<rparr>\<rparr>"

lemmas sched_machine_defs = sched_machine_def vm_machine_def machine_defs proc_state.defs vm_state.defs

definition ready_machine :: sched_state where
  "ready_machine = set_proc 0 (\<lambda>p. p\<lparr>p_state := RUNNABLE, p_kstack := 0x80403000, p_pgdir := 0x80404000\<rparr>)
     (sched_machine\<lparr>schd := (schd sched_machine)\<lparr>ready_process := Some RrScheduler\<rparr>\<rparr>)"

lemma ready_machine_table:
  "ptable ready_machine = init_proc\<lparr>p_state := RUNNABLE, p_kstack := 0x80403000, p_pgdir := 0x80404000\<rparr>
     # shell_proc # replicate 62 blank_proc"
  by (simp add: ready_machine_def set_proc_def sched_machine_defs)

lemma ready_machine_fit: "sched_fit ready_machine" "idle_cpu ready_machine" "sched_fit sched_machine"
  "cpu_ok sched_machine" "free_lock l sched_machine"
  by (simp_all add: sched_fit_def idle_cpu_def ready_machine_def set_proc_def cpu_ok_def cur_def
      free_lock_def sched_machine_defs)

theorem policy_selects_witness:
  "\<exists>p t. call_policy (Some SmlScheduler) ready_machine [] = Ok (Some p) t [] \<and>
     p_state (ptable ready_machine ! p) = RUNNABLE"
  using policy_selects [OF ready_machine_fit(1), of SmlScheduler "[]"]
  by (auto simp: ready_machine_table split: option.splits)

theorem policies_optimal_witness:
  "\<exists>r. priorityScheduler ready_machine [] = Ok r ready_machine [] \<and> r = Some 0"
proof -
  have "r = Some 0" if "least_key (\<lambda>p. sint (p_priority p)) (ptable ready_machine) [0..<NPROC] r" for r
  proof (cases r)
    case None
    with that have "\<not> runnable (ptable ready_machine ! 0)" by (simp add: least_key_def)
    then show ?thesis by (simp add: ready_machine_table runnable_def)
  next
    case (Some p)
    with that have p: "p < NPROC" "runnable (ptable ready_machine ! p)" by (auto simp: least_key_def)
    moreover have "ptable ready_machine ! Suc 0 = shell_proc" by (simp add: ready_machine_table)
    moreover have "ptable ready_machine ! Suc (Suc k) = blank_proc" if "k < 62" for k
      using that by (simp add: ready_machine_table)
    ultimately have "p = 0"
      by (cases p rule: nat.exhaust; cases "p - 1")
         (auto simp: runnable_def shell_proc_def blank_proc_def)
    with Some show ?thesis by simp
  qed
  with policies_optimal [of ready_machine "[]"] show ?thesis by blast
qed

theorem rr_no_starvation_witness:
  "Some 0 \<in> set (rr_history (replicate 64 (ptable ready_machine)) sched_machine)"
  by (rule rr_no_starvation) (simp_all add: ready_machine_fit, simp add: ready_machine_table)

theorem scheduler_round_dispatches_witness:
  "\<exists>p u. scheduler_round (cur ready_machine) ready_machine [] = Asleep u \<and> curproc u = Some p \<and>
     held_here PtableLock u"
proof -
  have "\<forall>p\<in>set (ptable ready_machine). p_state p = RUNNABLE \<longrightarrow> p_kstack p \<noteq> 0 \<and> p_pgdir p \<noteq> 0"
    by (simp add: ready_machine_table shell_proc_def blank_proc_def)
  moreover have "ready_process (schd ready_machine) = Some RrScheduler"
    by (simp add: ready_machine_def)
  moreover have "\<not> (\<forall>p\<in>set (ptable ready_machine). p_state p \<noteq> RUNNABLE)"
    by (simp add: ready_machine_table)
  ultimately show ?thesis
    using scheduler_round_dispatches [OF ready_machine_fit(2,1), of RrScheduler] by blast
qed



end
