(* ===== verification/Sema.thy ===== *)
theory Sema
  imports Sched
begin

text \<open>
  The counting semaphores of \<open>proc.c\<close>: \<open>sem_init\<close>, \<open>sem_destroy\<close>, \<open>sem_wait\<close>,
  \<open>sem_signal\<close>.  The 32 semaphores are a list; the lock of semaphore \<open>i\<close> is \<open>SemaLock i\<close>.
  The first operations that really block: a waiter goes round its loop once for every time
  it is resumed.
\<close>

section \<open>State\<close>

record semaphore =
  sem_value :: cint
  sem_active :: cint

abbreviation MAX_SEMA_NUM :: nat where "MAX_SEMA_NUM \<equiv> 32"

record sema_state = sched_state +
  sema :: "semaphore list"

section \<open>The code\<close>

definition set_sema :: "nat \<Rightarrow> (semaphore \<Rightarrow> semaphore) \<Rightarrow> 'a sema_state_scheme \<Rightarrow> 'a sema_state_scheme" where
  "set_sema i f s = s\<lparr>sema := (sema s)[i := f (sema s ! i)]\<rparr>"

definition sem_init :: "cint \<Rightarrow> cint \<Rightarrow> ('a sema_state_scheme, cint) K" where
  "sem_init sem value =
     (if 0 \<le> sint sem \<and> sint sem < 32 then
        let i = nat (sint sem) in
        thenK (acquire (SemaLock i)) (
        bindK (gets (\<lambda>s. sem_active (sema s ! i))) (\<lambda>a.
        thenK (whenK (a = 0) (block
          [modify (set_sema i (\<lambda>x. x\<lparr>sem_active := 1\<rparr>)),
           modify (set_sema i (\<lambda>x. x\<lparr>sem_value := value\<rparr>))])) (
        thenK (release (SemaLock i)) (ret 0))))
      else ret (-1))"

definition sem_destroy :: "cint \<Rightarrow> ('a sema_state_scheme, cint) K" where
  "sem_destroy sem =
     (if 0 \<le> sint sem \<and> sint sem < 32 then
        let i = nat (sint sem) in
        thenK (block
          [acquire (SemaLock i),
           modify (set_sema i (\<lambda>x. x\<lparr>sem_active := 0\<rparr>)),
           release (SemaLock i)]) (ret 0)
      else ret (-1))"

definition sem_wait :: "cint \<Rightarrow> cint \<Rightarrow> ('a sema_state_scheme, cint) K" where
  "sem_wait sem count =
     (if 0 \<le> sint sem \<and> sint sem < 32 then
        let i = nat (sint sem) in
        thenK (acquire (SemaLock i)) (
        bindK (gets (\<lambda>s. sem_value (sema s ! i))) (\<lambda>v.
        thenK (if count \<le>s v then modify (set_sema i (\<lambda>x. x\<lparr>sem_value := sem_value x - count\<rparr>))
               else block
                 [wait_while (\<lambda>s. sem_value (sema s ! i) <s count) (ChanSema i) (SemaLock i),
                  modify (set_sema i (\<lambda>x. x\<lparr>sem_value := sem_value x - count\<rparr>))]) (
        thenK (release (SemaLock i)) (ret 0))))
      else ret (-1))"

definition sem_signal :: "cint \<Rightarrow> cint \<Rightarrow> ('a sema_state_scheme, cint) K" where
  "sem_signal sem count =
     (if 0 \<le> sint sem \<and> sint sem < 32 then
        let i = nat (sint sem) in
        thenK (block
          [acquire (SemaLock i),
           modify (set_sema i (\<lambda>x. x\<lparr>sem_value := sem_value x + count\<rparr>)),
           wakeup (ChanSema i),
           release (SemaLock i)]) (ret 0)
      else ret (-1))"

section \<open>Frame rules\<close>

lemma sema_frame [simp]:
  "sema (acquired l s) = sema s"
  "sema (noted s) = sema s"
  by (simp_all add: acquired_def pushed_def noted_def set_cpu_def set_lock_def)

lemma sema_commute [simp]:
  "sema_update u0 (acquired l s) = acquired l (sema_update u0 s)"
  "sema_update u0 (noted s) = noted (sema_update u0 s)"
  by (simp_all add: acquired_def pushed_def noted_def set_cpu_def set_lock_def cur_def)

lemma sema_context [simp]:
  "cur (sema_update u0 s) = cur s"
  "cpu_ok (sema_update u0 s) = cpu_ok s"
  "free_lock l (sema_update u0 s) = free_lock l s"
  "held_here l (sema_update u0 s) = held_here l s"
  by (simp_all add: cur_def cpu_ok_def free_lock_def held_here_def)

lemma sema_ops [simp]:
  "sema (set_proc i g s) = sema s"
  "sema (slept p c s) = sema s"
  "sema (woken p s) = sema s"
  "sema (settled s) = sema s"
  "sema (kfreed a s) = sema s"
  "sema (kalloced s) = sema s"
  "sema (set_cpu i h s) = sema s"
  by (simp_all add: set_proc_def slept_def woken_def settled_def kfreed_def kalloced_def set_cpu_def)

lemma sema_kept [simp]:
  "curproc (sema_update u0 s) = curproc s"
  "proc_ctx p (sema_update u0 s) = proc_ctx p s"
  "kmem_ready (sema_update u0 s) = kmem_ready s"
  "kmem_inv (sema_update u0 s) xs = kmem_inv s xs"
  by (simp_all add: curproc_def proc_ctx_def kmem_ready_def kmem_inv_def cur_def cpu_ok_def free_lock_def)

lemma set_sema_simps [simp]:
  "sema (set_sema i f s) = (sema s)[i := f (sema s ! i)]" "ptable (set_sema i f s) = ptable s"
  "cpu_ok (set_sema i f s) = cpu_ok s" "free_lock l (set_sema i f s) = free_lock l s"
  "proc_ctx p (set_sema i f s) = proc_ctx p s"
  "set_sema i f (acquired l s) = acquired l (set_sema i f s)" "set_sema i f (noted s) = noted (set_sema i f s)"
  by (simp_all add: set_sema_def)

section \<open>What the operations do\<close>

lemma sem_signal_eval:
  assumes "cpu_ok s" "free_lock PtableLock s" "free_lock (SemaLock i) s"
    and "0 \<le> sint sem" "sint sem < 32" "i = nat (sint sem)"
  shows "sem_signal sem count s env =
    Ok 0 (noted ((set_sema i (\<lambda>x. x\<lparr>sem_value := sem_value x + count\<rparr>) s)
      \<lparr>ptable := map (wake (ChanSema i)) (ptable s)\<rparr>)) env"
  using assms by (simp add: sem_signal_def kmonad Let_def)

abbreviation (input) sem_wait_loop :: "nat \<Rightarrow> cint \<Rightarrow> ('a sema_state_scheme, unit) K" where
  "sem_wait_loop i count \<equiv> wait_while (\<lambda>s. sem_value (sema s ! i) <s count) (ChanSema i) (SemaLock i)"

section \<open>Properties\<close>


text \<open>A process that is resumed with the table, the semaphores and the locks as they were.\<close>

definition sema_machine :: sema_state where
  "sema_machine = sched_state.extend sched_machine
     \<lparr>sema = replicate 32 \<lparr>sem_value = 0, sem_active = 0\<rparr>\<rparr>"

lemmas sema_machine_defs = sema_machine_def sched_state.defs sched_machine_defs

lemma sema_machine_ctx: "proc_ctx 1 sema_machine" "free_lock l sema_machine"
  by (simp_all add: proc_ctx_def cpu_ok_def cur_def curproc_def free_lock_def sema_machine_defs)

lemma resume_unchanged: "resumes p c lk (\<lambda>_. True) (\<lambda>s. s)"
  unfolding resumes_def by (metis slept_simps(1,4))


text \<open>
  C27.  A signal reaches its waiters.  Let \<open>p\<close> have gone to sleep in \<open>sem_wait(sem, count)\<close> for
  want of tokens.  A \<open>sem_signal\<close> that another process runs adds its \<open>n\<close> tokens and makes \<open>p\<close>
  runnable; and whenever \<open>p\<close> is resumed with enough tokens there, its \<open>sem_wait\<close> takes them and returns.
\<close>

theorem sem_signal_releases:
  assumes s: "proc_ctx p s" "free_lock (SemaLock i) s" "0 \<le> sint sem" "sint sem < 32" "i = nat (sint sem)"
    and few: "sem_value (sema s ! i) <s count" "i < length (sema s)"
    and v: "cpu_ok v" "free_lock PtableLock v" "free_lock (SemaLock i) v"
      "ptable v = ptable (slept p (ChanSema i) s)" "sema v = sema s"
    and t: "f (acquired PtableLock (slept p (ChanSema i) s)) = acquired PtableLock t"
      "proc_ctx p t" "free_lock (SemaLock i) t" "count \<le>s sem_value (sema t ! i)" "i < length (sema t)"
  shows "sem_wait sem count s [] = Asleep (acquired PtableLock (slept p (ChanSema i) s)) \<and>
    (\<exists>u. sem_signal sem n v env = Ok 0 u env \<and> p_state (ptable u ! p) = RUNNABLE \<and>
      sem_value (sema u ! i) = sem_value (sema s ! i) + n) \<and>
    (\<exists>u. sem_wait sem count s [f] = Ok 0 u [] \<and> sem_value (sema u ! i) = sem_value (sema t ! i) - count)"
proof (intro conjI)
  have p: "p < length (ptable s)" "cpu_ok s" using s(1) by (simp_all add: proc_ctx_def)
  have lt: "\<not> count \<le>s sem_value (sema s ! i)" using few(1) by (simp add: word_sless_alt word_sle_eq)
  show "sem_wait sem count s [] = Asleep (acquired PtableLock (slept p (ChanSema i) s))"
    using s p few(1) lt
    by (simp add: sem_wait_def kmonad Let_def wait_while_sleeps)
  show "\<exists>u. sem_signal sem n v env = Ok 0 u env \<and> p_state (ptable u ! p) = RUNNABLE \<and>
      sem_value (sema u ! i) = sem_value (sema s ! i) + n"
    using sem_signal_eval [OF v(1-3) s(3-5), of n env] v(4,5) p few(2) by (simp add: wake_def)
  let ?t = "woken p (t\<lparr>FL_IF := FL_IF s\<rparr>)"
  have "sem_wait_loop i count (acquired (SemaLock i) s) [f] = sem_wait_loop i count (acquired (SemaLock i) ?t) []"
    using s(1,2) few(1) t(1-3) by (intro wait_while_resumed) simp_all
  also have "\<dots> = Ok () (acquired (SemaLock i) ?t) []"
    using t(4) by (intro wait_while_done) (simp add: woken_def word_sless_alt word_sle_eq)
  finally show "\<exists>u. sem_wait sem count s [f] = Ok 0 u [] \<and>
      sem_value (sema u ! i) = sem_value (sema t ! i) - count"
    using s(2-5) p lt t(2,3,5)
    by (simp add: sem_wait_def kmonad Let_def) (simp add: woken_def proc_ctx_def FL_IF_context)
qed

theorem sem_signal_releases_witness:
  "sem_wait 3 1 sema_machine [] = Asleep (acquired PtableLock (slept 1 (ChanSema 3) sema_machine)) \<and>
   (\<exists>u. sem_signal 3 1 (slept 1 (ChanSema 3) sema_machine) [] = Ok 0 u [] \<and> p_state (ptable u ! 1) = RUNNABLE) \<and>
   (\<exists>u. sem_wait 3 1 sema_machine
      [\<lambda>_. acquired PtableLock (set_sema 3 (\<lambda>x. x\<lparr>sem_value := 1\<rparr>) sema_machine)] = Ok 0 u [])"
proof -
  let ?t = "set_sema 3 (\<lambda>x. x\<lparr>sem_value := 1\<rparr>) sema_machine"
  have l: "length (sema sema_machine) = 32" and v: "sem_value (sema sema_machine ! 3) = 0"
    by (simp_all add: sema_machine_defs)
  have ok: "cpu_ok sema_machine" using sema_machine_ctx(1) by (rule proc_ctx_cpu_ok)
  show ?thesis
    using sem_signal_releases [OF sema_machine_ctx, of 3 3 1 "slept 1 (ChanSema 3) sema_machine"
        "\<lambda>_. acquired PtableLock ?t" ?t 1 "[]"] l v ok sema_machine_ctx
    by (auto simp: word_sless_alt word_sle_eq)
qed

text \<open>
  The operations do not look at \<open>active\<close>: initialising a semaphore in use is accepted, returns 0
  and leaves its value alone, and tokens can be taken from a semaphore that was never initialised.
\<close>

lemma sem_init_active:
  assumes "cpu_ok s" "free_lock (SemaLock i) s" "0 \<le> sint sem" "sint sem < 32" "i = nat (sint sem)"
    and "sem_active (sema s ! i) \<noteq> 0"
  shows "\<exists>u. sem_init sem value s env = Ok 0 u env \<and> sema u = sema s"
  using assms by (simp add: sem_init_def kmonad Let_def)

lemma sem_bad_index:
  assumes "sint sem < 0 \<or> 32 \<le> sint sem"
  shows "sem_init sem v s env = Ok (-1) s env" "sem_destroy sem s env = Ok (-1) s env"
    "sem_wait sem v s env = Ok (-1) s env" "sem_signal sem v s env = Ok (-1) s env"
  using assms by (auto simp: sem_init_def sem_destroy_def sem_wait_def sem_signal_def kmonad)

end
