(* ===== verification/Sleeplock.thy ===== *)
theory Sleeplock
  imports Sema
begin

text \<open>
  Sleep locks, \<open>sleeplock.c\<close>: the long-term locks of inodes and buffers.  A sleep lock is
  named by the object it is in; its spin lock and its sleep channel follow from the name.
\<close>

section \<open>State\<close>

datatype slid = InodeSl nat | BufSl nat

record sleeplock =
  sl_locked :: uint
  sl_name :: string
  sl_pid :: cint

record sleep_state = sema_state +
  slocks :: "slid \<Rightarrow> sleeplock"

fun sl_lk :: "slid \<Rightarrow> lockid" where
  "sl_lk (InodeSl i) = InodeLock i"
| "sl_lk (BufSl b) = BufLock b"

fun sl_chan :: "slid \<Rightarrow> chan" where
  "sl_chan (InodeSl i) = ChanInode i"
| "sl_chan (BufSl b) = ChanBufLock b"

section \<open>The code\<close>

definition set_sl :: "slid \<Rightarrow> (sleeplock \<Rightarrow> sleeplock) \<Rightarrow> 'a sleep_state_scheme \<Rightarrow> 'a sleep_state_scheme" where
  "set_sl l f s = s\<lparr>slocks := (slocks s)(l := f (slocks s l))\<rparr>"

definition initsleeplock :: "slid \<Rightarrow> string \<Rightarrow> ('a sleep_state_scheme, unit) K" where
  "initsleeplock l name = block
     [initlock (sl_lk l) ''sleep lock'',
      modify (set_sl l (\<lambda>x. x\<lparr>sl_name := name\<rparr>)),
      modify (set_sl l (\<lambda>x. x\<lparr>sl_locked := 0\<rparr>)),
      modify (set_sl l (\<lambda>x. x\<lparr>sl_pid := 0\<rparr>))]"

definition acquiresleep :: "slid \<Rightarrow> ('a sleep_state_scheme, unit) K" where
  "acquiresleep l = block
     [acquire (sl_lk l),
      wait_while (\<lambda>s. sl_locked (slocks s l) \<noteq> 0) (sl_chan l) (sl_lk l),
      modify (set_sl l (\<lambda>x. x\<lparr>sl_locked := 1\<rparr>)),
      bindK myproc (\<lambda>p. deref p (\<lambda>p. modify (\<lambda>s. set_sl l (\<lambda>x. x\<lparr>sl_pid := p_pid (ptable s ! p)\<rparr>) s))),
      release (sl_lk l)]"

definition releasesleep :: "slid \<Rightarrow> ('a sleep_state_scheme, unit) K" where
  "releasesleep l = block
     [acquire (sl_lk l),
      modify (set_sl l (\<lambda>x. x\<lparr>sl_locked := 0\<rparr>)),
      modify (set_sl l (\<lambda>x. x\<lparr>sl_pid := 0\<rparr>)),
      wakeup (sl_chan l),
      release (sl_lk l)]"

text \<open>\<open>holdingsleep\<close> as it is here: whether anyone holds the lock.\<close>

definition holdingsleep :: "slid \<Rightarrow> ('a sleep_state_scheme, bool) K" where
  "holdingsleep l =
     thenK (acquire (sl_lk l)) (
     bindK (gets (\<lambda>s. sl_locked (slocks s l))) (\<lambda>r.
     thenK (release (sl_lk l)) (ret (r \<noteq> 0))))"

section \<open>Frame rules\<close>

lemma slocks_frame [simp]:
  "slocks (acquired l s) = slocks s"
  "slocks (noted s) = slocks s"
  by (simp_all add: acquired_def pushed_def noted_def set_cpu_def set_lock_def)

lemma slocks_commute [simp]:
  "slocks_update u0 (acquired l s) = acquired l (slocks_update u0 s)"
  "slocks_update u0 (noted s) = noted (slocks_update u0 s)"
  by (simp_all add: acquired_def pushed_def noted_def set_cpu_def set_lock_def cur_def)

lemma slocks_context [simp]:
  "cur (slocks_update u0 s) = cur s"
  "cpu_ok (slocks_update u0 s) = cpu_ok s"
  "free_lock l (slocks_update u0 s) = free_lock l s"
  "held_here l (slocks_update u0 s) = held_here l s"
  by (simp_all add: cur_def cpu_ok_def free_lock_def held_here_def)

lemma slocks_ops [simp]:
  "slocks (set_proc i g s) = slocks s"
  "slocks (slept p c s) = slocks s"
  "slocks (woken p s) = slocks s"
  "slocks (settled s) = slocks s"
  "slocks (kfreed a s) = slocks s"
  "slocks (kalloced s) = slocks s"
  "slocks (set_cpu i h s) = slocks s"
  by (simp_all add: set_proc_def slept_def woken_def settled_def kfreed_def kalloced_def set_cpu_def)

lemma slocks_kept [simp]:
  "curproc (slocks_update u0 s) = curproc s"
  "proc_ctx p (slocks_update u0 s) = proc_ctx p s"
  "kmem_ready (slocks_update u0 s) = kmem_ready s"
  "kmem_inv (slocks_update u0 s) xs = kmem_inv s xs"
  by (simp_all add: curproc_def proc_ctx_def kmem_ready_def kmem_inv_def cur_def cpu_ok_def free_lock_def)

lemma set_sl_simps [simp]:
  "slocks (set_sl l f s) = (slocks s)(l := f (slocks s l))" "ptable (set_sl l f s) = ptable s"
  "cpu_ok (set_sl l f s) = cpu_ok s" "free_lock k (set_sl l f s) = free_lock k s"
  "proc_ctx p (set_sl l f s) = proc_ctx p s" "curproc (set_sl l f s) = curproc s"
  "set_sl l f (acquired k s) = acquired k (set_sl l f s)" "set_sl l f (noted s) = noted (set_sl l f s)"
  "set_sl l f (set_sl l g s) = set_sl l (\<lambda>x. f (g x)) s"
  by (simp_all add: set_sl_def)

lemma sl_lk_neq [simp]: "sl_lk l \<noteq> PtableLock" "PtableLock \<noteq> sl_lk l"
  by (cases l, simp_all)+

lemma undisturbed_slocks [simp]: "undisturbed p (\<lambda>s. I (slocks s))"
  by (simp add: undisturbed_def)

section \<open>Uncontended locks\<close>

definition sl_taken :: "slid \<Rightarrow> nat \<Rightarrow> 'a sleep_state_scheme \<Rightarrow> 'a sleep_state_scheme" where
  "sl_taken l p s = set_sl l (\<lambda>x. x\<lparr>sl_locked := 1, sl_pid := p_pid (ptable s ! p)\<rparr>) s"

definition sl_given :: "slid \<Rightarrow> 'a sleep_state_scheme \<Rightarrow> 'a sleep_state_scheme" where
  "sl_given l s = (set_sl l (\<lambda>x. x\<lparr>sl_locked := 0, sl_pid := 0\<rparr>) s)\<lparr>ptable := map (wake (sl_chan l)) (ptable s)\<rparr>"

lemma acquiresleep_free:
  assumes "proc_ctx p s" "free_lock (sl_lk l) s" "sl_locked (slocks s l) = 0"
  shows "acquiresleep l s env = Ok () (noted (sl_taken l p s)) env"
  using assms
  by (simp add: acquiresleep_def kmonad wait_while_done proc_ctx_def deref_def) (simp add: sl_taken_def)

lemma releasesleep_eval:
  assumes "cpu_ok s" "free_lock PtableLock s" "free_lock (sl_lk l) s"
  shows "releasesleep l s env = Ok () (noted (sl_given l s)) env"
  using assms by (simp add: releasesleep_def kmonad sl_given_def)

lemma holdingsleep_eval [simp]:
  assumes "cpu_ok s" "free_lock (sl_lk l) s"
  shows "holdingsleep l s env = Ok (sl_locked (slocks s l) \<noteq> 0) (noted s) env"
  using assms by (simp add: holdingsleep_def kmonad)

section \<open>Properties\<close>


definition sleep_machine :: sleep_state where
  "sleep_machine = sema_state.extend sema_machine
     \<lparr>slocks = (\<lambda>_. \<lparr>sl_locked = 0, sl_name = [], sl_pid = 0\<rparr>)\<rparr>"

lemmas sleep_machine_defs = sleep_machine_def sema_state.defs sema_machine_defs

lemma sleep_machine_ctx: "proc_ctx 1 sleep_machine" "free_lock l sleep_machine"
  by (simp_all add: proc_ctx_def cpu_ok_def cur_def curproc_def free_lock_def sleep_machine_defs)

end
