(* ===== verification/Runs.thy ===== *)
theory Runs
  imports Memory
begin

text \<open>
  Total correctness of undisturbed runs.  \<open>wp m Q s\<close>: from the state \<open>s\<close> the routine
  \<open>m\<close> returns, without waiting for the rest of the machine, with a result and a state that
  satisfy \<open>Q\<close>.  The file system is verified with these rules, one per construct of the
  kernel monad; a routine has one rule, \<open>wp\<close> of it, that its callers use.  A table of
  little-endian integers over byte lists serves the on-disk structures.
\<close>

section \<open>Weakest preconditions\<close>

definition wp :: "('s, 'a) K \<Rightarrow> ('a \<Rightarrow> 's \<Rightarrow> bool) \<Rightarrow> 's \<Rightarrow> bool" where
  "wp m Q s \<longleftrightarrow> (\<forall>env. \<exists>a t. m s env = Ok a t env \<and> Q a t)"

lemma wp_eval: "(\<And>env. m s env = Ok a t env) \<Longrightarrow> Q a t \<Longrightarrow> wp m Q s"
  by (auto simp: wp_def)

lemma wp_mono: "wp m P s \<Longrightarrow> (\<And>a t. P a t \<Longrightarrow> Q a t) \<Longrightarrow> wp m Q s"
  unfolding wp_def by meson

lemma wp_ret [simp]: "wp (ret a) Q s = Q a s"
  by (simp add: wp_def kmonad)

lemma wp_gets [simp]: "wp (gets f) Q s = Q (f s) s"
  by (simp add: wp_def kmonad)

lemma wp_modify [simp]: "wp (modify f) Q s = Q () (f s)"
  by (simp add: wp_def kmonad)

lemma wp_panic [simp]: "\<not> wp (panic e) Q s"
  by (simp add: wp_def kmonad)

lemma wp_bind: "wp m (\<lambda>a. wp (f a) Q) s \<Longrightarrow> wp (bindK m f) Q s"
  unfolding wp_def bindK_def
proof (intro allI)
  fix env
  assume "\<forall>env. \<exists>a t. m s env = Ok a t env \<and> (\<forall>env. \<exists>aa ta. f a t env = Ok aa ta env \<and> Q aa ta)"
  then obtain a t where "m s env = Ok a t env" "\<exists>aa ta. f a t env = Ok aa ta env \<and> Q aa ta"
    by blast
  then show "\<exists>a t. (case m s env of Ok a s' env' \<Rightarrow> f a s' env' | Panic e \<Rightarrow> Panic e | Spin \<Rightarrow> Spin
      | Asleep s' \<Rightarrow> Asleep s') = Ok a t env \<and> Q a t" by simp
qed

lemma wp_bind_simps [simp]:
  "wp (bindK (ret a) f) Q s = wp (f a) Q s"
  "wp (bindK (gets g) f') Q s = wp (f' (g s)) Q s"
  "wp (bindK (modify h) f'') Q s = wp (f'' ()) Q (h s)"
  "wp (thenK (modify h) k) Q s = wp k Q (h s)"
  "wp (thenK (ret ()) k) Q s = wp k Q s"
  by (simp_all add: wp_def kmonad)

lemma wp_then: "wp m (\<lambda>_. wp k Q) s \<Longrightarrow> wp (thenK m k) Q s"
  by (simp add: thenK_def wp_bind)

lemma wp_ret_fun: "wp (ret a) Q = Q a"
  by (rule ext) simp

lemma thenK_ret_unit: "thenK m (ret ()) = m"
  by (simp add: kmonad fun_eq_iff split: outcome.split)

lemma wp_when: "(b \<Longrightarrow> wp m Q s) \<Longrightarrow> (\<not> b \<Longrightarrow> Q () s) \<Longrightarrow> wp (whenK b m) Q s"
  by (simp add: whenK_def)

lemma wp_if: "(b \<Longrightarrow> wp m Q s) \<Longrightarrow> (\<not> b \<Longrightarrow> wp n Q s) \<Longrightarrow> wp (if b then m else n) Q s"
  by simp

lemma wp_Ok: "wp m Q s \<Longrightarrow> \<exists>a t. m s env = Ok a t env \<and> Q a t"
  by (simp add: wp_def)

text \<open>The rule for counted loops: an invariant indexed by the rounds done.\<close>

lemma wp_forK:
  assumes "I 0 s"
    and "\<And>k s. k < length is \<Longrightarrow> I k s \<Longrightarrow> wp (f (is ! k)) (\<lambda>_. I (Suc k)) s"
    and "\<And>s. I (length is) s \<Longrightarrow> Q () s"
  shows "wp (forK is f) Q s"
  using assms
proof (induction "is" arbitrary: I s)
  case Nil
  then show ?case by simp
next
  case (Cons i "is")
  have "wp (f i) (\<lambda>_. I (Suc 0)) s" using Cons.prems(2) [of 0] Cons.prems(1) by simp
  moreover have "wp (forK is f) Q t" if "I (Suc 0) t" for t
    using that Cons.prems(2) [of "Suc _"] Cons.prems(3) by (intro Cons.IH [of "\<lambda>k. I (Suc k)"]) auto
  ultimately show ?case by (auto intro!: wp_then elim: wp_mono)
qed

section \<open>Integers in byte lists\<close>

unbundle bit_operations_syntax

definition get16 :: "byte list \<Rightarrow> nat \<Rightarrow> 16 word" where
  "get16 bs i = ucast (bs ! i) OR push_bit 8 (ucast (bs ! (i + 1)))"

definition put16 :: "byte list \<Rightarrow> nat \<Rightarrow> 16 word \<Rightarrow> byte list" where
  "put16 bs i w = bs[i := ucast w, i + 1 := ucast (drop_bit 8 w)]"

definition get32 :: "byte list \<Rightarrow> nat \<Rightarrow> uint" where
  "get32 bs i = ucast (bs ! i) OR push_bit 8 (ucast (bs ! (i + 1)))
     OR push_bit 16 (ucast (bs ! (i + 2))) OR push_bit 24 (ucast (bs ! (i + 3)))"

definition put32 :: "byte list \<Rightarrow> nat \<Rightarrow> uint \<Rightarrow> byte list" where
  "put32 bs i w = bs[i := ucast w, i + 1 := ucast (drop_bit 8 w),
     i + 2 := ucast (drop_bit 16 w), i + 3 := ucast (drop_bit 24 w)]"

lemma get16_bytes:
  "ucast (ucast (w :: 16 word) :: byte) OR push_bit 8 (ucast (ucast (drop_bit 8 w) :: byte)) = w"
proof (rule bit_word_eqI)
  fix n assume "n < LENGTH(16)"
  then consider "n < 8" | "8 \<le> n" "n < 16" by fastforce
  then show "bit (ucast (ucast w :: byte) OR push_bit 8 (ucast (ucast (drop_bit 8 w) :: byte)) :: 16 word) n
    = bit w n"
    by cases (auto simp: bit_simps)
qed

lemma length_put [simp]: "length (put16 bs i w) = length bs" "length (put32 bs i v) = length bs"
  by (simp_all add: put16_def put32_def)

lemma get32_put32 [simp]: "i + 4 \<le> length bs \<Longrightarrow> get32 (put32 bs i w) i = w"
  by (simp add: get32_def put32_def load32_bytes)

lemma get16_put16 [simp]: "i + 2 \<le> length bs \<Longrightarrow> get16 (put16 bs i w) i = w"
  by (simp add: get16_def put16_def get16_bytes)

lemma nth_put32: "j < i \<or> i + 4 \<le> j \<Longrightarrow> put32 bs i w ! j = bs ! j"
  by (auto simp: put32_def)

lemma nth_put16: "j < i \<or> i + 2 \<le> j \<Longrightarrow> put16 bs i w ! j = bs ! j"
  by (auto simp: put16_def)

lemma get32_put32_other: "j + 4 \<le> i \<or> i + 4 \<le> j \<Longrightarrow> get32 (put32 bs i w) j = get32 bs j"
  by (auto simp: get32_def nth_put32)

lemma get_put_other:
  "j + 4 \<le> i \<or> i + 2 \<le> j \<Longrightarrow> get32 (put16 bs i v) j = get32 bs j"
  "j + 2 \<le> i \<or> i + 4 \<le> j \<Longrightarrow> get16 (put32 bs i w) j = get16 bs j"
  "j + 2 \<le> i \<or> i + 2 \<le> j \<Longrightarrow> get16 (put16 bs i v) j = get16 bs j"
  by (auto simp: get32_def get16_def nth_put32 nth_put16)

end
