(* ===== verification/Ring.thy ===== *)
theory Ring
  imports Main
begin

text \<open>
  Doubly linked circular lists with a head node \<open>h\<close>, as the buffer cache keeps them:
  \<open>nx\<close> and \<open>pv\<close> are the link fields as functions of the node.  \<open>ring nx pv h xs\<close> says
  that the links go through \<open>xs\<close> from the head and back, both ways.
\<close>

fun chain :: "('i \<Rightarrow> 'i) \<Rightarrow> ('i \<Rightarrow> 'i) \<Rightarrow> 'i \<Rightarrow> 'i list \<Rightarrow> bool" where
  "chain nx pv a [] = True"
| "chain nx pv a (b # xs) = (nx a = b \<and> pv b = a \<and> chain nx pv b xs)"

definition ring :: "('i \<Rightarrow> 'i) \<Rightarrow> ('i \<Rightarrow> 'i) \<Rightarrow> 'i \<Rightarrow> 'i list \<Rightarrow> bool" where
  "ring nx pv h xs = chain nx pv h (xs @ [h])"

lemma chain_append: "chain nx pv a (xs @ ys) \<longleftrightarrow> chain nx pv a xs \<and> chain nx pv (last (a # xs)) ys"
  by (induction xs arbitrary: a) auto

lemma chain_cong:
  "(\<And>i. i \<in> insert a (set (butlast xs)) \<Longrightarrow> nx i = nx' i) \<Longrightarrow> (\<And>i. i \<in> set xs \<Longrightarrow> pv i = pv' i) \<Longrightarrow>
   chain nx pv a xs = chain nx' pv' a xs"
proof (induction xs arbitrary: a)
  case (Cons b xs)
  show ?case
  proof (cases xs)
    case Nil
    then show ?thesis using Cons.prems by auto
  next
    case (Cons c ys)
    then have "chain nx pv b xs = chain nx' pv' b xs"
      using Cons.prems by (intro Cons.IH) auto
    with Cons.prems show ?thesis by auto
  qed
qed simp

lemma chain_last: "chain nx pv a (xs @ [b]) \<Longrightarrow> nx (last (a # xs)) = b \<and> pv b = last (a # xs)"
  by (induction xs arbitrary: a) auto

lemma ring_first: "ring nx pv h xs \<Longrightarrow> nx h = hd (xs @ [h]) \<and> pv h = last (h # xs)"
  by (cases xs) (auto simp: ring_def dest: chain_last)

lemma ring_push:
  assumes "ring nx pv h xs" "distinct (h # b # xs)"
  shows "ring (nx(b := nx h, h := b)) (pv(b := h, nx h := b)) h (b # xs)"
proof (cases xs)
  case Nil
  then show ?thesis using assms by (auto simp: ring_def)
next
  case (Cons c ys)
  then have "nx h = c" "chain nx pv c (ys @ [h])" using assms by (auto simp: ring_def)
  moreover have "chain (nx(b := c, h := b)) (pv(b := h, c := b)) c (ys @ [h]) = chain nx pv c (ys @ [h])"
    using assms(2) Cons by (intro chain_cong) auto
  ultimately show ?thesis using assms(2) Cons by (auto simp: ring_def)
qed

lemma ring_unlink:
  assumes r: "ring nx pv h (ys @ b # zs)" and d: "distinct (h # ys @ b # zs)"
  shows "ring (nx(pv b := nx b)) (pv(nx b := pv b)) h (ys @ zs)"
proof -
  define p where "p = last (h # ys)"
  have c: "chain nx pv h (ys @ [b])" "chain nx pv b (zs @ [h])"
    using r by (auto simp: ring_def chain_append)
  have p: "pv b = p" using chain_last [OF c(1)] by (simp add: p_def)
  obtain n ws where n: "zs @ [h] = n # ws" by (cases zs) auto
  with c(2) have nb: "nx b = n" "pv n = b" "chain nx pv n ws" by auto
  have pin: "p \<in> insert h (set ys)" by (simp add: p_def)
  have nin: "n \<in> insert h (set zs)" "set ws \<subseteq> insert h (set zs)"
    using n by (cases zs; auto)+
  have pre: "chain (nx(p := n)) (pv(n := p)) h (ys @ [n])"
  proof (cases ys rule: rev_cases)
    case Nil
    then show ?thesis by (simp add: p_def)
  next
    case (snoc us u)
    then have u: "p = u" "nx u = b" "chain nx pv h (us @ [u])"
      using c(1) by (auto simp: p_def chain_append)
    have "chain (nx(p := n)) (pv(n := p)) h (us @ [u]) = chain nx pv h (us @ [u])"
      using d nin(1) u(1) snoc by (intro chain_cong) auto
    with u snoc show ?thesis by (auto simp: chain_append)
  qed
  have post: "chain (nx(p := n)) (pv(n := p)) n ws"
  proof (cases zs)
    case Nil
    with n show ?thesis by simp
  next
    case (Cons z us)
    then have e: "ws = us @ [h]" "z = n" using n by auto
    have "chain (nx(p := n)) (pv(n := p)) n ws = chain nx pv n ws"
      using d pin Cons e by (intro chain_cong) auto
    with nb show ?thesis by simp
  qed
  have "ys @ zs @ [h] = ys @ n # ws" using n by simp
  then show ?thesis using pre post p nb by (auto simp: ring_def chain_append)
qed

lemma chain_rev: "chain nx pv a (xs @ [b]) \<Longrightarrow> chain pv nx b (rev xs @ [a])"
proof (induction xs arbitrary: a)
  case (Cons x xs)
  then have "chain pv nx b (rev xs @ [x])" "pv x = a" "nx a = x" by auto
  then show ?case by (auto simp: chain_append)
qed simp

lemma ring_rev: "ring nx pv h xs \<Longrightarrow> ring pv nx h (rev xs)"
  by (simp add: ring_def chain_rev)

text \<open>Walking along the ring visits the nodes in order and ends at the head.\<close>

lemma ring_step:
  "chain nx pv a (x # xs @ [h]) \<Longrightarrow> nx x = hd (xs @ [h])"
  by (cases xs) auto

end
