(* ===== verification/Bio.thy ===== *)
theory Bio
  imports Sleeplock Runs Ring
begin

text \<open>
  The buffer cache, \<open>bio.c\<close> and \<open>buf.h\<close>, over the memory disk driver \<open>memide.c\<close> (the
  build \<open>kernelmemfs\<close>; the driver of \<open>ide.c\<close> is in the theory \<open>Ide\<close>).  A buffer is
  named by its index in \<open>bcache.buf\<close>; the index \<open>NBUF\<close> is \<open>bcache.head\<close>.  The walks
  along the doubly linked list are bounded by the number of its nodes: a walk that has not met
  the head by then is in a cycle without the head and goes round for ever (\<open>Spin\<close>).  The
  disk is a list of blocks; \<open>dwrites\<close> records the completed block writes, oldest first, and
  is read by no code: a crash leaves the disk after some prefix of them.

  Uncontended use is abstracted to three things: the contents \<open>blk s n\<close> of every block, the
  set \<open>held s\<close> of the blocks the caller holds and the set \<open>pinned s\<close> of the blocks kept in
  the cache because they are dirty.  The locale \<open>block_cache\<close> is that contract.
\<close>

section \<open>State\<close>

unbundle bit_operations_syntax

definition NBUF :: nat where "NBUF = 30"
definition BSIZE :: nat where "BSIZE = 512"
definition B_VALID :: cint where "B_VALID = 2"
definition B_DIRTY :: cint where "B_DIRTY = 4"

type_synonym block = "byte list"

record buf =
  b_flags :: cint
  b_dev :: uint
  b_blockno :: uint
  b_refcnt :: uint
  b_prev :: nat
  b_next :: nat
  b_data :: block

record bio_state = sleep_state +
  bufs :: "buf list"
  disk :: "block list"
  dwrites :: "(nat \<times> block) list"

section \<open>The memory disk\<close>

definition set_buf :: "nat \<Rightarrow> (buf \<Rightarrow> buf) \<Rightarrow> 'a bio_state_scheme \<Rightarrow> 'a bio_state_scheme" where
  "set_buf i f s = s\<lparr>bufs := (bufs s)[i := f (bufs s ! i)]\<rparr>"

definition ideinit :: "block list \<Rightarrow> ('a bio_state_scheme, unit) K" where
  "ideinit img = modify (\<lambda>s. s\<lparr>disk := img\<rparr>)"

definition disk_write :: "nat \<Rightarrow> block \<Rightarrow> 'a bio_state_scheme \<Rightarrow> 'a bio_state_scheme" where
  "disk_write n d s = s\<lparr>disk := (disk s)[n := d], dwrites := dwrites s @ [(n, d)]\<rparr>"

definition iderw :: "nat \<Rightarrow> ('a bio_state_scheme, unit) K" where
  "iderw i =
     bindK (holdingsleep (BufSl i)) (\<lambda>h. if \<not> h then panic ''iderw: buf not locked'' else
     bindK (gets (\<lambda>s. bufs s ! i)) (\<lambda>b.
     bindK (gets (\<lambda>s. length (disk s))) (\<lambda>disksize.
       if b_flags b AND (B_VALID OR B_DIRTY) = B_VALID then panic ''iderw: nothing to do''
       else if b_dev b \<noteq> 1 then panic ''iderw: request not for disk 1''
       else if unat (b_blockno b) \<ge> disksize then panic ''iderw: block out of range''
       else block
         [if b_flags b AND B_DIRTY \<noteq> 0
          then block [modify (set_buf i (b_flags_update (\<lambda>f. f AND NOT B_DIRTY))),
                      modify (disk_write (unat (b_blockno b)) (b_data b))]
          else modify (\<lambda>s. set_buf i (b_data_update (\<lambda>_. disk s ! unat (b_blockno b))) s),
          modify (set_buf i (b_flags_update (\<lambda>f. f OR B_VALID)))])))"

section \<open>The cache\<close>

definition insert_front :: "nat \<Rightarrow> ('a bio_state_scheme, unit) K" where
  "insert_front b = block
     [modify (\<lambda>s. set_buf b (b_next_update (\<lambda>_. b_next (bufs s ! NBUF))) s),
      modify (set_buf b (b_prev_update (\<lambda>_. NBUF)))]"

definition link_front :: "nat \<Rightarrow> ('a bio_state_scheme, unit) K" where
  "link_front b = block
     [modify (\<lambda>s. set_buf (b_next (bufs s ! NBUF)) (b_prev_update (\<lambda>_. b)) s),
      modify (set_buf NBUF (b_next_update (\<lambda>_. b)))]"

definition binit :: "('a bio_state_scheme, unit) K" where
  "binit = block
     [initlock BcacheLock ''bcache'',
      modify (set_buf NBUF (b_prev_update (\<lambda>_. NBUF))),
      modify (set_buf NBUF (b_next_update (\<lambda>_. NBUF))),
      forK [0..<NBUF] (\<lambda>b. block [insert_front b, initsleeplock (BufSl b) ''buffer'', link_front b])]"

text \<open>A walk along the list from the node \<open>i\<close> to the first buffer that satisfies \<open>P\<close>.\<close>

fun walk :: "nat \<Rightarrow> (buf \<Rightarrow> nat) \<Rightarrow> (buf \<Rightarrow> bool) \<Rightarrow> buf list \<Rightarrow> nat \<Rightarrow> nat option option" where
  "walk 0 step P bs i = None"
| "walk (Suc k) step P bs i =
     (if i = NBUF then Some None
      else if P (bs ! i) then Some (Some i)
      else walk k step P bs (step (bs ! i)))"

definition walkK :: "(buf \<Rightarrow> nat) \<Rightarrow> (buf \<Rightarrow> bool) \<Rightarrow> ('a bio_state_scheme, nat option) K" where
  "walkK step P = (\<lambda>s env.
     case walk (Suc NBUF) step P (bufs s) (step (bufs s ! NBUF)) of
       None \<Rightarrow> Spin
     | Some r \<Rightarrow> Ok r s env)"

definition bget :: "uint \<Rightarrow> uint \<Rightarrow> ('a bio_state_scheme, nat) K" where
  "bget dev blockno =
     thenK (acquire BcacheLock) (
     bindK (walkK b_next (\<lambda>b. b_dev b = dev \<and> b_blockno b = blockno)) (\<lambda>r. case r of
       Some b \<Rightarrow>
         thenK (block [modify (set_buf b (b_refcnt_update (\<lambda>r. r + 1))),
                       release BcacheLock,
                       acquiresleep (BufSl b)]) (ret b)
     | None \<Rightarrow>
         bindK (walkK b_prev (\<lambda>b. b_refcnt b = 0 \<and> b_flags b AND B_DIRTY = 0)) (\<lambda>r. case r of
           Some b \<Rightarrow>
             thenK (block [modify (set_buf b (b_dev_update (\<lambda>_. dev))),
                           modify (set_buf b (b_blockno_update (\<lambda>_. blockno))),
                           modify (set_buf b (b_flags_update (\<lambda>_. 0))),
                           modify (set_buf b (b_refcnt_update (\<lambda>_. 1))),
                           release BcacheLock,
                           acquiresleep (BufSl b)]) (ret b)
         | None \<Rightarrow> panic ''bget: no buffers'')))"

definition bread :: "uint \<Rightarrow> uint \<Rightarrow> ('a bio_state_scheme, nat) K" where
  "bread dev blockno =
     bindK (bget dev blockno) (\<lambda>b.
     bindK (gets (\<lambda>s. b_flags (bufs s ! b))) (\<lambda>f.
     thenK (whenK (f AND B_VALID = 0) (iderw b)) (ret b)))"

definition bwrite :: "nat \<Rightarrow> ('a bio_state_scheme, unit) K" where
  "bwrite b =
     bindK (holdingsleep (BufSl b)) (\<lambda>h. if \<not> h then panic ''bwrite'' else
     thenK (modify (set_buf b (b_flags_update (\<lambda>f. f OR B_DIRTY))))
           (iderw b))"

definition move_front :: "nat \<Rightarrow> ('a bio_state_scheme, unit) K" where
  "move_front b = block
     [modify (\<lambda>s. set_buf (b_next (bufs s ! b)) (b_prev_update (\<lambda>_. b_prev (bufs s ! b))) s),
      modify (\<lambda>s. set_buf (b_prev (bufs s ! b)) (b_next_update (\<lambda>_. b_next (bufs s ! b))) s),
      insert_front b,
      link_front b]"

definition brelse :: "nat \<Rightarrow> ('a bio_state_scheme, unit) K" where
  "brelse b =
     bindK (holdingsleep (BufSl b)) (\<lambda>h. if \<not> h then panic ''brelse'' else
     block
       [releasesleep (BufSl b),
        acquire BcacheLock,
        modify (set_buf b (b_refcnt_update (\<lambda>r. r - 1))),
        bindK (gets (\<lambda>s. b_refcnt (bufs s ! b))) (\<lambda>r. whenK (r = 0) (move_front b)),
        release BcacheLock])"

section \<open>Frame rules\<close>

lemma bio_frame [simp]:
  "bufs (acquired l s) = bufs s"
  "disk (acquired l s) = disk s"
  "dwrites (acquired l s) = dwrites s"
  "bufs (noted s) = bufs s"
  "disk (noted s) = disk s"
  "dwrites (noted s) = dwrites s"
  by (simp_all add: acquired_def pushed_def noted_def set_cpu_def set_lock_def)

lemma bio_commute [simp]:
  "bufs_update u0 (acquired l s) = acquired l (bufs_update u0 s)"
  "disk_update u1 (acquired l s) = acquired l (disk_update u1 s)"
  "dwrites_update u2 (acquired l s) = acquired l (dwrites_update u2 s)"
  "bufs_update u0 (noted s) = noted (bufs_update u0 s)"
  "disk_update u1 (noted s) = noted (disk_update u1 s)"
  "dwrites_update u2 (noted s) = noted (dwrites_update u2 s)"
  by (simp_all add: acquired_def pushed_def noted_def set_cpu_def set_lock_def cur_def)

lemma bio_context [simp]:
  "cur (bufs_update u0 s) = cur s"
  "cpu_ok (bufs_update u0 s) = cpu_ok s"
  "free_lock l (bufs_update u0 s) = free_lock l s"
  "held_here l (bufs_update u0 s) = held_here l s"
  "cur (disk_update u1 s) = cur s"
  "cpu_ok (disk_update u1 s) = cpu_ok s"
  "free_lock l (disk_update u1 s) = free_lock l s"
  "held_here l (disk_update u1 s) = held_here l s"
  "cur (dwrites_update u2 s) = cur s"
  "cpu_ok (dwrites_update u2 s) = cpu_ok s"
  "free_lock l (dwrites_update u2 s) = free_lock l s"
  "held_here l (dwrites_update u2 s) = held_here l s"
  by (simp_all add: cur_def cpu_ok_def free_lock_def held_here_def)

lemma bio_ops [simp]:
  "bufs (set_proc i g s) = bufs s"
  "bufs (slept p c s) = bufs s"
  "bufs (woken p s) = bufs s"
  "bufs (settled s) = bufs s"
  "bufs (kfreed a s) = bufs s"
  "bufs (kalloced s) = bufs s"
  "bufs (set_cpu i h s) = bufs s"
  "disk (set_proc i g s) = disk s"
  "disk (slept p c s) = disk s"
  "disk (woken p s) = disk s"
  "disk (settled s) = disk s"
  "disk (kfreed a s) = disk s"
  "disk (kalloced s) = disk s"
  "disk (set_cpu i h s) = disk s"
  "dwrites (set_proc i g s) = dwrites s"
  "dwrites (slept p c s) = dwrites s"
  "dwrites (woken p s) = dwrites s"
  "dwrites (settled s) = dwrites s"
  "dwrites (kfreed a s) = dwrites s"
  "dwrites (kalloced s) = dwrites s"
  "dwrites (set_cpu i h s) = dwrites s"
  by (simp_all add: set_proc_def slept_def woken_def settled_def kfreed_def kalloced_def set_cpu_def)

lemma bio_kept [simp]:
  "curproc (bufs_update u0 s) = curproc s"
  "proc_ctx p (bufs_update u0 s) = proc_ctx p s"
  "kmem_ready (bufs_update u0 s) = kmem_ready s"
  "kmem_inv (bufs_update u0 s) xs = kmem_inv s xs"
  "curproc (disk_update u1 s) = curproc s"
  "proc_ctx p (disk_update u1 s) = proc_ctx p s"
  "kmem_ready (disk_update u1 s) = kmem_ready s"
  "kmem_inv (disk_update u1 s) xs = kmem_inv s xs"
  "curproc (dwrites_update u2 s) = curproc s"
  "proc_ctx p (dwrites_update u2 s) = proc_ctx p s"
  "kmem_ready (dwrites_update u2 s) = kmem_ready s"
  "kmem_inv (dwrites_update u2 s) xs = kmem_inv s xs"
  by (simp_all add: curproc_def proc_ctx_def kmem_ready_def kmem_inv_def cur_def cpu_ok_def free_lock_def)

lemma slocks_bio_commute [simp]:
  "set_sl l f (bufs_update g s) = bufs_update g (set_sl l f s)"
  "set_sl l f (disk_update h s) = disk_update h (set_sl l f s)"
  "set_sl l f (dwrites_update k s) = dwrites_update k (set_sl l f s)"
  "bufs (set_sl l f s) = bufs s" "disk (set_sl l f s) = disk s" "dwrites (set_sl l f s) = dwrites s"
  by (simp_all add: set_sl_def)

lemma set_buf_simps [simp]:
  "bufs (set_buf i f s) = (bufs s)[i := f (bufs s ! i)]" "disk (set_buf i f s) = disk s"
  "dwrites (set_buf i f s) = dwrites s" "slocks (set_buf i f s) = slocks s" "ptable (set_buf i f s) = ptable s"
  "cpu_ok (set_buf i f s) = cpu_ok s" "free_lock k (set_buf i f s) = free_lock k s"
  "proc_ctx p (set_buf i f s) = proc_ctx p s" "curproc (set_buf i f s) = curproc s"
  "set_buf i f (acquired k s) = acquired k (set_buf i f s)" "set_buf i f (noted s) = noted (set_buf i f s)"
  by (simp_all add: set_buf_def)

lemma disk_write_simps [simp]:
  "bufs (disk_write n d s) = bufs s" "disk (disk_write n d s) = (disk s)[n := d]"
  "dwrites (disk_write n d s) = dwrites s @ [(n, d)]" "slocks (disk_write n d s) = slocks s"
  "ptable (disk_write n d s) = ptable s"
  "cpu_ok (disk_write n d s) = cpu_ok s" "free_lock k (disk_write n d s) = free_lock k s"
  "proc_ctx p (disk_write n d s) = proc_ctx p s" "curproc (disk_write n d s) = curproc s"
  "disk_write n d (acquired k s) = acquired k (disk_write n d s)"
  "disk_write n d (noted s) = noted (disk_write n d s)"
  by (simp_all add: disk_write_def)

lemma sl_taken_simps [simp]:
  "bufs (sl_taken l p s) = bufs s" "disk (sl_taken l p s) = disk s" "dwrites (sl_taken l p s) = dwrites s"
  "bufs (sl_given l s) = bufs s" "disk (sl_given l s) = disk s" "dwrites (sl_given l s) = dwrites s"
  "sl_taken l p (noted s) = noted (sl_taken l p s)" "sl_given l (noted s) = noted (sl_given l s)"
  "cpu_ok (sl_taken l p s) = cpu_ok s" "cpu_ok (sl_given l s) = cpu_ok s"
  "free_lock k (sl_taken l p s) = free_lock k s" "free_lock k (sl_given l s) = free_lock k s"
  by (simp_all add: sl_taken_def sl_given_def)

lemma find_SomeD: "find P xs = Some x \<Longrightarrow> x \<in> set xs \<and> P x"
  by (auto simp: find_Some_iff)

section \<open>The list of buffers\<close>

definition linked :: "nat list \<Rightarrow> buf list \<Rightarrow> bool" where
  "linked xs bs \<longleftrightarrow> length bs = Suc NBUF \<and> distinct xs \<and> set xs = {..<NBUF} \<and>
     ring (\<lambda>i. b_next (bs ! i)) (\<lambda>i. b_prev (bs ! i)) NBUF xs"

lemma walk_chain:
  "chain (\<lambda>i. step (bs ! i)) pv a (xs @ [NBUF]) \<Longrightarrow> NBUF \<notin> set xs \<Longrightarrow> length xs < k \<Longrightarrow>
   walk k step P bs (step (bs ! a)) = Some (find (\<lambda>i. P (bs ! i)) xs)"
proof (induction xs arbitrary: a k)
  case Nil
  then show ?case by (cases k) auto
next
  case (Cons x xs)
  then obtain m where k: "k = Suc m" "length xs < m" by (cases k) auto
  have "walk m step P bs (step (bs ! x)) = Some (find (\<lambda>i. P (bs ! i)) xs)"
    using Cons k by (intro Cons.IH) auto
  with Cons.prems k show ?case by auto
qed

lemma linked_length: "linked xs bs \<Longrightarrow> length xs = NBUF"
  by (metis card_lessThan distinct_card linked_def)

lemma walkK_eval:
  assumes "linked xs (bufs s)"
  shows "walkK b_next P s env = Ok (find (\<lambda>i. P (bufs s ! i)) xs) s env"
    and "walkK b_prev P s env = Ok (find (\<lambda>i. P (bufs s ! i)) (rev xs)) s env"
proof -
  have r: "ring (\<lambda>i. b_next (bufs s ! i)) (\<lambda>i. b_prev (bufs s ! i)) NBUF xs" "NBUF \<notin> set xs"
    using assms by (auto simp: linked_def)
  show "walkK b_next P s env = Ok (find (\<lambda>i. P (bufs s ! i)) xs) s env"
    using walk_chain [of b_next "bufs s" "\<lambda>i. b_prev (bufs s ! i)" NBUF xs "Suc NBUF" P] r linked_length [OF assms]
    by (simp add: walkK_def ring_def del: walk.simps)
  show "walkK b_prev P s env = Ok (find (\<lambda>i. P (bufs s ! i)) (rev xs)) s env"
    using walk_chain [of b_prev "bufs s" "\<lambda>i. b_next (bufs s ! i)" NBUF "rev xs" "Suc NBUF" P] r
      ring_rev [OF r(1)] linked_length [OF assms]
    by (simp add: walkK_def ring_def del: walk.simps)
qed

lemma linked_update:
  assumes "linked xs bs" "b_next (f (bs ! i)) = b_next (bs ! i)" "b_prev (f (bs ! i)) = b_prev (bs ! i)"
  shows "linked xs (bs[i := f (bs ! i)])"
proof -
  have "(\<lambda>j. b_next (bs[i := f (bs ! i)] ! j)) = (\<lambda>j. b_next (bs ! j))"
    "(\<lambda>j. b_prev (bs[i := f (bs ! i)] ! j)) = (\<lambda>j. b_prev (bs ! j))"
    using assms(2,3) by (metis list_update_beyond nth_list_update not_le)+
  with assms(1) show ?thesis by (simp add: linked_def)
qed

text \<open>The links after \<open>insert_front\<close> and \<open>link_front\<close>, and after taking a node out.\<close>

definition pushed_front :: "nat \<Rightarrow> buf list \<Rightarrow> buf list" where
  "pushed_front b bs = (let n = b_next (bs ! NBUF);
     bs = bs[b := (bs ! b)\<lparr>b_next := n, b_prev := NBUF\<rparr>];
     bs = bs[n := (bs ! n)\<lparr>b_prev := b\<rparr>]
     in bs[NBUF := (bs ! NBUF)\<lparr>b_next := b\<rparr>])"

definition unlinked :: "nat \<Rightarrow> buf list \<Rightarrow> buf list" where
  "unlinked b bs = (let n = b_next (bs ! b); p = b_prev (bs ! b);
     bs = bs[n := (bs ! n)\<lparr>b_prev := p\<rparr>]
     in bs[p := (bs ! p)\<lparr>b_next := n\<rparr>])"

lemma pushed_front_links:
  assumes "length bs = Suc NBUF" "b < NBUF" "b_next (bs ! NBUF) \<le> NBUF" "b_next (bs ! NBUF) \<noteq> b"
  shows "(\<lambda>i. b_next (pushed_front b bs ! i)) =
      (\<lambda>i. b_next (bs ! i))(b := b_next (bs ! NBUF), NBUF := b)"
    and "(\<lambda>i. b_prev (pushed_front b bs ! i)) =
      (\<lambda>i. b_prev (bs ! i))(b := NBUF, b_next (bs ! NBUF) := b)"
  using assms by (auto simp: pushed_front_def Let_def fun_eq_iff nth_list_update)

lemma unlinked_links:
  assumes "length bs = Suc NBUF" "b_next (bs ! b) \<le> NBUF" "b_prev (bs ! b) \<le> NBUF"
  shows "(\<lambda>i. b_next (unlinked b bs ! i)) = (\<lambda>i. b_next (bs ! i))(b_prev (bs ! b) := b_next (bs ! b))"
    and "(\<lambda>i. b_prev (unlinked b bs ! i)) = (\<lambda>i. b_prev (bs ! i))(b_next (bs ! b) := b_prev (bs ! b))"
  using assms by (auto simp: unlinked_def Let_def fun_eq_iff nth_list_update)

lemma length_links [simp]:
  "length (pushed_front b bs) = length bs" "length (unlinked b bs) = length bs"
  by (simp_all add: pushed_front_def unlinked_def Let_def)

text \<open>A buffer without its links.\<close>

definition core :: "buf \<Rightarrow> buf" where
  "core b = b\<lparr>b_prev := 0, b_next := 0\<rparr>"

lemma core_simps [simp]:
  "b_flags (core b) = b_flags b" "b_dev (core b) = b_dev b" "b_blockno (core b) = b_blockno b"
  "b_refcnt (core b) = b_refcnt b" "b_data (core b) = b_data b"
  "core (b_next_update f b) = core b" "core (b_prev_update f b) = core b"
  by (simp_all add: core_def)

lemma core_update: "core v = core (bs ! j) \<Longrightarrow> core (bs[j := v] ! i) = core (bs ! i)"
  by (metis list_update_beyond nth_list_update not_le)

lemma core_links [simp]: "core (pushed_front b bs ! i) = core (bs ! i)" "core (unlinked b bs ! i) = core (bs ! i)"
  by (simp_all add: pushed_front_def unlinked_def Let_def core_update)

lemma core_eqD:
  assumes "core a = core b"
  shows "b_flags a = b_flags b" "b_dev a = b_dev b" "b_blockno a = b_blockno b"
    "b_refcnt a = b_refcnt b" "b_data a = b_data b"
  using arg_cong [OF assms, of b_flags] arg_cong [OF assms, of b_dev] arg_cong [OF assms, of b_blockno]
    arg_cong [OF assms, of b_refcnt] arg_cong [OF assms, of b_data] by simp_all

lemmas links_fields [simp] = core_links [THEN core_eqD(1)] core_links [THEN core_eqD(2)]
  core_links [THEN core_eqD(3)] core_links [THEN core_eqD(4)] core_links [THEN core_eqD(5)]

lemma linked_range:
  assumes "linked xs bs" "b \<le> NBUF"
  shows "b_next (bs ! b) \<le> NBUF" "b_prev (bs ! b) \<le> NBUF"
proof -
  let ?nx = "\<lambda>i. b_next (bs ! i)" and ?pv = "\<lambda>i. b_prev (bs ! i)"
  have range: "chain nx pv a (ys @ [NBUF]) \<Longrightarrow> set ys \<subseteq> {..<NBUF} \<Longrightarrow> i \<in> insert a (set ys) \<Longrightarrow> nx i \<le> NBUF"
    for nx pv a ys i by (induction ys arbitrary: a) auto
  have r: "ring ?nx ?pv NBUF xs" "set xs = {..<NBUF}" using assms by (auto simp: linked_def)
  have c: "chain ?nx ?pv NBUF (xs @ [NBUF])" "chain ?pv ?nx NBUF (rev xs @ [NBUF])"
    using r(1) ring_rev [OF r(1)] by (simp_all only: ring_def)
  have b: "b \<in> insert NBUF (set xs)" "b \<in> insert NBUF (set (rev xs))"
    using assms(2) by (simp_all add: r(2) le_less disj_commute)
  show "b_next (bs ! b) \<le> NBUF" using range [OF c(1) _ b(1)] r(2) by simp
  show "b_prev (bs ! b) \<le> NBUF" using range [OF c(2) _ b(2)] r(2) by simp
qed

lemma linked_move_front:
  assumes "linked xs bs" "b < NBUF"
  shows "linked (b # remove1 b xs) (pushed_front b (unlinked b bs))"
proof -
  let ?nx = "\<lambda>i. b_next (bs ! i)" and ?pv = "\<lambda>i. b_prev (bs ! i)"
  have d: "distinct xs" "set xs = {..<NBUF}" "length bs = Suc NBUF" and r: "ring ?nx ?pv NBUF xs"
    using assms by (auto simp: linked_def)
  have range: "b_next (bs ! b) \<le> NBUF" "b_prev (bs ! b) \<le> NBUF"
    using linked_range [OF assms(1)] assms(2) by auto
  obtain ys zs where xs: "xs = ys @ b # zs" using d assms(2) by (metis lessThan_iff split_list)
  then have rem: "remove1 b xs = ys @ zs" using d by (simp add: remove1_append)
  let ?bs = "unlinked b bs"
  have ring1: "ring (\<lambda>i. b_next (?bs ! i)) (\<lambda>i. b_prev (?bs ! i)) NBUF (ys @ zs)"
    unfolding unlinked_links [OF d(3) range]
    using r d xs by (intro ring_unlink) auto
  have first: "b_next (?bs ! NBUF) = hd (ys @ zs @ [NBUF])" using ring_first [OF ring1] by simp
  have "hd (ys @ zs @ [NBUF]) \<in> insert NBUF (set ys \<union> set zs)"
    by (cases ys; cases zs) auto
  then have hd: "hd (ys @ zs @ [NBUF]) \<le> NBUF" "hd (ys @ zs @ [NBUF]) \<noteq> b"
    using d xs assms(2) by auto
  have "distinct (NBUF # b # ys @ zs)"
  proof -
    have "NBUF \<notin> set xs" using d by simp
    with d xs assms(2) show ?thesis by auto
  qed
  then have "ring (\<lambda>i. b_next (pushed_front b ?bs ! i)) (\<lambda>i. b_prev (pushed_front b ?bs ! i)) NBUF (b # ys @ zs)"
    unfolding pushed_front_links [of ?bs b, unfolded first, simplified, OF d(3) assms(2) hd [simplified]]
    using ring_push [OF ring1, of b] by (simp add: first)
  then show ?thesis using d xs rem by (auto simp: linked_def)
qed

section \<open>Uncontended use\<close>

text \<open>The running process is alone in the file system: no lock is held and nobody sleeps on one.\<close>

fun fs_chan :: "chan \<Rightarrow> bool" where
  "fs_chan (ChanBufLock b) = True"
| "fs_chan (ChanInode i) = True"
| "fs_chan ChanLog = True"
| "fs_chan _ = False"

definition fs_ctx :: "nat \<Rightarrow> 'a proc_state_scheme \<Rightarrow> bool" where
  "fs_ctx p s \<longleftrightarrow> proc_ctx p s \<and> (\<forall>l. free_lock l s) \<and>
     (\<forall>q\<in>set (ptable s). \<forall>c. p_state q = SLEEPING \<and> p_chan q = Some c \<longrightarrow> \<not> fs_chan c)"

lemma fs_ctxD: "fs_ctx p s \<Longrightarrow> proc_ctx p s" "fs_ctx p s \<Longrightarrow> free_lock l s" "fs_ctx p s \<Longrightarrow> cpu_ok s"
  by (auto simp: fs_ctx_def proc_ctx_def)

lemma wake_idle [simp]: "fs_ctx p s \<Longrightarrow> fs_chan c \<Longrightarrow> map (wake c) (ptable s) = ptable s"
  by (rule map_idI) (auto simp: fs_ctx_def wake_def)

text \<open>What the block layer leaves alone: everything but the cache, the disk, the sleep locks of
  the buffers and the saved interrupt flag.\<close>

definition bio_rest :: "'a bio_state_scheme \<Rightarrow> 'a bio_state_scheme" where
  "bio_rest s = s\<lparr>cpus := map (\<lambda>c. c\<lparr>intena := False\<rparr>) (cpus s),
     slocks := (\<lambda>l. case l of BufSl b \<Rightarrow> undefined | _ \<Rightarrow> slocks s l),
     bufs := [], disk := [], dwrites := []\<rparr>"

lemma map_intena_update:
  "map (\<lambda>c. c\<lparr>intena := False\<rparr>) ((cpus s)[i := (cpus s ! i)\<lparr>intena := b\<rparr>]) =
   map (\<lambda>c. c\<lparr>intena := False\<rparr>) (cpus s)"
  by (rule nth_equalityI; cases "i < length (cpus s)") (auto simp: nth_list_update)

lemma bio_rest_simps [simp]:
  "bio_rest (noted s) = bio_rest s" "bio_rest (set_buf i f s) = bio_rest s"
  "bio_rest (set_sl (BufSl b) g s) = bio_rest s" "bio_rest (disk_write n d s) = bio_rest s"
  "bio_rest (bufs_update h s) = bio_rest s" "bio_rest (disk_update k s) = bio_rest s"
  "bio_rest (dwrites_update w s) = bio_rest s"
  by (simp_all add: bio_rest_def noted_def set_cpu_def set_buf_def set_sl_def disk_write_def
      map_intena_update fun_eq_iff split: slid.split)

lemma first_index_map: "first_index P (map f xs) = first_index (\<lambda>x. P (f x)) xs"
  by (induction xs) auto

lemma bio_rest_context:
  "cur (bio_rest s) = cur s" "free_lock l (bio_rest s) = free_lock l s" "ptable (bio_rest s) = ptable s"
  "slocks (bio_rest s) (InodeSl i) = slocks s (InodeSl i)"
  by (simp_all add: bio_rest_def cur_def take_map first_index_map free_lock_def)

lemma fs_ctx_rest: "fs_ctx p (bio_rest s) = fs_ctx p s"
proof -
  let ?r = "bio_rest s"
  let ?i = "\<lambda>s. first_index (\<lambda>c. apicid c = lapicid s) (take (ncpu s) (cpus s))"
  have i: "?i ?r = ?i s" by (simp add: bio_rest_def take_map first_index_map)
  show ?thesis
  proof (cases "?i s")
    case None
    with i show ?thesis by (simp add: fs_ctx_def proc_ctx_def cpu_ok_def)
  next
    case (Some k)
    then have "cur s = k" "k < length (cpus s)" by (auto simp: cur_def dest: first_index_lt)
    then have "cpus ?r ! cur ?r = (cpus s ! cur s)\<lparr>intena := False\<rparr>"
      by (simp add: bio_rest_context) (simp add: bio_rest_def)
    moreover have "FL_IF ?r = FL_IF s" by (simp add: bio_rest_def)
    ultimately show ?thesis
      using i by (simp add: fs_ctx_def proc_ctx_def cpu_ok_def curproc_def bio_rest_context)
  qed
qed

lemma rest_fs_ctx: "bio_rest t = bio_rest s \<Longrightarrow> fs_ctx p s \<Longrightarrow> fs_ctx p t"
  by (metis fs_ctx_rest)

section \<open>The abstract view\<close>

definition bvalid :: "buf \<Rightarrow> bool" where
  "bvalid b = bit (b_flags b) 1"

definition bdirty :: "buf \<Rightarrow> bool" where
  "bdirty b = bit (b_flags b) 2"

definition blocked :: "'a bio_state_scheme \<Rightarrow> nat \<Rightarrow> bool" where
  "blocked s i \<longleftrightarrow> sl_locked (slocks s (BufSl i)) \<noteq> 0"

definition bio_ok :: "'a bio_state_scheme \<Rightarrow> bool" where
  "bio_ok s \<longleftrightarrow> (\<exists>xs. linked xs (bufs s)) \<and>
     (\<forall>d\<in>set (disk s). length d = BSIZE) \<and> length (disk s) < 2 ^ 32 \<and>
     (\<forall>i<NBUF. let b = bufs s ! i in
        length (b_data b) = BSIZE \<and>
        b_refcnt b = (if blocked s i then 1 else 0) \<and>
        (blocked s i \<or> bdirty b \<longrightarrow> bvalid b) \<and>
        (bvalid b \<longrightarrow> b_dev b = 1 \<and> unat (b_blockno b) < length (disk s)) \<and>
        (bvalid b \<and> \<not> bdirty b \<and> \<not> blocked s i \<longrightarrow> b_data b = disk s ! unat (b_blockno b))) \<and>
     (\<forall>i<NBUF. \<forall>j<NBUF. b_dev (bufs s ! i) = 1 \<and> b_dev (bufs s ! j) = 1 \<and>
        b_blockno (bufs s ! i) = b_blockno (bufs s ! j) \<longrightarrow> i = j)"

text \<open>The buffer \<open>b\<close> holds block \<open>n\<close> for the caller.\<close>

definition buf_at :: "'a bio_state_scheme \<Rightarrow> nat \<Rightarrow> nat \<Rightarrow> bool" where
  "buf_at s b n \<longleftrightarrow> b < NBUF \<and> blocked s b \<and> unat (b_blockno (bufs s ! b)) = n"

definition cached :: "buf list \<Rightarrow> nat \<Rightarrow> nat option" where
  "cached bs n = find (\<lambda>i. bvalid (bs ! i) \<and> unat (b_blockno (bs ! i)) = n) [0..<NBUF]"

record bview =
  v_blk :: "nat \<Rightarrow> block"
  v_disk :: "block list"
  v_writes :: "(nat \<times> block) list"
  v_held :: "nat set"
  v_pinned :: "nat set"

definition blk :: "'a bio_state_scheme \<Rightarrow> nat \<Rightarrow> block" where
  "blk s n = (if n < length (disk s) then
     (case cached (bufs s) n of None \<Rightarrow> disk s ! n | Some i \<Rightarrow> b_data (bufs s ! i)) else [])"

definition bview :: "'a bio_state_scheme \<Rightarrow> bview" where
  "bview s = \<lparr>v_blk = blk s, v_disk = disk s, v_writes = dwrites s,
     v_held = {unat (b_blockno (bufs s ! i)) |i. i < NBUF \<and> blocked s i},
     v_pinned = {unat (b_blockno (bufs s ! i)) |i. i < NBUF \<and> bdirty (bufs s ! i)}\<rparr>"

lemma bio_okD:
  assumes "bio_ok s" "i < NBUF"
  shows "length (b_data (bufs s ! i)) = BSIZE" "b_refcnt (bufs s ! i) = (if blocked s i then 1 else 0)"
    "blocked s i \<Longrightarrow> bvalid (bufs s ! i)" "bdirty (bufs s ! i) \<Longrightarrow> bvalid (bufs s ! i)"
    "bvalid (bufs s ! i) \<Longrightarrow> b_dev (bufs s ! i) = 1"
    "bvalid (bufs s ! i) \<Longrightarrow> unat (b_blockno (bufs s ! i)) < length (disk s)"
    "bvalid (bufs s ! i) \<Longrightarrow> \<not> bdirty (bufs s ! i) \<Longrightarrow> \<not> blocked s i \<Longrightarrow>
       b_data (bufs s ! i) = disk s ! unat (b_blockno (bufs s ! i))"
  using assms by (auto simp: bio_ok_def Let_def)

lemma bio_ok_unique:
  assumes "bio_ok s" "i < NBUF" "j < NBUF" "bvalid (bufs s ! i)" "bvalid (bufs s ! j)"
    "unat (b_blockno (bufs s ! i)) = unat (b_blockno (bufs s ! j))"
  shows "i = j"
proof -
  have "b_blockno (bufs s ! i) = b_blockno (bufs s ! j)" using assms(6) by (simp add: word_unat_eq_iff)
  with assms bio_okD(5) [OF assms(1)] show ?thesis unfolding bio_ok_def by blast
qed

lemma cached_valid:
  assumes "bio_ok s" "i < NBUF" "bvalid (bufs s ! i)"
  shows "cached (bufs s) (unat (b_blockno (bufs s ! i))) = Some i"
proof -
  let ?P = "\<lambda>j. bvalid (bufs s ! j) \<and> unat (b_blockno (bufs s ! j)) = unat (b_blockno (bufs s ! i))"
  obtain j where j: "find ?P [0..<NBUF] = Some j"
    using assms(2,3) by (cases "find ?P [0..<NBUF]") (auto simp: find_None_iff)
  then have "j < NBUF" "?P j" by (auto simp: find_Some_iff)
  with assms bio_ok_unique [OF assms(1), of j i] j show ?thesis by (simp add: cached_def)
qed

lemma cached_None:
  "cached bs n = None \<longleftrightarrow> (\<forall>i<NBUF. bvalid (bs ! i) \<longrightarrow> unat (b_blockno (bs ! i)) \<noteq> n)"
  by (auto simp: cached_def find_None_iff)

lemma cached_Some:
  "cached bs n = Some i \<Longrightarrow> i < NBUF \<and> bvalid (bs ! i) \<and> unat (b_blockno (bs ! i)) = n"
  by (auto simp: cached_def find_Some_iff)

lemma buf_at_data:
  assumes "bio_ok s" "buf_at s b n"
  shows "b_data (bufs s ! b) = blk s n" "n < length (disk s)" "length (blk s n) = BSIZE"
    "n \<in> v_held (bview s)" "bvalid (bufs s ! b)"
proof -
  have b: "b < NBUF" "blocked s b" "n = unat (b_blockno (bufs s ! b))" using assms by (auto simp: buf_at_def)
  show v: "bvalid (bufs s ! b)" using bio_okD(3) assms b by blast
  show n: "n < length (disk s)" using bio_okD(6) assms b v by blast
  show d: "b_data (bufs s ! b) = blk s n"
    using cached_valid [OF assms(1) b(1) v] n b(3) by (simp add: blk_def)
  then show "length (blk s n) = BSIZE" using bio_okD(1) assms b by metis
  show "n \<in> v_held (bview s)" using b by (auto simp: bview_def)
qed

lemma blk_eqI:
  assumes "n < length (disk t)"
    and "\<And>i. i < NBUF \<Longrightarrow> bvalid (bufs t ! i) \<Longrightarrow> unat (b_blockno (bufs t ! i)) = n \<Longrightarrow> b_data (bufs t ! i) = x"
    and "(\<And>i. i < NBUF \<Longrightarrow> bvalid (bufs t ! i) \<Longrightarrow> unat (b_blockno (bufs t ! i)) \<noteq> n) \<Longrightarrow> disk t ! n = x"
  shows "blk t n = x"
  using assms by (auto simp: blk_def cached_None dest!: cached_Some split: option.split)

lemma blk_cached:
  "bio_ok s \<Longrightarrow> i < NBUF \<Longrightarrow> bvalid (bufs s ! i) \<Longrightarrow> blk s (unat (b_blockno (bufs s ! i))) = b_data (bufs s ! i)"
  using bio_okD(6) by (auto simp: blk_def cached_valid)

lemma blk_uncached:
  "n < length (disk s) \<Longrightarrow> (\<And>i. i < NBUF \<Longrightarrow> bvalid (bufs s ! i) \<Longrightarrow> unat (b_blockno (bufs s ! i)) \<noteq> n) \<Longrightarrow>
   blk s n = disk s ! n"
  by (rule blk_eqI) auto

text \<open>A block that is neither held nor pinned has its contents on the disk.\<close>

lemma blk_clean:
  assumes "bio_ok s" "n < length (disk s)" "n \<notin> v_held (bview s)" "n \<notin> v_pinned (bview s)"
  shows "blk s n = disk s ! n"
proof (rule blk_eqI [OF assms(2)])
  fix i assume "i < NBUF" "bvalid (bufs s ! i)" "unat (b_blockno (bufs s ! i)) = n"
  moreover from this assms(3,4) have "\<not> blocked s i" "\<not> bdirty (bufs s ! i)" by (auto simp: bview_def)
  ultimately show "b_data (bufs s ! i) = disk s ! n" using bio_okD(7) [OF assms(1)] by metis
qed simp

lemma blk_length: "bio_ok s \<Longrightarrow> n < length (disk s) \<Longrightarrow> length (blk s n) = BSIZE"
  by (auto simp: blk_def bio_ok_def Let_def dest!: cached_Some split: option.split)

lemma blk_beyond: "length (disk s) \<le> n \<Longrightarrow> blk s n = []"
  by (simp add: blk_def)

text \<open>The flags.\<close>

lemma flag_bits [simp]:
  "(f AND B_VALID = 0) = (\<not> bit f 1)" "(f AND B_DIRTY = 0) = (\<not> bit f 2)"
  "(f AND (B_VALID OR B_DIRTY) = B_VALID) = (bit f 1 \<and> \<not> bit f 2)"
proof -
  have bits: "bit B_VALID n \<longleftrightarrow> n = 1" "bit B_DIRTY n \<longleftrightarrow> n = 2" for n
    using bit_exp_iff [where 'a = uint, of 1 n] bit_exp_iff [where 'a = uint, of 2 n]
    by (auto simp: B_VALID_def B_DIRTY_def)
  show "(f AND B_VALID = 0) = (\<not> bit f 1)"
    unfolding bit_eq_iff [of "f AND B_VALID" 0] by (auto simp: bit_simps bits dest: spec [of _ 1])
  show "(f AND B_DIRTY = 0) = (\<not> bit f 2)"
    unfolding bit_eq_iff [of "f AND B_DIRTY" 0] by (auto simp: bit_simps bits dest: spec [of _ 2])
  show "(f AND (B_VALID OR B_DIRTY) = B_VALID) = (bit f 1 \<and> \<not> bit f 2)"
  proof
    assume e: "f AND (B_VALID OR B_DIRTY) = B_VALID"
    show "bit f 1 \<and> \<not> bit f 2"
      using arg_cong [OF e, of "\<lambda>x. bit x 1"] arg_cong [OF e, of "\<lambda>x. bit x 2"] by (simp add: bit_simps bits)
  next
    assume "bit f 1 \<and> \<not> bit f 2"
    then show "f AND (B_VALID OR B_DIRTY) = B_VALID" by (intro bit_word_eqI) (auto simp: bit_simps bits)
  qed
qed

lemma flag_update [simp]:
  "bit (f OR B_VALID) 1" "bit (f OR B_DIRTY) 1 = bit f 1" "bit (f AND NOT B_DIRTY) 1 = bit f 1"
  "bit (f OR B_VALID) 2 = bit f 2" "bit (f OR B_DIRTY) 2" "\<not> bit (f AND NOT B_DIRTY) 2"
proof -
  have bits: "bit B_VALID n \<longleftrightarrow> n = 1" "bit B_DIRTY n \<longleftrightarrow> n = 2" for n
    using bit_exp_iff [where 'a = uint, of 1 n] bit_exp_iff [where 'a = uint, of 2 n]
    by (auto simp: B_VALID_def B_DIRTY_def)
  show "bit (f OR B_VALID) 1" "bit (f OR B_DIRTY) 1 = bit f 1" "bit (f AND NOT B_DIRTY) 1 = bit f 1"
    "bit (f OR B_VALID) 2 = bit f 2" "bit (f OR B_DIRTY) 2" "\<not> bit (f AND NOT B_DIRTY) 2"
    by (simp_all add: bit_simps bits)
qed

declare flag_bits [unfolded One_nat_def, simp] flag_update [unfolded One_nat_def, simp]

section \<open>Reading a block\<close>

lemma bget_hit:
  assumes c: "fs_ctx p s" and l: "linked xs (bufs s)"
    and f: "find (\<lambda>i. b_dev (bufs s ! i) = dev \<and> b_blockno (bufs s ! i) = n) xs = Some b"
    and u: "\<not> blocked s b"
  shows "bget dev n s env =
    Ok b (noted (sl_taken (BufSl b) p (set_buf b (b_refcnt_update (\<lambda>r. r + 1)) s))) env"
  using fs_ctxD [OF c] u
  by (simp add: bget_def kmonad walkK_eval [of xs] l f acquiresleep_free [of p] blocked_def)

lemma bget_miss:
  assumes c: "fs_ctx p s" and l: "linked xs (bufs s)"
    and m: "find (\<lambda>i. b_dev (bufs s ! i) = dev \<and> b_blockno (bufs s ! i) = n) xs = None"
    and f: "find (\<lambda>i. b_refcnt (bufs s ! i) = 0 \<and> b_flags (bufs s ! i) AND B_DIRTY = 0) (rev xs) = Some b"
    and u: "\<not> blocked s b"
  shows "bget dev n s env = Ok b (noted (sl_taken (BufSl b) p
    (set_buf b (\<lambda>x. x\<lparr>b_dev := dev, b_blockno := n, b_flags := 0, b_refcnt := 1\<rparr>) s))) env"
proof -
  have "b < NBUF" using find_SomeD [OF f] l by (simp add: linked_def)
  then have "b < length (bufs s)" using l by (simp add: linked_def)
  then have e: "set_buf b (b_refcnt_update (\<lambda>_. 1)) (set_buf b (b_flags_update (\<lambda>_. 0))
    (set_buf b (b_blockno_update (\<lambda>_. n)) (set_buf b (b_dev_update (\<lambda>_. dev)) s))) =
    set_buf b (\<lambda>x. x\<lparr>b_dev := dev, b_blockno := n, b_flags := 0, b_refcnt := 1\<rparr>) s"
    by (simp add: set_buf_def)
  show ?thesis
    using fs_ctxD [OF c] u
    by (simp add: bget_def kmonad walkK_eval [of xs] l m f [simplified] acquiresleep_free [of p] blocked_def e)
qed

lemma iderw_read:
  assumes "cpu_ok s" "free_lock (BufLock b) s" "blocked s b" "b < length (bufs s)"
    "\<not> bvalid (bufs s ! b)" "\<not> bdirty (bufs s ! b)" "b_dev (bufs s ! b) = 1"
    "unat (b_blockno (bufs s ! b)) < length (disk s)"
  shows "iderw b s env = Ok () (noted (set_buf b (\<lambda>x. x\<lparr>b_data := disk s ! unat (b_blockno (bufs s ! b)),
    b_flags := b_flags x OR B_VALID\<rparr>) s)) env"
proof -
  have e: "set_buf b (b_flags_update f) (set_buf b (b_data_update g) s) =
      set_buf b (\<lambda>x. x\<lparr>b_data := g (b_data x), b_flags := f (b_flags x)\<rparr>) s" for f g
    using assms(4) by (cases "bufs s ! b") (simp add: set_buf_def)
  show ?thesis
    using assms by (simp add: iderw_def kmonad blocked_def bvalid_def bdirty_def e)
qed

lemma iderw_write:
  assumes "cpu_ok s" "free_lock (BufLock b) s" "blocked s b" "b < length (bufs s)"
    "bdirty (bufs s ! b)" "b_dev (bufs s ! b) = 1"
    "unat (b_blockno (bufs s ! b)) < length (disk s)"
  shows "iderw b s env = Ok () (noted (set_buf b (b_flags_update (\<lambda>f. f AND NOT B_DIRTY OR B_VALID))
    (disk_write (unat (b_blockno (bufs s ! b))) (b_data (bufs s ! b)) s))) env"
proof -
  have e: "set_buf b (b_flags_update f) (disk_write n d (set_buf b (b_flags_update g) s)) =
      set_buf b (b_flags_update (\<lambda>x. f (g x))) (disk_write n d s)" for f g n d
    using assms(4) by (simp add: set_buf_def disk_write_def comp_def)
  show ?thesis
    using assms by (simp add: iderw_def kmonad blocked_def bdirty_def e)
qed

text \<open>Taking over the unlocked buffer \<open>b\<close> for block \<open>n\<close>, with its contents in \<open>x\<close>.\<close>

definition takes :: "'a bio_state_scheme \<Rightarrow> nat \<Rightarrow> nat \<Rightarrow> buf \<Rightarrow> 'a bio_state_scheme \<Rightarrow> bool" where
  "takes s b n x t \<longleftrightarrow> bio_ok s \<and> n < length (disk s) \<and> b < NBUF \<and> \<not> blocked s b \<and>
     bufs t = (bufs s)[b := x] \<and> disk t = disk s \<and> dwrites t = dwrites s \<and>
     (\<forall>i. blocked t i \<longleftrightarrow> i = b \<or> blocked s i) \<and>
     b_dev x = 1 \<and> unat (b_blockno x) = n \<and> bvalid x \<and> b_refcnt x = 1 \<and> b_data x = blk s n \<and>
     b_next x = b_next (bufs s ! b) \<and> b_prev x = b_prev (bufs s ! b) \<and>
     bdirty x = bdirty (bufs s ! b) \<and> (bdirty x \<longrightarrow> unat (b_blockno (bufs s ! b)) = n) \<and>
     (\<forall>i<NBUF. i \<noteq> b \<and> b_dev (bufs s ! i) = 1 \<longrightarrow> unat (b_blockno (bufs s ! i)) \<noteq> n)"

lemma takes_nth: "takes s b n x t \<Longrightarrow> i < NBUF \<Longrightarrow> bufs t ! i = (if i = b then x else bufs s ! i)"
  by (auto simp: takes_def bio_ok_def linked_def nth_list_update)

lemma takes_blk:
  assumes tk: "takes s b n x t"
  shows "blk t = blk s"
proof
  fix m
  have ok: "bio_ok s" and d: "disk t = disk s" and b: "b < NBUF" "\<not> blocked s b"
    and x: "unat (b_blockno x) = n" "b_data x = blk s n" "bvalid x"
    and old: "bdirty x = bdirty (bufs s ! b)" "bdirty x \<longrightarrow> unat (b_blockno (bufs s ! b)) = n"
    using tk by (auto simp: takes_def)
  show "blk t m = blk s m"
  proof (cases "m < length (disk s)")
    case True
    show ?thesis
    proof (rule blk_eqI)
      fix i assume i: "i < NBUF" "bvalid (bufs t ! i)" "unat (b_blockno (bufs t ! i)) = m"
      then show "b_data (bufs t ! i) = blk s m"
        using x blk_cached [OF ok i(1)] takes_nth [OF tk i(1)] by (cases "i = b") auto
    next
      assume none: "\<And>i. i < NBUF \<Longrightarrow> bvalid (bufs t ! i) \<Longrightarrow> unat (b_blockno (bufs t ! i)) \<noteq> m"
      have mn: "m \<noteq> n" using none [OF b(1)] x takes_nth [OF tk b(1)] by auto
      show "disk t ! m = blk s m"
        unfolding d
      proof (rule blk_eqI [symmetric, OF True])
        fix i assume i: "i < NBUF" "bvalid (bufs s ! i)" "unat (b_blockno (bufs s ! i)) = m"
        then have "i = b" using none [OF i(1)] takes_nth [OF tk i(1)] by (cases "i = b") auto
        with i mn old have "\<not> bdirty (bufs s ! i)" by auto
        with i b \<open>i = b\<close> show "b_data (bufs s ! i) = disk s ! m" using bio_okD(7) [OF ok i(1)] by simp
      qed simp
    qed (simp add: d True)
  qed (simp add: blk_beyond d)
qed

lemma takes_view:
  assumes tk: "takes s b n x t"
  shows "bview t = (bview s)\<lparr>v_held := insert n (v_held (bview s))\<rparr>"
proof -
  have bt: "\<And>i. blocked t i \<longleftrightarrow> i = b \<or> blocked s i" "unat (b_blockno x) = n" "b < NBUF" "\<not> blocked s b"
    and old: "bdirty x = bdirty (bufs s ! b)" "bdirty x \<longrightarrow> unat (b_blockno (bufs s ! b)) = n"
    using tk by (auto simp: takes_def)
  note nth = takes_nth [OF tk]
  have "(\<exists>i. m = unat (b_blockno (bufs t ! i)) \<and> i < NBUF \<and> blocked t i) \<longleftrightarrow>
      m = n \<or> (\<exists>i. m = unat (b_blockno (bufs s ! i)) \<and> i < NBUF \<and> blocked s i)" for m
    using bt nth by (metis (no_types))
  moreover have "(\<exists>i. m = unat (b_blockno (bufs t ! i)) \<and> i < NBUF \<and> bdirty (bufs t ! i)) \<longleftrightarrow>
      (\<exists>i. m = unat (b_blockno (bufs s ! i)) \<and> i < NBUF \<and> bdirty (bufs s ! i))" for m
    using bt(2) old nth by (metis (no_types))
  ultimately show ?thesis using tk by (auto simp: bview_def takes_blk [OF tk] takes_def)
qed

lemma takes_ok:
  assumes tk: "takes s b n x t"
  shows "bio_ok t"
proof -
  have ok: "bio_ok s" and n: "n < length (disk s)" and b: "b < NBUF" "\<not> blocked s b"
    and t: "bufs t = (bufs s)[b := x]" "disk t = disk s" "\<And>i. blocked t i \<longleftrightarrow> i = b \<or> blocked s i"
    and x: "b_dev x = 1" "unat (b_blockno x) = n" "bvalid x" "b_refcnt x = 1" "b_data x = blk s n"
      "b_next x = b_next (bufs s ! b)" "b_prev x = b_prev (bufs s ! b)"
    and old: "\<And>i. i < NBUF \<Longrightarrow> i \<noteq> b \<Longrightarrow> b_dev (bufs s ! i) = 1 \<Longrightarrow> unat (b_blockno (bufs s ! i)) \<noteq> n"
    using tk by (auto simp: takes_def)
  note nth = takes_nth [OF tk]
  obtain xs where "linked xs (bufs s)" using ok by (auto simp: bio_ok_def)
  then have l: "\<exists>xs. linked xs (bufs t)"
    using linked_update [of xs "bufs s" "\<lambda>_. x" b] x by (auto simp: t)
  have d: "\<forall>d\<in>set (disk t). length d = BSIZE" "length (disk t) < 2 ^ 32"
    using ok by (auto simp: t bio_ok_def)
  have each: "\<forall>i<NBUF. let c = bufs t ! i in
        length (b_data c) = BSIZE \<and> b_refcnt c = (if blocked t i then 1 else 0) \<and>
        (blocked t i \<or> bdirty c \<longrightarrow> bvalid c) \<and>
        (bvalid c \<longrightarrow> b_dev c = 1 \<and> unat (b_blockno c) < length (disk t)) \<and>
        (bvalid c \<and> \<not> bdirty c \<and> \<not> blocked t i \<longrightarrow> b_data c = disk t ! unat (b_blockno c))"
  proof (intro allI impI)
    fix i assume "i < NBUF"
    then show "let c = bufs t ! i in
        length (b_data c) = BSIZE \<and> b_refcnt c = (if blocked t i then 1 else 0) \<and>
        (blocked t i \<or> bdirty c \<longrightarrow> bvalid c) \<and>
        (bvalid c \<longrightarrow> b_dev c = 1 \<and> unat (b_blockno c) < length (disk t)) \<and>
        (bvalid c \<and> \<not> bdirty c \<and> \<not> blocked t i \<longrightarrow> b_data c = disk t ! unat (b_blockno c))"
      using x n ok blk_length [OF ok n] nth [of i] t by (cases "i = b") (auto simp: bio_ok_def Let_def)
  qed
  have u: "unat (b_blockno (bufs s ! i)) \<noteq> unat (b_blockno (bufs s ! j))"
    if "i < NBUF" "j < NBUF" "b_dev (bufs s ! i) = 1" "b_dev (bufs s ! j) = 1" "i \<noteq> j" for i j
    using ok that unfolding bio_ok_def word_unat_eq_iff [symmetric] by blast
  have "unat (b_blockno (bufs t ! i)) \<noteq> unat (b_blockno (bufs t ! j))"
    if "i < NBUF" "j < NBUF" "b_dev (bufs t ! i) = 1" "b_dev (bufs t ! j) = 1" "i \<noteq> j" for i j
    using that x(2) old [of i] old [of j] nth [of i] nth [of j] u [of i j] by (cases "i = b"; cases "j = b") auto
  then have "\<forall>i<NBUF. \<forall>j<NBUF. b_dev (bufs t ! i) = 1 \<and> b_dev (bufs t ! j) = 1 \<and>
      b_blockno (bufs t ! i) = b_blockno (bufs t ! j) \<longrightarrow> i = j" by metis
  with l d each show ?thesis unfolding bio_ok_def by (intro conjI) simp_all
qed

lemma view_finite: "finite (v_held (bview s))" "finite (v_pinned (bview s))"
  by (simp_all add: bview_def setcompr_eq_image)

lemma free_buffer:
  assumes ok: "bio_ok s" and room: "card (v_held (bview s) \<union> v_pinned (bview s)) < NBUF"
  shows "\<exists>i<NBUF. \<not> blocked s i \<and> \<not> bdirty (bufs s ! i)"
proof (rule ccontr)
  assume "\<not> ?thesis"
  then have all: "blocked s i \<or> bdirty (bufs s ! i)" if "i < NBUF" for i using that by blast
  then have v: "bvalid (bufs s ! i)" if "i < NBUF" for i using that bio_okD(3,4) [OF ok] by blast
  let ?f = "\<lambda>i. unat (b_blockno (bufs s ! i))"
  have "inj_on ?f {..<NBUF}" using bio_ok_unique [OF ok] v by (auto intro!: inj_onI)
  then have "card (?f ` {..<NBUF}) = NBUF" by (simp add: card_image)
  moreover have "?f ` {..<NBUF} \<subseteq> v_held (bview s) \<union> v_pinned (bview s)"
    using all by (auto simp: bview_def)
  ultimately show False using room card_mono [of "v_held (bview s) \<union> v_pinned (bview s)" "?f ` {..<NBUF}"]
    by (simp add: view_finite)
qed

lemma blocked_simps [simp]:
  "blocked (noted s) i = blocked s i" "blocked (set_buf j f s) i = blocked s i"
  "blocked (disk_write n d s) i = blocked s i" "blocked (bufs_update h s) i = blocked s i"
  "blocked (sl_taken (BufSl b) p s) i \<longleftrightarrow> i = b \<or> blocked s i"
  "blocked (sl_given (BufSl b) s) i \<longleftrightarrow> i \<noteq> b \<and> blocked s i"
  by (auto simp: blocked_def sl_taken_def sl_given_def set_sl_def)

lemma bio_rest_taken [simp]: "bio_rest (sl_taken (BufSl b) p s) = bio_rest s"
  by (simp add: sl_taken_def)

lemma takes_buf_at: "takes s b n x t \<Longrightarrow> buf_at s c m \<Longrightarrow> buf_at t c m"
  using takes_nth [of s b n x t c] by (cases "c = b") (auto simp: buf_at_def takes_def)

lemma takes_at: "takes s b n x t \<Longrightarrow> buf_at t b n"
  using takes_nth [of s b n x t b] by (auto simp: buf_at_def takes_def)

text \<open>Both ways of \<open>bget\<close> lead to a buffer that is then read if it is not valid.\<close>

lemma bread_via:
  assumes c: "fs_ctx p s" and ok: "bio_ok s" and n: "unat n < length (disk s)"
    and get: "\<And>env. bget 1 n s env = Ok b (noted (sl_taken (BufSl b) p (set_buf b g s))) env"
    and b: "b < NBUF" "\<not> blocked s b"
    and x: "b_dev (g (bufs s ! b)) = 1" "b_blockno (g (bufs s ! b)) = n" "b_refcnt (g (bufs s ! b)) = 1"
      "b_next (g (bufs s ! b)) = b_next (bufs s ! b)" "b_prev (g (bufs s ! b)) = b_prev (bufs s ! b)"
      "bdirty (g (bufs s ! b)) = bdirty (bufs s ! b)"
      "bvalid (g (bufs s ! b)) \<Longrightarrow> bvalid (bufs s ! b) \<and> b_blockno (bufs s ! b) = n \<and>
         b_data (g (bufs s ! b)) = b_data (bufs s ! b)"
      "\<not> bvalid (g (bufs s ! b)) \<Longrightarrow> \<not> bdirty (bufs s ! b) \<and> (b_blockno (bufs s ! b) = n \<longrightarrow> \<not> bvalid (bufs s ! b))"
    and old: "\<forall>i<NBUF. i \<noteq> b \<and> b_dev (bufs s ! i) = 1 \<longrightarrow> unat (b_blockno (bufs s ! i)) \<noteq> unat n"
  shows "\<exists>t y. (\<forall>env. bread 1 n s env = Ok b t env) \<and> takes s b (unat n) y t \<and> bio_rest t = bio_rest s"
proof -
  let ?u = "noted (sl_taken (BufSl b) p (set_buf b g s))" and ?x = "g (bufs s ! b)"
  have len: "length (bufs s) = Suc NBUF" using ok by (auto simp: bio_ok_def linked_def)
  show ?thesis
  proof (cases "bvalid ?x")
    case True
    then have "bread 1 n s env = Ok b ?u env" for env
      using len b by (simp add: bread_def kmonad get bvalid_def)
    moreover have "takes s b (unat n) ?x ?u"
      using True x ok n b old blk_cached [OF ok b(1)] by (auto simp: takes_def)
    ultimately show ?thesis by (intro exI [of _ ?u] exI [of _ ?x]) simp
  next
    case False
    let ?y = "?x\<lparr>b_data := disk s ! unat n, b_flags := b_flags ?x OR B_VALID\<rparr>"
    let ?t = "noted (set_buf b (\<lambda>x. x\<lparr>b_data := disk s ! unat n, b_flags := b_flags x OR B_VALID\<rparr>) ?u)"
    have nd: "\<not> bdirty ?x" "\<not> bdirty (bufs s ! b)" using False x(6,8) by auto
    have "iderw b ?u env = Ok () ?t env" for env
      using iderw_read [of ?u b env] False nd x n b len fs_ctxD [OF c] by simp
    then have run: "bread 1 n s env = Ok b ?t env" for env
      using False len b by (simp add: bread_def kmonad get bvalid_def)
    have "blk s (unat n) = disk s ! unat n"
    proof (rule blk_uncached [OF n])
      fix i assume i: "i < NBUF" "bvalid (bufs s ! i)"
      then have "b_dev (bufs s ! i) = 1" using bio_okD(5) [OF ok] by blast
      with i old x(8) [OF False] show "unat (b_blockno (bufs s ! i)) \<noteq> unat n"
        by (cases "i = b") (auto simp: word_unat_eq_iff)
    qed
    then have "takes s b (unat n) ?y ?t"
      using False nd x ok n b old len by (auto simp: takes_def bvalid_def bdirty_def)
    with run show ?thesis by (intro exI [of _ ?t] exI [of _ ?y]) simp
  qed
qed

theorem bread_takes:
  assumes c: "fs_ctx p s" and ok: "bio_ok s" and n: "unat n < length (disk s)"
    and h: "unat n \<notin> v_held (bview s)"
    and room: "unat n \<in> v_pinned (bview s) \<or> card (v_held (bview s) \<union> v_pinned (bview s)) < NBUF"
  shows "\<exists>b t y. (\<forall>env. bread 1 n s env = Ok b t env) \<and> takes s b (unat n) y t \<and> bio_rest t = bio_rest s"
proof -
  let ?hit = "\<lambda>i. b_dev (bufs s ! i) = 1 \<and> b_blockno (bufs s ! i) = n"
  obtain xs where l: "linked xs (bufs s)" using ok by (auto simp: bio_ok_def)
  then have xs: "set xs = {..<NBUF}" by (simp add: linked_def)
  show ?thesis
  proof (cases "find ?hit xs")
    case (Some b)
    then have b: "b < NBUF" "?hit b" using find_SomeD [OF Some] xs by auto
    then have nb: "\<not> blocked s b" using h by (auto simp: bview_def)
    have old: "\<forall>i<NBUF. i \<noteq> b \<and> b_dev (bufs s ! i) = 1 \<longrightarrow> unat (b_blockno (bufs s ! i)) \<noteq> unat n"
      using ok b unfolding bio_ok_def word_unat_eq_iff [symmetric] by blast
    have "\<exists>t y. (\<forall>env. bread 1 n s env = Ok b t env) \<and> takes s b (unat n) y t \<and> bio_rest t = bio_rest s"
      using bget_hit [OF c l Some nb] b nb old bio_okD(2,4) [OF ok b(1)]
      by (intro bread_via [OF c ok n, of b "b_refcnt_update (\<lambda>r. r + 1)"]) (auto simp: bvalid_def bdirty_def)
    then show ?thesis by blast
  next
    case None
    let ?free = "\<lambda>i. b_refcnt (bufs s ! i) = 0 \<and> b_flags (bufs s ! i) AND B_DIRTY = 0"
    have none: "\<not> ?hit i" if "i < NBUF" for i using None that xs by (auto simp: find_None_iff)
    then have "unat n \<notin> v_pinned (bview s)"
      using bio_okD(4,5) [OF ok] by (auto simp: bview_def word_unat_eq_iff [symmetric])
    then obtain i where "i < NBUF" "\<not> blocked s i" "\<not> bdirty (bufs s ! i)"
      using free_buffer [OF ok] room by blast
    then have "?free i" "i \<in> set (rev xs)" using bio_okD(2) [OF ok] xs by (auto simp: bdirty_def)
    then obtain b where b: "find ?free (rev xs) = Some b" by (cases "find ?free (rev xs)") (auto simp: find_None_iff)
    then have free: "?free b" "b < NBUF" using find_SomeD [OF b] xs by auto
    then have nb: "\<not> blocked s b" using bio_okD(2) [OF ok free(2)] by (auto split: if_splits)
    have "\<exists>t y. (\<forall>env. bread 1 n s env = Ok b t env) \<and> takes s b (unat n) y t \<and> bio_rest t = bio_rest s"
      using bget_miss [OF c l None b nb] nb free none bio_okD(5) [OF ok free(2)]
      by (intro bread_via [OF c ok n, of b "\<lambda>x. x\<lparr>b_dev := 1, b_blockno := n, b_flags := 0, b_refcnt := 1\<rparr>"])
        (auto simp: bvalid_def bdirty_def word_unat_eq_iff [symmetric])
    then show ?thesis by blast
  qed
qed

section \<open>Changing a held buffer\<close>

definition changes :: "'a bio_state_scheme \<Rightarrow> nat \<Rightarrow> nat \<Rightarrow> buf \<Rightarrow> 'a bio_state_scheme \<Rightarrow> bool" where
  "changes s b n x t \<longleftrightarrow> bio_ok s \<and> buf_at s b n \<and> bufs t = (bufs s)[b := x] \<and>
     (\<forall>i. blocked t i \<longleftrightarrow> blocked s i) \<and>
     (\<exists>d. length d = BSIZE \<and> (disk t = disk s \<or> disk t = (disk s)[n := d])) \<and>
     b_dev x = b_dev (bufs s ! b) \<and> b_blockno x = b_blockno (bufs s ! b) \<and> bvalid x \<and>
     b_refcnt x = b_refcnt (bufs s ! b) \<and> length (b_data x) = BSIZE \<and>
     b_next x = b_next (bufs s ! b) \<and> b_prev x = b_prev (bufs s ! b)"

lemma changes_nth: "changes s b n x t \<Longrightarrow> i < NBUF \<Longrightarrow> bufs t ! i = (if i = b then x else bufs s ! i)"
  by (auto simp: changes_def buf_at_def bio_ok_def linked_def nth_list_update)

lemma changes_disk:
  assumes "changes s b n x t"
  shows "length (disk t) = length (disk s)" "m \<noteq> n \<Longrightarrow> disk t ! m = disk s ! m"
    "\<forall>d\<in>set (disk t). length d = BSIZE"
proof -
  show "length (disk t) = length (disk s)" "m \<noteq> n \<Longrightarrow> disk t ! m = disk s ! m"
    using assms by (auto simp: changes_def)
  have "set (disk t) \<subseteq> {d. length d = BSIZE}"
    using assms by (auto simp: changes_def bio_ok_def dest!: subsetD [OF set_update_subset_insert])
  then show "\<forall>d\<in>set (disk t). length d = BSIZE" by auto
qed

lemma changes_blk:
  assumes ch: "changes s b n x t"
  shows "blk t = (blk s)(n := b_data x)"
proof
  fix m
  have ok: "bio_ok s" and b: "b < NBUF" "unat (b_blockno x) = n" "bvalid x" "buf_at s b n"
    using ch by (auto simp: changes_def buf_at_def)
  note n = buf_at_data [OF ok b(4)]
  show "blk t m = ((blk s)(n := b_data x)) m"
  proof (cases "m < length (disk s)")
    case True
    show ?thesis
    proof (rule blk_eqI)
      fix i assume i: "i < NBUF" "bvalid (bufs t ! i)" "unat (b_blockno (bufs t ! i)) = m"
      have "i \<noteq> b \<Longrightarrow> m \<noteq> n"
        using i changes_nth [OF ch i(1)] bio_ok_unique [OF ok i(1) b(1)] n(5) b by (auto simp: buf_at_def)
      then show "b_data (bufs t ! i) = ((blk s)(n := b_data x)) m"
        using i b(2) blk_cached [OF ok i(1)] changes_nth [OF ch i(1)] by (cases "i = b") auto
    next
      assume none: "\<And>i. i < NBUF \<Longrightarrow> bvalid (bufs t ! i) \<Longrightarrow> unat (b_blockno (bufs t ! i)) \<noteq> m"
      have mn: "m \<noteq> n" using none [OF b(1)] b changes_nth [OF ch b(1)] by auto
      have "blk s m = disk s ! m"
      proof (rule blk_uncached [OF True])
        fix i assume i: "i < NBUF" "bvalid (bufs s ! i)"
        show "unat (b_blockno (bufs s ! i)) \<noteq> m"
          using i none [OF i(1)] mn b changes_nth [OF ch i(1)] by (cases "i = b") (auto simp: buf_at_def)
      qed
      then show "disk t ! m = ((blk s)(n := b_data x)) m" using mn changes_disk(2) [OF ch] by simp
    qed (simp add: changes_disk(1) [OF ch] True)
  next
    case False
    then show ?thesis using n(2) by (simp add: blk_beyond changes_disk(1) [OF ch])
  qed
qed

lemma changes_view:
  assumes ch: "changes s b n x t"
  shows "bview t = (bview s)\<lparr>v_blk := (blk s)(n := b_data x), v_disk := disk t, v_writes := dwrites t,
    v_pinned := (if bdirty x then insert n (v_pinned (bview s)) else v_pinned (bview s) - {n})\<rparr>"
proof -
  have ok: "bio_ok s" and bl: "\<And>i. blocked t i = blocked s i"
    and b: "b < NBUF" "unat (b_blockno x) = n" "unat (b_blockno (bufs s ! b)) = n" "bvalid (bufs s ! b)"
    using ch buf_at_data(5) [of s b n] by (auto simp: changes_def buf_at_def)
  note nth = changes_nth [OF ch]
  have "(\<exists>i. m = unat (b_blockno (bufs t ! i)) \<and> i < NBUF \<and> blocked t i) \<longleftrightarrow>
      (\<exists>i. m = unat (b_blockno (bufs s ! i)) \<and> i < NBUF \<and> blocked s i)" for m
    using b bl nth by (metis (no_types))
  moreover have "i = b" if "i < NBUF" "unat (b_blockno (bufs s ! i)) = n" "bdirty (bufs s ! i)" for i
    using that bio_ok_unique [OF ok that(1) b(1)] bio_okD(4) [OF ok that(1)] b by simp
  then have "(\<exists>i. m = unat (b_blockno (bufs t ! i)) \<and> i < NBUF \<and> bdirty (bufs t ! i)) \<longleftrightarrow>
      (if m = n then bdirty x else \<exists>i. m = unat (b_blockno (bufs s ! i)) \<and> i < NBUF \<and> bdirty (bufs s ! i))" for m
    using b nth by (metis (no_types))
  ultimately show ?thesis by (auto simp: bview_def changes_blk [OF ch])
qed

lemma changes_ok:
  assumes ch: "changes s b n x t"
  shows "bio_ok t"
proof -
  have ok: "bio_ok s" and bl: "\<And>i. blocked t i = blocked s i" and t: "bufs t = (bufs s)[b := x]"
    and b: "b < NBUF" "blocked s b" "unat (b_blockno (bufs s ! b)) = n" "buf_at s b n"
    and x: "b_dev x = b_dev (bufs s ! b)" "b_blockno x = b_blockno (bufs s ! b)" "bvalid x"
      "b_refcnt x = b_refcnt (bufs s ! b)" "length (b_data x) = BSIZE"
      "b_next x = b_next (bufs s ! b)" "b_prev x = b_prev (bufs s ! b)"
    using ch by (auto simp: changes_def buf_at_def)
  note nth = changes_nth [OF ch] and n = buf_at_data [OF ok b(4)]
  obtain xs where "linked xs (bufs s)" using ok by (auto simp: bio_ok_def)
  then have l: "\<exists>xs. linked xs (bufs t)"
    using linked_update [of xs "bufs s" "\<lambda>_. x" b] x by (auto simp: t)
  have d: "\<forall>d\<in>set (disk t). length d = BSIZE" "length (disk t) < 2 ^ 32"
    using ok changes_disk [OF ch] by (auto simp: bio_ok_def)
  have each: "let c = bufs t ! i in
        length (b_data c) = BSIZE \<and> b_refcnt c = (if blocked t i then 1 else 0) \<and>
        (blocked t i \<or> bdirty c \<longrightarrow> bvalid c) \<and>
        (bvalid c \<longrightarrow> b_dev c = 1 \<and> unat (b_blockno c) < length (disk t)) \<and>
        (bvalid c \<and> \<not> bdirty c \<and> \<not> blocked t i \<longrightarrow> b_data c = disk t ! unat (b_blockno c))"
    if i: "i < NBUF" for i
  proof (cases "i = b")
    case True
    then show ?thesis using x b n bl nth [OF i] bio_okD [OF ok b(1)] changes_disk(1) [OF ch] by simp
  next
    case False
    then have "unat (b_blockno (bufs s ! i)) \<noteq> n" if "bvalid (bufs s ! i)"
      using bio_ok_unique [OF ok i b(1)] that n(5) b(3) by auto
    with False show ?thesis
      using bl nth [OF i] bio_okD [OF ok i] changes_disk [OF ch] by (simp add: Let_def)
  qed
  have "\<forall>i<NBUF. \<forall>j<NBUF. b_dev (bufs t ! i) = 1 \<and> b_dev (bufs t ! j) = 1 \<and>
      b_blockno (bufs t ! i) = b_blockno (bufs t ! j) \<longrightarrow> i = j"
  proof -
    have "b_dev (bufs t ! i) = b_dev (bufs s ! i)" "b_blockno (bufs t ! i) = b_blockno (bufs s ! i)"
      if "i < NBUF" for i using nth [OF that] x(1,2) by simp_all
    moreover have "\<forall>i<NBUF. \<forall>j<NBUF. b_dev (bufs s ! i) = 1 \<and> b_dev (bufs s ! j) = 1 \<and>
      b_blockno (bufs s ! i) = b_blockno (bufs s ! j) \<longrightarrow> i = j"
      using ok unfolding bio_ok_def by blast
    ultimately show ?thesis by simp
  qed
  with l d each show ?thesis unfolding bio_ok_def by (intro conjI) simp_all
qed

section \<open>Releasing a buffer\<close>

lemma linked_next_neq:
  assumes "linked xs bs" "b < NBUF"
  shows "b_next (bs ! b) \<noteq> b"
proof -
  have d: "distinct xs" "set xs = {..<NBUF}" "ring (\<lambda>i. b_next (bs ! i)) (\<lambda>i. b_prev (bs ! i)) NBUF xs"
    using assms by (auto simp: linked_def)
  obtain ys zs where xs: "xs = ys @ b # zs" using d assms(2) by (metis lessThan_iff split_list)
  have "b_next (bs ! b) = hd (zs @ [NBUF])"
    using d(3) by (cases zs) (auto simp: ring_def xs chain_append)
  with d xs assms(2) show ?thesis by (cases zs) auto
qed

lemma front_eval:
  assumes "b < NBUF" "length (bufs s) = Suc NBUF"
  shows "block [insert_front b, link_front b] s env = Ok () (s\<lparr>bufs := pushed_front b (bufs s)\<rparr>) env"
  using assms by (simp add: insert_front_def link_front_def kmonad set_buf_def pushed_front_def Let_def)

lemma unlink_eval:
  assumes "b < NBUF" "length (bufs s) = Suc NBUF" "b_next (bufs s ! b) \<noteq> b"
  shows "block [modify (\<lambda>s. set_buf (b_next (bufs s ! b)) (b_prev_update (\<lambda>_. b_prev (bufs s ! b))) s),
      modify (\<lambda>s. set_buf (b_prev (bufs s ! b)) (b_next_update (\<lambda>_. b_next (bufs s ! b))) s)] s env =
    Ok () (s\<lparr>bufs := unlinked b (bufs s)\<rparr>) env"
  using assms by (simp add: kmonad set_buf_def unlinked_def Let_def)

lemma block_append: "block (ms @ ns) s env = bindK (block ms) (\<lambda>_. block ns) s env"
  by (induction ms arbitrary: s env) (simp_all add: kmonad split: outcome.split)

lemma relink_eval:
  assumes "b < NBUF" "length (bufs s) = Suc NBUF" "b_next (bufs s ! b) \<noteq> b"
  shows "move_front b s env = Ok () (s\<lparr>bufs := pushed_front b (unlinked b (bufs s))\<rparr>) env"
  unfolding move_front_def
  using block_append [of "[_, _]" "[insert_front b, link_front b]" s env, simplified append.simps]
    unlink_eval [OF assms, of env] assms
  by (simp only: bindK_def outcome.case) (simp add: front_eval del: block.simps)

lemma sl_given_bufs: "sl_given l (bufs_update f s) = bufs_update f (sl_given l s)"
  by (simp add: sl_given_def set_sl_def)

definition released :: "nat \<Rightarrow> buf list \<Rightarrow> buf list" where
  "released b bs = pushed_front b (unlinked b (bs[b := (bs ! b)\<lparr>b_refcnt := 0\<rparr>]))"

lemma brelse_eval:
  assumes c: "fs_ctx p s" and ok: "bio_ok s" and b: "b < NBUF" "blocked s b"
  shows "brelse b s env = Ok () (noted (sl_given (BufSl b) (s\<lparr>bufs := released b (bufs s)\<rparr>))) env"
proof -
  obtain xs where l: "linked xs (bufs s)" using ok by (auto simp: bio_ok_def)
  have len: "length (bufs s) = Suc NBUF" using l by (simp add: linked_def)
  have ne: "b_next (bufs s ! b) \<noteq> b" by (rule linked_next_neq [OF l b(1)])
  have r: "b_refcnt (bufs s ! b) = 1" using bio_okD(2) [OF ok b(1)] b(2) by simp
  then have rr: "b_refcnt_update (\<lambda>r. r - 1) (bufs s ! b) = (bufs s ! b)\<lparr>b_refcnt := 0\<rparr>"
    by (cases "bufs s ! b") simp
  show ?thesis
    using fs_ctxD [OF c] b len ne r
    by (simp add: brelse_def relink_eval kmonad releasesleep_eval blocked_def)
      (simp add: released_def set_buf_def sl_given_bufs rr)
qed

lemma released_nth:
  assumes "length bs = Suc NBUF" "b < NBUF"
  shows "b_flags (released b bs ! i) = b_flags (bs ! i)" "b_dev (released b bs ! i) = b_dev (bs ! i)"
    "b_blockno (released b bs ! i) = b_blockno (bs ! i)" "b_data (released b bs ! i) = b_data (bs ! i)"
    "b_refcnt (released b bs ! i) = (if i = b then 0 else b_refcnt (bs ! i))"
  using assms by (auto simp: released_def nth_list_update)

lemma released_linked: "linked xs bs \<Longrightarrow> b < NBUF \<Longrightarrow> linked (b # remove1 b xs) (released b bs)"
  unfolding released_def by (intro linked_move_front linked_update [where f = "\<lambda>x. x\<lparr>b_refcnt := 0\<rparr>"]) simp_all

lemma pinned_iff:
  assumes "bio_ok s" "b < NBUF" "bvalid (bufs s ! b)"
  shows "unat (b_blockno (bufs s ! b)) \<in> v_pinned (bview s) \<longleftrightarrow> bdirty (bufs s ! b)"
proof
  assume "unat (b_blockno (bufs s ! b)) \<in> v_pinned (bview s)"
  then obtain i where i: "unat (b_blockno (bufs s ! b)) = unat (b_blockno (bufs s ! i))" "i < NBUF" "bdirty (bufs s ! i)"
    by (auto simp: bview_def)
  then have "b = i" using bio_ok_unique [OF assms(1,2) i(2) assms(3)] bio_okD(4) [OF assms(1) i(2)] by blast
  with i show "bdirty (bufs s ! b)" by simp
next
  assume "bdirty (bufs s ! b)"
  with assms(2) show "unat (b_blockno (bufs s ! b)) \<in> v_pinned (bview s)" by (auto simp: bview_def)
qed

lemma released_view:
  assumes ok: "bio_ok s" and at: "buf_at s b n"
    and clean: "n \<in> v_pinned (bview s) \<or> blk s n = disk s ! n"
    and t: "bufs t = released b (bufs s)" "disk t = disk s" "dwrites t = dwrites s"
      "\<And>i. blocked t i \<longleftrightarrow> i \<noteq> b \<and> blocked s i"
  shows "bio_ok t" "bview t = (bview s)\<lparr>v_held := v_held (bview s) - {n}\<rparr>"
    "buf_at s c m \<Longrightarrow> c \<noteq> b \<Longrightarrow> buf_at t c m"
proof -
  have b: "b < NBUF" "blocked s b" "unat (b_blockno (bufs s ! b)) = n" using at by (auto simp: buf_at_def)
  obtain xs where l: "linked xs (bufs s)" using ok by (auto simp: bio_ok_def)
  have len: "length (bufs s) = Suc NBUF" using l by (simp add: linked_def)
  note nth = released_nth [OF len b(1)] and n = buf_at_data [OF ok at]
  have same: "bvalid (bufs t ! i) = bvalid (bufs s ! i)" "bdirty (bufs t ! i) = bdirty (bufs s ! i)" for i
    by (simp_all add: t nth bvalid_def bdirty_def)
  have d: "b_data (bufs s ! b) = disk s ! n" if "\<not> bdirty (bufs s ! b)"
  proof -
    have "n \<notin> v_pinned (bview s)" using pinned_iff [OF ok b(1) n(5)] that b(3) by simp
    with clean n(1) show ?thesis by simp
  qed
  have each: "let c = bufs t ! i in
        length (b_data c) = BSIZE \<and> b_refcnt c = (if blocked t i then 1 else 0) \<and>
        (blocked t i \<or> bdirty c \<longrightarrow> bvalid c) \<and>
        (bvalid c \<longrightarrow> b_dev c = 1 \<and> unat (b_blockno c) < length (disk t)) \<and>
        (bvalid c \<and> \<not> bdirty c \<and> \<not> blocked t i \<longrightarrow> b_data c = disk t ! unat (b_blockno c))"
    if i: "i < NBUF" for i
    using bio_okD [OF ok i] d b(2,3) same t nth by (cases "i = b") (auto simp: Let_def)
  have u: "\<forall>i<NBUF. \<forall>j<NBUF. b_dev (bufs t ! i) = 1 \<and> b_dev (bufs t ! j) = 1 \<and>
      b_blockno (bufs t ! i) = b_blockno (bufs t ! j) \<longrightarrow> i = j"
    using ok unfolding bio_ok_def t nth by blast
  show "bio_ok t"
    using ok each u released_linked [OF l b(1)] unfolding bio_ok_def t(1,2)
    by (intro conjI) (auto simp: t(1,2))
  have tf: "b_blockno (bufs t ! i) = b_blockno (bufs s ! i)" "b_data (bufs t ! i) = b_data (bufs s ! i)" for i
    by (simp_all add: t nth)
  have "blk t = blk s" unfolding blk_def cached_def same tf t(2) ..
  moreover have "(\<exists>i. m = unat (b_blockno (bufs s ! i)) \<and> i < NBUF \<and> i \<noteq> b \<and> blocked s i) \<longleftrightarrow>
      m \<noteq> n \<and> (\<exists>i. m = unat (b_blockno (bufs s ! i)) \<and> i < NBUF \<and> blocked s i)" for m
    using b bio_ok_unique [OF ok _ b(1)] bio_okD(3) [OF ok] n(5) by metis
  ultimately show "bview t = (bview s)\<lparr>v_held := v_held (bview s) - {n}\<rparr>"
    by (auto simp: bview_def t nth bdirty_def)
  show "buf_at s c m \<Longrightarrow> c \<noteq> b \<Longrightarrow> buf_at t c m" by (simp add: buf_at_def t nth)
qed

section \<open>The contract of the block layer\<close>

text \<open>
  What the log and the file system rely on.  \<open>view\<close> abstracts the state, \<open>rest\<close> is all the
  other state, \<open>at s b n\<close> says that the buffer \<open>b\<close> is held for block \<open>n\<close>, and \<open>put b f\<close>
  changes the data of a buffer in place.
\<close>

locale block_cache =
  fixes ok :: "'s \<Rightarrow> bool" and view :: "'s \<Rightarrow> bview" and rest :: "'s \<Rightarrow> 'r"
    and at :: "'s \<Rightarrow> nat \<Rightarrow> nat \<Rightarrow> bool" and data :: "'s \<Rightarrow> nat \<Rightarrow> block" and nblocks :: "'s \<Rightarrow> nat"
    and rd :: "uint \<Rightarrow> ('s, nat) K" and wr :: "nat \<Rightarrow> ('s, unit) K" and rel :: "nat \<Rightarrow> ('s, unit) K"
    and put :: "nat \<Rightarrow> (block \<Rightarrow> block) \<Rightarrow> 's \<Rightarrow> 's"
  assumes at_data: "ok s \<Longrightarrow> at s b n \<Longrightarrow> data s b = v_blk (view s) n \<and> length (data s b) = BSIZE"
    and nblocks: "nblocks s = length (v_disk (view s))"
    and rd: "ok s \<Longrightarrow> unat w < nblocks s \<Longrightarrow> unat w \<notin> v_held (view s) \<Longrightarrow>
      unat w \<in> v_pinned (view s) \<or> card (v_held (view s) \<union> v_pinned (view s)) < NBUF \<Longrightarrow>
      (\<And>b t. ok t \<Longrightarrow> rest t = rest s \<Longrightarrow> at t b (unat w) \<Longrightarrow>
         view t = (view s)\<lparr>v_held := insert (unat w) (v_held (view s))\<rparr> \<Longrightarrow>
         (\<And>c m. at s c m \<Longrightarrow> c \<noteq> b \<and> at t c m) \<Longrightarrow> R b t) \<Longrightarrow> wp (rd w) R s"
    and wr: "ok s \<Longrightarrow> at s b n \<Longrightarrow>
      (\<And>t. ok t \<Longrightarrow> rest t = rest s \<Longrightarrow>
         view t = (view s)\<lparr>v_disk := (v_disk (view s))[n := v_blk (view s) n],
           v_writes := v_writes (view s) @ [(n, v_blk (view s) n)], v_pinned := v_pinned (view s) - {n}\<rparr> \<Longrightarrow>
         (\<And>c m. at s c m \<Longrightarrow> at t c m) \<Longrightarrow> Q () t) \<Longrightarrow> wp (wr b) Q s"
    and rel: "ok s \<Longrightarrow> at s b n \<Longrightarrow>
      n \<in> v_pinned (view s) \<or> v_blk (view s) n = v_disk (view s) ! n \<Longrightarrow>
      (\<And>t. ok t \<Longrightarrow> rest t = rest s \<Longrightarrow> view t = (view s)\<lparr>v_held := v_held (view s) - {n}\<rparr> \<Longrightarrow>
         (\<And>c m. at s c m \<Longrightarrow> c \<noteq> b \<Longrightarrow> at t c m) \<Longrightarrow> Q () t) \<Longrightarrow> wp (rel b) Q s"
    and put: "ok s \<Longrightarrow> at s b n \<Longrightarrow> length (f (data s b)) = BSIZE \<Longrightarrow>
      ok (put b f s) \<and> rest (put b f s) = rest s \<and> (\<forall>c m. at s c m \<longrightarrow> at (put b f s) c m) \<and>
      view (put b f s) = (view s)\<lparr>v_blk := (v_blk (view s))(n := f (data s b))\<rparr>"
    and clean: "ok s \<Longrightarrow> n < nblocks s \<Longrightarrow> n \<notin> v_held (view s) \<Longrightarrow> n \<notin> v_pinned (view s) \<Longrightarrow>
      v_blk (view s) n = v_disk (view s) ! n"

context block_cache
begin

lemma read_block:
  assumes "ok s" "unat w < nblocks s" "unat w \<notin> v_held (view s)"
    "unat w \<in> v_pinned (view s) \<or> card (v_held (view s) \<union> v_pinned (view s)) < NBUF"
    and Q: "\<And>t. ok t \<Longrightarrow> rest t = rest s \<Longrightarrow> view t = view s \<Longrightarrow> (\<And>c m. at s c m \<Longrightarrow> at t c m) \<Longrightarrow>
      Q (f (v_blk (view s) (unat w))) t"
  shows "wp (bindK (rd w) (\<lambda>b. bindK (gets (\<lambda>s. f (data s b))) (\<lambda>x. thenK (rel b) (ret x)))) Q s"
proof (rule wp_bind, rule rd [OF assms(1-4)])
  fix b t assume t: "ok t" "rest t = rest s" "at t b (unat w)"
    "view t = (view s)\<lparr>v_held := insert (unat w) (v_held (view s))\<rparr>"
    and keep: "\<And>c m. at s c m \<Longrightarrow> c \<noteq> b \<and> at t c m"
  have d: "data t b = v_blk (view s) (unat w)" using at_data [OF t(1,3)] t(4) by simp
  have cl: "unat w \<in> v_pinned (view t) \<or> v_blk (view t) (unat w) = v_disk (view t) ! unat w"
    using clean [OF assms(1-3)] t(4) by auto
  show "wp (bindK (gets (\<lambda>s. f (data s b))) (\<lambda>x. thenK (rel b) (ret x))) Q t"
    unfolding wp_bind_simps
  proof (rule wp_then, rule rel [OF t(1,3) cl], unfold wp_ret)
    fix u assume u: "ok u" "rest u = rest t" "view u = (view t)\<lparr>v_held := v_held (view t) - {unat w}\<rparr>"
      and keep': "\<And>c m. at t c m \<Longrightarrow> c \<noteq> b \<Longrightarrow> at u c m"
    have "view u = view s" unfolding u(3) t(4) using assms(3) by (cases "view s") simp
    then show "Q (f (data t b)) u" unfolding d
      by (intro Q u(1)) (use u t keep keep' in auto)
  qed
qed

text \<open>Copying between two held buffers, writing the target through and releasing both.\<close>

lemma copy_held:
  assumes ok: "ok s" and at: "at s l src" "at s d dst" and ne: "l \<noteq> d" "src \<noteq> dst" and dst: "dst < nblocks s"
    and cl: "src \<in> v_pinned (view s) \<or> v_blk (view s) src = v_disk (view s) ! src"
    and Q: "\<And>t. ok t \<Longrightarrow> rest t = rest s \<Longrightarrow> (\<And>c m. at s c m \<Longrightarrow> c \<noteq> l \<Longrightarrow> c \<noteq> d \<Longrightarrow> at t c m) \<Longrightarrow>
      view t = (view s)\<lparr>v_blk := (v_blk (view s))(dst := v_blk (view s) src),
        v_disk := (v_disk (view s))[dst := v_blk (view s) src],
        v_writes := v_writes (view s) @ [(dst, v_blk (view s) src)],
        v_held := v_held (view s) - {src, dst}, v_pinned := v_pinned (view s) - {dst}\<rparr> \<Longrightarrow> Q () t"
  shows "wp (block [modify (\<lambda>s. put d (\<lambda>_. data s l) s), wr d, rel l, rel d]) Q s"
proof -
  let ?v = "view s" and ?x = "v_blk (view s) src"
  have x: "data s l = ?x" "length ?x = BSIZE" using at_data [OF ok at(1)] by auto
  define s1 where "s1 = put d (\<lambda>_. data s l) s"
  have s1: "ok s1" "rest s1 = rest s" "\<And>c m. at s c m \<Longrightarrow> at s1 c m"
    "view s1 = ?v\<lparr>v_blk := (v_blk ?v)(dst := ?x)\<rparr>"
    using put [OF ok at(2), of "\<lambda>_. data s l"] x by (auto simp: s1_def)
  have dst': "dst < length (v_disk ?v)" using dst by (simp add: nblocks)
  show ?thesis
    unfolding block.simps wp_bind_simps s1_def [symmetric]
  proof (rule wp_then, rule wr [OF s1(1) s1(3) [OF at(2)]])
    fix s2 assume s2: "ok s2" "rest s2 = rest s1" "\<And>c m. at s1 c m \<Longrightarrow> at s2 c m"
      and v2: "view s2 = (view s1)\<lparr>v_disk := (v_disk (view s1))[dst := v_blk (view s1) dst],
           v_writes := v_writes (view s1) @ [(dst, v_blk (view s1) dst)], v_pinned := v_pinned (view s1) - {dst}\<rparr>"
    have c2: "src \<in> v_pinned (view s2) \<or> v_blk (view s2) src = v_disk (view s2) ! src"
      using cl ne by (simp add: v2 s1(4))
    show "wp (thenK (rel l) (thenK (rel d) (ret ()))) Q s2"
    proof (rule wp_then, rule rel [OF s2(1) s2(3) [OF s1(3) [OF at(1)]] c2])
      fix s3 assume s3: "ok s3" "rest s3 = rest s2" "\<And>c m. at s2 c m \<Longrightarrow> c \<noteq> l \<Longrightarrow> at s3 c m"
        and v3: "view s3 = (view s2)\<lparr>v_held := v_held (view s2) - {src}\<rparr>"
      have at3: "at s3 d dst" using s3(3) s2(3) s1(3) at(2) ne by metis
      have c3: "dst \<in> v_pinned (view s3) \<or> v_blk (view s3) dst = v_disk (view s3) ! dst"
        using dst' by (simp add: v3 v2 s1(4))
      show "wp (thenK (rel d) (ret ())) Q s3"
      proof (rule wp_then, rule rel [OF s3(1) at3 c3], unfold wp_ret)
        fix t assume t: "ok t" "rest t = rest s3" "\<And>c m. at s3 c m \<Longrightarrow> c \<noteq> d \<Longrightarrow> at t c m"
          and v: "view t = (view s3)\<lparr>v_held := v_held (view s3) - {dst}\<rparr>"
        have "view t = ?v\<lparr>v_blk := (v_blk ?v)(dst := ?x), v_disk := (v_disk ?v)[dst := ?x],
            v_writes := v_writes ?v @ [(dst, ?x)],
            v_held := v_held ?v - {src, dst}, v_pinned := v_pinned ?v - {dst}\<rparr>"
          unfolding v v3 v2 s1(4) by (cases ?v) auto
        then show "Q () t"
          by (intro Q t(1)) (use t s3 s2 s1 in auto)
      qed
    qed
  qed
qed

end

lemma bread_wp:
  assumes "fs_ctx p s" "bio_ok s" "unat n < length (disk s)" "unat n \<notin> v_held (bview s)"
    and "unat n \<in> v_pinned (bview s) \<or> card (v_held (bview s) \<union> v_pinned (bview s)) < NBUF"
    and Q: "\<And>b t. fs_ctx p t \<Longrightarrow> bio_ok t \<Longrightarrow> bio_rest t = bio_rest s \<Longrightarrow> buf_at t b (unat n) \<Longrightarrow>
      bview t = (bview s)\<lparr>v_held := insert (unat n) (v_held (bview s))\<rparr> \<Longrightarrow>
      (\<And>c m. buf_at s c m \<Longrightarrow> c \<noteq> b \<and> buf_at t c m) \<Longrightarrow> Q b t"
  shows "wp (bread 1 n) Q s"
proof -
  obtain b t y where run: "\<And>env. bread 1 n s env = Ok b t env" and tk: "takes s b (unat n) y t"
    and r: "bio_rest t = bio_rest s"
    using bread_takes [OF assms(1-5)] by blast
  have "c \<noteq> b \<and> buf_at t c m" if "buf_at s c m" for c m
    using takes_buf_at [OF tk that] that tk by (auto simp: takes_def buf_at_def)
  with r rest_fs_ctx [OF r assms(1)] takes_ok [OF tk] takes_view [OF tk] takes_at [OF tk] have "Q b t"
    by (intro Q)
  with run show ?thesis by (rule wp_eval)
qed

lemma changes_buf_at: "changes s b n x t \<Longrightarrow> buf_at s c m \<Longrightarrow> buf_at t c m"
  using changes_nth [of s b n x t c] by (auto simp: buf_at_def changes_def)

lemma bwrite_wp:
  assumes c: "fs_ctx p s" and ok: "bio_ok s" and at: "buf_at s b n"
    and Q: "\<And>t. fs_ctx p t \<Longrightarrow> bio_ok t \<Longrightarrow> bio_rest t = bio_rest s \<Longrightarrow>
      bview t = (bview s)\<lparr>v_disk := (disk s)[n := blk s n], v_writes := dwrites s @ [(n, blk s n)],
        v_pinned := v_pinned (bview s) - {n}\<rparr> \<Longrightarrow>
      (\<And>c m. buf_at s c m \<Longrightarrow> buf_at t c m) \<Longrightarrow> Q () t"
  shows "wp (bwrite b) Q s"
proof -
  have b: "b < NBUF" "blocked s b" "unat (b_blockno (bufs s ! b)) = n" using at by (auto simp: buf_at_def)
  note n = buf_at_data [OF ok at]
  have len: "length (bufs s) = Suc NBUF" using ok by (auto simp: bio_ok_def linked_def)
  let ?x = "b_flags_update (\<lambda>f. (f OR B_DIRTY) AND NOT B_DIRTY OR B_VALID) (bufs s ! b)"
  let ?t = "noted ((disk_write n (blk s n) s)\<lparr>bufs := (bufs s)[b := ?x]\<rparr>)"
  have run: "bwrite b s env = Ok () ?t env" for env
    using iderw_write [of "noted (set_buf b (b_flags_update (\<lambda>f. f OR B_DIRTY)) s)" b env]
      fs_ctxD [OF c] b n len bio_okD(5) [OF ok b(1) n(5)]
    by (simp add: bwrite_def kmonad blocked_def [symmetric] bdirty_def)
      (simp add: set_buf_def disk_write_def comp_def)
  have ch: "changes s b n ?x ?t"
    using ok at n b bio_okD(1) [OF ok b(1)] by (auto simp: changes_def bvalid_def)
  have "\<not> bdirty ?x" by (simp add: bdirty_def)
  with changes_view [OF ch] n have v: "bview ?t = (bview s)\<lparr>v_disk := (disk s)[n := blk s n],
      v_writes := dwrites s @ [(n, blk s n)], v_pinned := v_pinned (bview s) - {n}\<rparr>"
    by (simp add: bview_def)
  have r: "bio_rest ?t = bio_rest s" by simp
  show ?thesis
    by (rule wp_eval, rule run, rule Q [OF rest_fs_ctx [OF r c] changes_ok [OF ch] r v changes_buf_at [OF ch]])
qed

lemma brelse_wp:
  assumes c: "fs_ctx p s" and ok: "bio_ok s" and at: "buf_at s b n"
    and clean: "n \<in> v_pinned (bview s) \<or> blk s n = disk s ! n"
    and Q: "\<And>t. fs_ctx p t \<Longrightarrow> bio_ok t \<Longrightarrow> bio_rest t = bio_rest s \<Longrightarrow>
      bview t = (bview s)\<lparr>v_held := v_held (bview s) - {n}\<rparr> \<Longrightarrow>
      (\<And>c m. buf_at s c m \<Longrightarrow> c \<noteq> b \<Longrightarrow> buf_at t c m) \<Longrightarrow> Q () t"
  shows "wp (brelse b) Q s"
proof -
  let ?t = "noted (sl_given (BufSl b) (s\<lparr>bufs := released b (bufs s)\<rparr>))"
  have run: "brelse b s env = Ok () ?t env" for env
    using brelse_eval [OF c ok] at by (simp add: buf_at_def)
  have t: "bufs ?t = released b (bufs s)" "disk ?t = disk s" "dwrites ?t = dwrites s"
    "\<And>i. blocked ?t i \<longleftrightarrow> i \<noteq> b \<and> blocked s i"
    by simp_all
  have "sl_given (BufSl b) s = set_sl (BufSl b) (\<lambda>x. x\<lparr>sl_locked := 0, sl_pid := 0\<rparr>) s"
    using c by (simp add: sl_given_def set_sl_def)
  then have r: "bio_rest ?t = bio_rest s"
    by (simp add: sl_given_bufs)
  show ?thesis
    by (rule wp_eval, rule run, rule Q [OF rest_fs_ctx [OF r c]
      released_view(1) [OF ok at clean t] r released_view(2) [OF ok at clean t] released_view(3) [OF ok at clean t]])
qed

lemma put_view:
  assumes ok: "bio_ok s" and at: "buf_at s b n" and len: "length (f (b_data (bufs s ! b))) = BSIZE"
  shows "bio_ok (set_buf b (b_data_update f) s)"
    "bview (set_buf b (b_data_update f) s) = (bview s)\<lparr>v_blk := (blk s)(n := f (b_data (bufs s ! b)))\<rparr>"
    "buf_at s c m \<Longrightarrow> buf_at (set_buf b (b_data_update f) s) c m"
proof -
  let ?x = "b_data_update f (bufs s ! b)" and ?t = "set_buf b (b_data_update f) s"
  note n = buf_at_data [OF ok at]
  have b: "b < NBUF" "unat (b_blockno (bufs s ! b)) = n" using at by (auto simp: buf_at_def)
  have ch: "changes s b n ?x ?t"
    using ok at n len by (auto simp: changes_def bvalid_def intro!: exI [of _ "blk s n"])
  have "bdirty ?x \<longleftrightarrow> n \<in> v_pinned (bview s)"
    using pinned_iff [OF ok b(1) n(5)] b(2) by (simp add: bdirty_def)
  with changes_view [OF ch]
  show "bview ?t = (bview s)\<lparr>v_blk := (blk s)(n := f (b_data (bufs s ! b)))\<rparr>"
    by (auto simp: bview_def)
  show "bio_ok ?t" by (rule changes_ok [OF ch])
  show "buf_at s c m \<Longrightarrow> buf_at ?t c m" by (rule changes_buf_at [OF ch])
qed

lemma bview_simps [simp]:
  "v_blk (bview s) = blk s" "v_disk (bview s) = disk s" "v_writes (bview s) = dwrites s"
  by (simp_all add: bview_def)

interpretation bc: block_cache "\<lambda>s. fs_ctx p s \<and> bio_ok s" bview bio_rest buf_at "\<lambda>s b. b_data (bufs s ! b)"
    "\<lambda>s. length (disk s)" "bread 1" bwrite brelse "\<lambda>b f. set_buf b (b_data_update f)" for p
proof (unfold_locales, goal_cases)
  case (1 s b n)
  then show ?case using buf_at_data [of s b n] by simp
next
  case (3 s w R)
  then show ?case by (intro bread_wp) auto
next
  case (4 s b n Q)
  then show ?case by (intro bwrite_wp) auto
next
  case (5 s b n Q)
  then show ?case by (intro brelse_wp) auto
next
  case (6 s b n f)
  then have r: "bio_rest (set_buf b (b_data_update f) s) = bio_rest s" by simp
  with 6 rest_fs_ctx [OF r] put_view [of s b n f] show ?case by auto
next
  case (7 s n)
  then show ?case by (simp add: blk_clean)
qed simp

section \<open>Initialisation\<close>

lemma binit_round:
  assumes "b < NBUF" "length (bufs s) = Suc NBUF"
  shows "block [insert_front b, initsleeplock (BufSl b) ''buffer'', link_front b] s env =
    Ok () ((set_sl (BufSl b) (\<lambda>x. x\<lparr>sl_name := ''buffer'', sl_locked := 0, sl_pid := 0\<rparr>)
      (set_lock (BufLock b) (\<lambda>_. \<lparr>lk_locked = 0, lk_name = ''sleep lock'', lk_cpu = None\<rparr>) s))
        \<lparr>bufs := pushed_front b (bufs s)\<rparr>) env"
  using assms by (simp add: insert_front_def link_front_def initsleeplock_def initlock_def kmonad
      set_buf_def pushed_front_def Let_def set_sl_def set_lock_def)

lemma bufs_set_lock [simp]: "bufs (set_lock l f s) = bufs s" "disk (set_lock l f s) = disk s"
  "dwrites (set_lock l f s) = dwrites s" "slocks (set_lock l f s) = slocks s"
  by (simp_all add: set_lock_def)

lemma pushed_front_ring:
  assumes "length bs = Suc NBUF" "b < NBUF" "set xs \<subseteq> {..<NBUF}" "distinct (b # xs)"
    "ring (\<lambda>i. b_next (bs ! i)) (\<lambda>i. b_prev (bs ! i)) NBUF xs"
  shows "ring (\<lambda>i. b_next (pushed_front b bs ! i)) (\<lambda>i. b_prev (pushed_front b bs ! i)) NBUF (b # xs)"
proof -
  have first: "b_next (bs ! NBUF) = hd (xs @ [NBUF])" using ring_first [OF assms(5)] by simp
  have "hd (xs @ [NBUF]) \<in> insert NBUF (set xs)" by (cases xs) auto
  then have "b_next (bs ! NBUF) \<le> NBUF" "b_next (bs ! NBUF) \<noteq> b" using assms(2-4) first by auto
  note links = pushed_front_links [OF assms(1,2) this]
  have "NBUF \<notin> set xs" using assms(3) by auto
  then have "distinct (NBUF # b # xs)" using assms(2,4) by auto
  from ring_push [OF assms(5) this] show ?thesis unfolding links .
qed

lemma fs_ctx_init:
  "fs_ctx p s \<Longrightarrow> fs_ctx p (set_lock l (\<lambda>_. \<lparr>lk_locked = 0, lk_name = name, lk_cpu = None\<rparr>) s)"
  "fs_ctx p (set_sl k f s) = fs_ctx p s" "fs_ctx p (set_buf i g s) = fs_ctx p s"
  "fs_ctx p (bufs_update h s) = fs_ctx p s"
  by (auto simp: fs_ctx_def proc_ctx_def cpu_ok_def cur_def curproc_def free_lock_def set_lock_def set_sl_def set_buf_def)

lemma binit_loop:
  assumes c: "fs_ctx p s" and len: "length (bufs s) = Suc NBUF" and r: "ring (\<lambda>i. b_next (bufs s ! i)) (\<lambda>i. b_prev (bufs s ! i)) NBUF []"
    and Q: "\<And>t. fs_ctx p t \<Longrightarrow> linked (rev [0..<NBUF]) (bufs t) \<Longrightarrow> (\<And>i. core (bufs t ! i) = core (bufs s ! i)) \<Longrightarrow>
      disk t = disk s \<Longrightarrow> (\<And>i. i < NBUF \<Longrightarrow> \<not> blocked t i) \<Longrightarrow> Q () t"
  shows "wp (forK [0..<NBUF] (\<lambda>b. block [insert_front b, initsleeplock (BufSl b) ''buffer'', link_front b])) Q s"
proof (rule wp_forK [where I = "\<lambda>k t. fs_ctx p t \<and> length (bufs t) = Suc NBUF \<and>
    ring (\<lambda>i. b_next (bufs t ! i)) (\<lambda>i. b_prev (bufs t ! i)) NBUF (rev [0..<k]) \<and>
    (\<forall>i. core (bufs t ! i) = core (bufs s ! i)) \<and> disk t = disk s \<and> (\<forall>i<k. \<not> blocked t i)"], goal_cases)
  case 1
  then show ?case using assms by simp
next
  case (2 k t)
  then have k: "k < NBUF" by simp
  let ?u = "(set_sl (BufSl k) (\<lambda>x. x\<lparr>sl_name := ''buffer'', sl_locked := 0, sl_pid := 0\<rparr>)
      (set_lock (BufLock k) (\<lambda>_. \<lparr>lk_locked = 0, lk_name = ''sleep lock'', lk_cpu = None\<rparr>) t))
        \<lparr>bufs := pushed_front k (bufs t)\<rparr>"
  have run: "block [insert_front k, initsleeplock (BufSl k) ''buffer'', link_front k] t env = Ok () ?u env" for env
    using binit_round 2 k by blast
  have "ring (\<lambda>i. b_next (bufs ?u ! i)) (\<lambda>i. b_prev (bufs ?u ! i)) NBUF (rev [0..<Suc k])"
    using pushed_front_ring [of "bufs t" k "rev [0..<k]"] 2 k by (auto simp: subset_iff)
  moreover have "\<not> blocked ?u i" if "i < Suc k" for i
    using 2 that by (auto simp: blocked_def)
  moreover have "fs_ctx p ?u" using 2 by (simp add: fs_ctx_init)
  ultimately have "fs_ctx p ?u \<and> length (bufs ?u) = Suc NBUF \<and>
    ring (\<lambda>i. b_next (bufs ?u ! i)) (\<lambda>i. b_prev (bufs ?u ! i)) NBUF (rev [0..<Suc k]) \<and>
    (\<forall>i. core (bufs ?u ! i) = core (bufs s ! i)) \<and> disk ?u = disk s \<and> (\<forall>i<Suc k. \<not> blocked ?u i)"
    using 2 by simp
  then show ?case using k run by (simp add: wp_def)
next
  case (3 t)
  then show ?case by (intro Q) (auto simp: linked_def)
qed

lemma binit_wp:
  assumes c: "fs_ctx p s" and len: "length (bufs s) = Suc NBUF"
    and zero: "\<And>i. i < NBUF \<Longrightarrow> b_flags (bufs s ! i) = 0 \<and> b_dev (bufs s ! i) = 0 \<and> b_refcnt (bufs s ! i) = 0 \<and>
      length (b_data (bufs s ! i)) = BSIZE"
    and d: "\<forall>d\<in>set (disk s). length d = BSIZE" "length (disk s) < 2 ^ 32"
    and Q: "\<And>t. fs_ctx p t \<Longrightarrow> bio_ok t \<Longrightarrow> disk t = disk s \<Longrightarrow> v_held (bview t) = {} \<Longrightarrow> v_pinned (bview t) = {} \<Longrightarrow>
      (\<And>n. n < length (disk s) \<Longrightarrow> blk t n = disk s ! n) \<Longrightarrow> linked (rev [0..<NBUF]) (bufs t) \<Longrightarrow> Q () t"
  shows "wp binit Q s"
  unfolding binit_def block.simps initlock_def wp_bind_simps
proof (rule wp_then, rule binit_loop [where p = p, unfolded block.simps], goal_cases)
  case 1
  then show ?case using c by (simp add: fs_ctx_init)
next
  case 2
  then show ?case using len by simp
next
  case 3
  then show ?case using len by (simp add: ring_def)
next
  case (4 t)
  have c: "core (bufs t ! i) = core (bufs s ! i)" for i
    unfolding 4(3) by (simp add: core_update len)
  note f = core_eqD [OF c]
  have z: "\<not> bvalid (bufs t ! i)" "\<not> bdirty (bufs t ! i)" "\<not> blocked t i" "b_dev (bufs t ! i) = 0"
    "b_refcnt (bufs t ! i) = 0" "length (b_data (bufs t ! i)) = BSIZE" if "i < NBUF" for i
    using zero [OF that] 4(5) [OF that] by (simp_all add: bvalid_def bdirty_def f)
  have dt: "disk t = disk s" using 4(4) by simp
  have "bio_ok t" using 4(2) d z dt by (auto simp: bio_ok_def Let_def)
  moreover have "blk t n = disk s ! n" if "n < length (disk s)" for n
    using that dt z by (intro blk_eqI) auto
  ultimately show ?case unfolding wp_ret
    using 4(1,2) dt z by (intro Q) (auto simp: bview_def)
qed

section \<open>Properties\<close>

text \<open>
  C29.  From a zeroed cache \<open>binit\<close> builds the doubly linked list of all buffers and
  establishes the cache invariant, and a first \<open>bread\<close> of any block of the disk
  then returns a locked buffer with the contents of that block, changing no block.
\<close>

theorem binit_then_bread:
  assumes "fs_ctx p s" "length (bufs s) = Suc NBUF"
    and "\<And>i. i < NBUF \<Longrightarrow> b_flags (bufs s ! i) = 0 \<and> b_dev (bufs s ! i) = 0 \<and> b_refcnt (bufs s ! i) = 0 \<and>
      length (b_data (bufs s ! i)) = BSIZE"
    and "\<forall>d\<in>set (disk s). length d = BSIZE" "length (disk s) < 2 ^ 32"
  shows "\<exists>t. binit s env = Ok () t env \<and> linked (rev [0..<NBUF]) (bufs t) \<and> bio_ok t \<and> disk t = disk s \<and>
    (\<forall>n. unat n < length (disk s) \<longrightarrow>
       (\<exists>b u. bread 1 n t env = Ok b u env \<and> blocked u b \<and> b_data (bufs u ! b) = disk s ! unat n \<and>
          bio_ok u \<and> bview u = (bview t)\<lparr>v_held := {unat n}\<rparr>))"
proof -
  have "wp binit (\<lambda>_ t. fs_ctx p t \<and> bio_ok t \<and> disk t = disk s \<and> v_held (bview t) = {} \<and> v_pinned (bview t) = {} \<and>
      (\<forall>n<length (disk s). blk t n = disk s ! n) \<and> linked (rev [0..<NBUF]) (bufs t)) s"
    by (rule binit_wp [OF assms]) auto
  then obtain t where run: "binit s env = Ok () t env" and c: "fs_ctx p t" and t: "bio_ok t" "disk t = disk s" "v_held (bview t) = {}"
    "v_pinned (bview t) = {}" "\<And>n. n < length (disk s) \<Longrightarrow> blk t n = disk s ! n"
    "linked (rev [0..<NBUF]) (bufs t)"
    by (fastforce dest: wp_Ok)
  have "\<exists>b u. bread 1 n t env = Ok b u env \<and> blocked u b \<and> b_data (bufs u ! b) = disk s ! unat n \<and>
          bio_ok u \<and> bview u = (bview t)\<lparr>v_held := {unat n}\<rparr>"
    if n: "unat n < length (disk s)" for n
  proof -
    have "wp (bread 1 n) (\<lambda>b u. blocked u b \<and> b_data (bufs u ! b) = disk s ! unat n \<and> bio_ok u \<and>
        bview u = (bview t)\<lparr>v_held := {unat n}\<rparr>) t"
    proof (rule bread_wp [OF c t(1)], goal_cases)
      case (4 b u)
      then have "blk u = blk t" by (metis bview.select_convs(1) bview.surjective bview.update_convs(4) bview_simps(1))
      with 4 buf_at_data(1) [of u b] t(3) t(5) [OF n] show ?case by (auto simp: buf_at_def)
    qed (use n t in \<open>auto simp: NBUF_def\<close>)
    then show ?thesis by (fastforce dest: wp_Ok)
  qed
  with run t show ?thesis by blast
qed

definition bio_machine :: bio_state where
  "bio_machine = sleep_state.extend sleep_machine
     \<lparr>bufs = replicate (Suc NBUF) \<lparr>b_flags = 0, b_dev = 0, b_blockno = 0, b_refcnt = 0, b_prev = 0, b_next = 0,
        b_data = replicate BSIZE 0\<rparr>,
      disk = [replicate BSIZE 7, replicate BSIZE 9], dwrites = []\<rparr>"

lemmas bio_machine_defs = bio_machine_def sleep_state.defs sleep_machine_defs

lemma bio_machine_ctx: "fs_ctx 1 bio_machine"
  by (auto simp: fs_ctx_def proc_ctx_def cpu_ok_def cur_def curproc_def free_lock_def bio_machine_defs
      init_proc_def shell_proc_def blank_proc_def)

lemma bio_machine_fields:
  "bufs bio_machine = replicate (Suc NBUF) \<lparr>b_flags = 0, b_dev = 0, b_blockno = 0, b_refcnt = 0, b_prev = 0,
     b_next = 0, b_data = replicate BSIZE 0\<rparr>"
  "disk bio_machine = [replicate BSIZE 7, replicate BSIZE 9]"
  by (simp_all add: bio_machine_def sleep_state.defs)

theorem binit_then_bread_witness:
  "\<exists>t. binit bio_machine [] = Ok () t [] \<and>
     (\<exists>b u. bread 1 1 t [] = Ok b u [] \<and> b_data (bufs u ! b) = replicate BSIZE 9)"
proof -
  have "length (bufs bio_machine) = Suc NBUF" "\<forall>d\<in>set (disk bio_machine). length d = BSIZE"
    by (simp_all add: bio_machine_fields)
  moreover have "b_flags (bufs bio_machine ! i) = 0 \<and> b_dev (bufs bio_machine ! i) = 0 \<and>
      b_refcnt (bufs bio_machine ! i) = 0 \<and> length (b_data (bufs bio_machine ! i)) = BSIZE" if "i < NBUF" for i
    using that by (simp add: bio_machine_fields del: replicate_Suc)
  moreover have "length (disk bio_machine) < 2 ^ 32" "disk bio_machine ! unat (1 :: uint) = replicate BSIZE 9"
    "unat (1 :: uint) < length (disk bio_machine)" by (simp_all add: bio_machine_fields)
  ultimately show ?thesis using binit_then_bread [of 1 bio_machine "[]"] bio_machine_ctx by metis
qed

end
