(* ===== verification/Log.thy ===== *)
theory Log
  imports Bio
begin

text \<open>
  The write-ahead log, \<open>log.c\<close>, with \<open>readsb\<close> of \<open>fs.c\<close> (which \<open>initlog\<close> calls).  Log
  writes reach the disk only through the cache; a crash at any point leaves the disk after some
  prefix of the block writes a commit makes, and the main theorem runs the recovery code on
  that disk: it shows the transaction entirely or not at all.  An index past the end of
  \<open>lh.block\<close> (a header with \<open>n\<close> over \<open>LOGSIZE\<close>) is outside the model: the theorems assume
  a header the code itself has written.
\<close>

section \<open>State\<close>

definition LOGSIZE :: nat where "LOGSIZE = 30"
definition MAXOPBLOCKS :: nat where "MAXOPBLOCKS = 10"

record superblock =
  sb_size :: uint
  sb_nblocks :: uint
  sb_ninodes :: uint
  sb_nlog :: uint
  sb_logstart :: uint
  sb_inodestart :: uint
  sb_bmapstart :: uint

record logheader =
  lh_n :: cint
  lh_block :: "cint list"

record loginfo =
  lg_start :: cint
  lg_size :: cint
  lg_outstanding :: cint
  lg_committing :: cint
  lg_dev :: cint
  lg_lh :: logheader

record log_state = bio_state +
  log :: loginfo

definition set_log :: "(loginfo \<Rightarrow> loginfo) \<Rightarrow> 'a log_state_scheme \<Rightarrow> 'a log_state_scheme" where
  "set_log f s = s\<lparr>log := f (log s)\<rparr>"

definition set_lh :: "(logheader \<Rightarrow> logheader) \<Rightarrow> 'a log_state_scheme \<Rightarrow> 'a log_state_scheme" where
  "set_lh f = set_log (lg_lh_update f)"

abbreviation bdata :: "'a bio_state_scheme \<Rightarrow> nat \<Rightarrow> block" where
  "bdata s b \<equiv> b_data (bufs s ! b)"

abbreviation put_data :: "nat \<Rightarrow> (block \<Rightarrow> block) \<Rightarrow> 'a bio_state_scheme \<Rightarrow> 'a bio_state_scheme" where
  "put_data b f \<equiv> set_buf b (b_data_update f)"

section \<open>The code\<close>

definition sb_of :: "block \<Rightarrow> superblock" where
  "sb_of d = \<lparr>sb_size = get32 d 0, sb_nblocks = get32 d 4, sb_ninodes = get32 d 8, sb_nlog = get32 d 12,
     sb_logstart = get32 d 16, sb_inodestart = get32 d 20, sb_bmapstart = get32 d 24\<rparr>"

definition readsb :: "uint \<Rightarrow> ('a log_state_scheme, superblock) K" where
  "readsb dev = bindK (bread dev 1) (\<lambda>bp. bindK (gets (\<lambda>s. sb_of (bdata s bp))) (\<lambda>sb. thenK (brelse bp) (ret sb)))"

definition install_trans :: "('a log_state_scheme, unit) K" where
  "install_trans =
     bindK (gets (\<lambda>s. lh_n (lg_lh (log s)))) (\<lambda>n.
     forK [0..<nat (sint n)] (\<lambda>tail.
       bindK (gets log) (\<lambda>lg.
       bindK (bread (lg_dev lg) (lg_start lg + of_nat tail + 1)) (\<lambda>lbuf.
       bindK (bread (lg_dev lg) (lh_block (lg_lh lg) ! tail)) (\<lambda>dbuf. block
         [modify (\<lambda>s. put_data dbuf (\<lambda>_. bdata s lbuf) s),
          bwrite dbuf,
          brelse lbuf,
          brelse dbuf])))))"

definition read_head :: "('a log_state_scheme, unit) K" where
  "read_head =
     bindK (gets log) (\<lambda>lg.
     bindK (bread (lg_dev lg) (lg_start lg)) (\<lambda>b.
     bindK (gets (\<lambda>s. bdata s b)) (\<lambda>lh. block
       [modify (set_lh (lh_n_update (\<lambda>_. get32 lh 0))),
        forK [0..<nat (sint (get32 lh 0))] (\<lambda>i.
          modify (set_lh (lh_block_update (\<lambda>bs. bs[i := get32 lh (4 + 4 * i)])))),
        brelse b])))"

definition write_head :: "('a log_state_scheme, unit) K" where
  "write_head =
     bindK (gets log) (\<lambda>lg.
     bindK (bread (lg_dev lg) (lg_start lg)) (\<lambda>b. block
       [modify (\<lambda>s. put_data b (\<lambda>hb. put32 hb 0 (lh_n (lg_lh lg))) s),
        forK [0..<nat (sint (lh_n (lg_lh lg)))] (\<lambda>i.
          modify (\<lambda>s. put_data b (\<lambda>hb. put32 hb (4 + 4 * i) (lh_block (lg_lh (log s)) ! i)) s)),
        bwrite b,
        brelse b]))"

definition recover_from_log :: "('a log_state_scheme, unit) K" where
  "recover_from_log = block
     [read_head,
      install_trans,
      modify (set_lh (lh_n_update (\<lambda>_. 0))),
      write_head]"

definition initlog :: "uint \<Rightarrow> ('a log_state_scheme, unit) K" where
  "initlog dev = (if 4 + 4 * LOGSIZE \<ge> BSIZE then panic ''initlog: too big logheader'' else
     thenK (initlock LogLock ''log'') (
     bindK (readsb dev) (\<lambda>sb. block
       [modify (set_log (lg_start_update (\<lambda>_. sb_logstart sb))),
        modify (set_log (lg_size_update (\<lambda>_. sb_nlog sb))),
        modify (set_log (lg_dev_update (\<lambda>_. dev))),
        recover_from_log])))"

text \<open>No room for another operation: a commit is under way, or the reserved space would not fit.\<close>

definition log_full :: "loginfo \<Rightarrow> bool" where
  "log_full lg \<longleftrightarrow> lg_committing lg \<noteq> 0 \<or>
     sint (of_nat LOGSIZE :: cint) < sint (lh_n (lg_lh lg) + (lg_outstanding lg + 1) * of_nat MAXOPBLOCKS)"

definition begin_op :: "('a log_state_scheme, unit) K" where
  "begin_op = block
     [acquire LogLock,
      wait_while (\<lambda>s. log_full (log s)) ChanLog LogLock,
      modify (set_log (lg_outstanding_update (\<lambda>n. n + 1))),
      release LogLock]"

definition write_log :: "('a log_state_scheme, unit) K" where
  "write_log =
     bindK (gets (\<lambda>s. lh_n (lg_lh (log s)))) (\<lambda>n.
     forK [0..<nat (sint n)] (\<lambda>tail.
       bindK (gets log) (\<lambda>lg.
       bindK (bread (lg_dev lg) (lg_start lg + of_nat tail + 1)) (\<lambda>to.
       bindK (bread (lg_dev lg) (lh_block (lg_lh lg) ! tail)) (\<lambda>from. block
         [modify (\<lambda>s. put_data to (\<lambda>_. bdata s from) s),
          bwrite to,
          brelse from,
          brelse to])))))"

definition commit :: "('a log_state_scheme, unit) K" where
  "commit = bindK (gets (\<lambda>s. lh_n (lg_lh (log s)))) (\<lambda>n. whenK (0 < sint n) (block
     [write_log,
      write_head,
      install_trans,
      modify (set_lh (lh_n_update (\<lambda>_. 0))),
      write_head]))"

definition end_op :: "('a log_state_scheme, unit) K" where
  "end_op = block
     [acquire LogLock,
      modify (set_log (lg_outstanding_update (\<lambda>n. n - 1))),
      bindK (gets (\<lambda>s. lg_committing (log s))) (\<lambda>c. whenK (c \<noteq> 0) (panic ''log.committing'')),
      bindK (gets (\<lambda>s. lg_outstanding (log s))) (\<lambda>out.
        if out = 0
        then block
          [modify (set_log (lg_committing_update (\<lambda>_. 1))),
           release LogLock,
           commit,
           acquire LogLock,
           modify (set_log (lg_committing_update (\<lambda>_. 0))),
           wakeup ChanLog,
           release LogLock]
        else block
          [wakeup ChanLog,
           release LogLock])]"

definition log_write :: "nat \<Rightarrow> ('a log_state_scheme, unit) K" where
  "log_write b =
     bindK (gets log) (\<lambda>lg.
       if sint (lh_n (lg_lh lg)) \<ge> int LOGSIZE \<or> sint (lh_n (lg_lh lg)) \<ge> sint (lg_size lg - 1)
       then panic ''too big a transaction''
       else if sint (lg_outstanding lg) < 1 then panic ''log_write outside of trans''
       else thenK (acquire LogLock) (
         bindK (gets (\<lambda>s. (lg_lh (log s), b_blockno (bufs s ! b)))) (\<lambda>(lh, blockno).
         bindK (ret (case first_index (\<lambda>x. x = blockno) (take (nat (sint (lh_n lh))) (lh_block lh)) of
             Some i \<Rightarrow> i | None \<Rightarrow> nat (sint (lh_n lh)))) (\<lambda>i. block
           [modify (set_lh (lh_block_update (\<lambda>bs. bs[i := blockno]))),
            whenK (int i = sint (lh_n lh)) (modify (set_lh (lh_n_update (\<lambda>n. n + 1)))),
            modify (set_buf b (b_flags_update (\<lambda>f. f OR B_DIRTY))),
            release LogLock]))))"

section \<open>Copying blocks through the cache\<close>

definition copied_view :: "nat \<Rightarrow> nat \<Rightarrow> bview \<Rightarrow> bview" where
  "copied_view src dst v = v\<lparr>v_blk := (v_blk v)(dst := v_blk v src), v_disk := (v_disk v)[dst := v_blk v src],
     v_writes := v_writes v @ [(dst, v_blk v src)], v_pinned := v_pinned v - {dst}\<rparr>"

context block_cache
begin

text \<open>Both orders of reading the two buffers: the log is read first when it is installed, and
  first when it is written.\<close>

lemma copy_both:
  assumes ok: "ok s" and h: "v_held (view s) = {}" and ne: "unat a \<noteq> unat b"
    and lt: "unat a < nblocks s" "unat b < nblocks s"
    and room: "unat a \<in> v_pinned (view s) \<or> card (v_pinned (view s)) < NBUF"
      "unat b \<in> v_pinned (view s) \<or> card (insert (unat a) (v_pinned (view s))) < NBUF"
    and R: "\<And>c d t. ok t \<Longrightarrow> rest t = rest s \<Longrightarrow> at t c (unat a) \<Longrightarrow> at t d (unat b) \<Longrightarrow> c \<noteq> d \<Longrightarrow>
      view t = (view s)\<lparr>v_held := {unat a, unat b}\<rparr> \<Longrightarrow> wp (f c d) Q t"
  shows "wp (bindK (rd a) (\<lambda>c. bindK (rd b) (\<lambda>d. f c d))) Q s"
proof (rule wp_bind, rule rd [OF ok lt(1)])
  show "unat a \<notin> v_held (view s)" "unat a \<in> v_pinned (view s) \<or> card (v_held (view s) \<union> v_pinned (view s)) < NBUF"
    using h room(1) by simp_all
  fix c t assume t: "ok t" "rest t = rest s" "at t c (unat a)"
    and v: "view t = (view s)\<lparr>v_held := insert (unat a) (v_held (view s))\<rparr>"
  show "wp (bindK (rd b) (f c)) Q t"
  proof (rule wp_bind, rule rd [OF t(1)])
    show "unat b < nblocks t" using lt(2) by (simp add: nblocks v)
    show "unat b \<notin> v_held (view t)" "unat b \<in> v_pinned (view t) \<or> card (v_held (view t) \<union> v_pinned (view t)) < NBUF"
      using h ne room(2) by (simp_all add: v)
    fix d u assume u: "ok u" "rest u = rest t" "at u d (unat b)"
      "view u = (view t)\<lparr>v_held := insert (unat b) (v_held (view t))\<rparr>"
      and keep: "\<And>c m. at t c m \<Longrightarrow> c \<noteq> d \<and> at u c m"
    show "wp (f c d) Q u"
      using u t keep [OF t(3)] h by (intro R) (simp_all add: v insert_commute)
  qed
qed

lemma copy_src_first:
  assumes ok: "ok s" and h: "v_held (view s) = {}" and ne: "unat src \<noteq> unat dst"
    and lt: "unat src < nblocks s" "unat dst < nblocks s"
    and room: "unat src \<in> v_pinned (view s) \<or> card (v_pinned (view s)) < NBUF"
      "unat dst \<in> v_pinned (view s) \<or> card (insert (unat src) (v_pinned (view s))) < NBUF"
    and Q: "\<And>t. ok t \<Longrightarrow> rest t = rest s \<Longrightarrow> view t = copied_view (unat src) (unat dst) (view s) \<Longrightarrow> Q () t"
  shows "wp (bindK (rd src) (\<lambda>l. bindK (rd dst) (\<lambda>d.
    block [modify (\<lambda>s. put d (\<lambda>_. data s l) s), wr d, rel l, rel d]))) Q s"
proof (rule copy_both [OF ok h ne lt room])
  fix l d t assume t: "ok t" "rest t = rest s" "at t l (unat src)" "at t d (unat dst)" "l \<noteq> d"
    and v: "view t = (view s)\<lparr>v_held := {unat src, unat dst}\<rparr>"
  have cl: "unat src \<in> v_pinned (view t) \<or> v_blk (view t) (unat src) = v_disk (view t) ! unat src"
    using clean [OF ok lt(1)] h by (auto simp: v)
  show "wp (block [modify (\<lambda>s. put d (\<lambda>_. data s l) s), wr d, rel l, rel d]) Q t"
  proof (rule copy_held [OF t(1,3,4,5) ne _ cl])
    show "unat dst < nblocks t" using lt(2) by (simp add: nblocks v)
    fix u assume u: "ok u" "rest u = rest t" "view u = (view t)\<lparr>v_blk := (v_blk (view t))(unat dst := v_blk (view t) (unat src)),
        v_disk := (v_disk (view t))[unat dst := v_blk (view t) (unat src)],
        v_writes := v_writes (view t) @ [(unat dst, v_blk (view t) (unat src))],
        v_held := v_held (view t) - {unat src, unat dst}, v_pinned := v_pinned (view t) - {unat dst}\<rparr>"
    have "view u = copied_view (unat src) (unat dst) (view s)"
      unfolding u(3) v copied_view_def using h by (cases "view s") auto
    with u t show "Q () u" by (intro Q) simp_all
  qed
qed

lemma copy_dst_first:
  assumes ok: "ok s" and h: "v_held (view s) = {}" and ne: "unat dst \<noteq> unat src"
    and lt: "unat dst < nblocks s" "unat src < nblocks s"
    and room: "unat dst \<in> v_pinned (view s) \<or> card (v_pinned (view s)) < NBUF"
      "unat src \<in> v_pinned (view s) \<or> card (insert (unat dst) (v_pinned (view s))) < NBUF"
    and Q: "\<And>t. ok t \<Longrightarrow> rest t = rest s \<Longrightarrow> view t = copied_view (unat src) (unat dst) (view s) \<Longrightarrow> Q () t"
  shows "wp (bindK (rd dst) (\<lambda>d. bindK (rd src) (\<lambda>l.
    block [modify (\<lambda>s. put d (\<lambda>_. data s l) s), wr d, rel l, rel d]))) Q s"
proof (rule copy_both [OF ok h ne lt room])
  fix d l t assume t: "ok t" "rest t = rest s" "at t d (unat dst)" "at t l (unat src)" "d \<noteq> l"
    and v: "view t = (view s)\<lparr>v_held := {unat dst, unat src}\<rparr>"
  have cl: "unat src \<in> v_pinned (view t) \<or> v_blk (view t) (unat src) = v_disk (view t) ! unat src"
    using clean [OF ok lt(2)] h by (auto simp: v)
  show "wp (block [modify (\<lambda>s. put d (\<lambda>_. data s l) s), wr d, rel l, rel d]) Q t"
  proof (rule copy_held [OF t(1,4,3) t(5) [symmetric] ne [symmetric] _ cl])
    show "unat dst < nblocks t" using lt(1) by (simp add: nblocks v)
    fix u assume u: "ok u" "rest u = rest t" "view u = (view t)\<lparr>v_blk := (v_blk (view t))(unat dst := v_blk (view t) (unat src)),
        v_disk := (v_disk (view t))[unat dst := v_blk (view t) (unat src)],
        v_writes := v_writes (view t) @ [(unat dst, v_blk (view t) (unat src))],
        v_held := v_held (view t) - {unat src, unat dst}, v_pinned := v_pinned (view t) - {unat dst}\<rparr>"
    have "view u = copied_view (unat src) (unat dst) (view s)"
      unfolding u(3) v copied_view_def using h by (cases "view s") auto
    with u t show "Q () u" by (intro Q) simp_all
  qed
qed

end

section \<open>Frame rules\<close>

lemma log_frame [simp]:
  "log (acquired l s) = log s"
  "log (noted s) = log s"
  by (simp_all add: acquired_def pushed_def noted_def set_cpu_def set_lock_def)

lemma log_commute [simp]:
  "log_update u0 (acquired l s) = acquired l (log_update u0 s)"
  "log_update u0 (noted s) = noted (log_update u0 s)"
  by (simp_all add: acquired_def pushed_def noted_def set_cpu_def set_lock_def cur_def)

lemma log_context [simp]:
  "cur (log_update u0 s) = cur s"
  "cpu_ok (log_update u0 s) = cpu_ok s"
  "free_lock l (log_update u0 s) = free_lock l s"
  "held_here l (log_update u0 s) = held_here l s"
  by (simp_all add: cur_def cpu_ok_def free_lock_def held_here_def)

lemma log_ops [simp]:
  "log (set_proc i g s) = log s"
  "log (slept p c s) = log s"
  "log (woken p s) = log s"
  "log (settled s) = log s"
  "log (kfreed a s) = log s"
  "log (kalloced s) = log s"
  "log (set_cpu i h s) = log s"
  by (simp_all add: set_proc_def slept_def woken_def settled_def kfreed_def kalloced_def set_cpu_def)

lemma log_kept [simp]:
  "curproc (log_update u0 s) = curproc s"
  "proc_ctx p (log_update u0 s) = proc_ctx p s"
  "kmem_ready (log_update u0 s) = kmem_ready s"
  "kmem_inv (log_update u0 s) xs = kmem_inv s xs"
  by (simp_all add: curproc_def proc_ctx_def kmem_ready_def kmem_inv_def cur_def cpu_ok_def free_lock_def)


lemma rest_log: "bio_rest t = bio_rest s \<Longrightarrow> log t = log s"
  by (drule arg_cong [where f = log]) (simp add: bio_rest_def)

definition log_rest :: "'a log_state_scheme \<Rightarrow> 'a log_state_scheme" where
  "log_rest s = (bio_rest s)\<lparr>log := undefined\<rparr>"

lemma log_rest_bio: "bio_rest t = bio_rest s \<Longrightarrow> log_rest t = log_rest s"
  by (simp add: log_rest_def)

lemma bio_cong:
  assumes "bufs t = bufs s" "disk t = disk s" "slocks t = slocks s"
  shows "blk t = blk s" "bio_ok t = bio_ok s" "buf_at t = buf_at s"
proof -
  show "blk t = blk s" unfolding blk_def assms by (rule refl)
  show "bio_ok t = bio_ok s" unfolding bio_ok_def blocked_def assms by (rule refl)
  show "buf_at t = buf_at s" by (intro ext) (simp add: buf_at_def blocked_def assms)
qed

lemma bview_cong:
  assumes "bufs t = bufs s" "disk t = disk s" "slocks t = slocks s" "dwrites t = dwrites s"
  shows "bview t = bview s"
  unfolding bview_def bio_cong(1) [OF assms(1-3)] unfolding blocked_def assms by (rule refl)

lemma set_log_simps [simp]:
  "log (set_log f s) = f (log s)" "bufs (set_log f s) = bufs s" "disk (set_log f s) = disk s"
  "dwrites (set_log f s) = dwrites s" "slocks (set_log f s) = slocks s" "log_rest (set_log f s) = log_rest s"
  "fs_ctx p (set_log f s) = fs_ctx p s" "set_log f (set_log g s) = set_log (\<lambda>x. f (g x)) s"
  by (simp_all add: set_log_def log_rest_def bio_rest_def fs_ctx_def
      proc_ctx_def cpu_ok_def cur_def curproc_def free_lock_def cong: slid.case_cong)

lemma set_log_bio [simp]:
  "bview (set_log f s) = bview s" "bio_ok (set_log f s) = bio_ok s"
  "buf_at (set_log f s) = buf_at s" "blk (set_log f s) = blk s"
  by (rule bio_cong bview_cong; simp)+

lemma set_lh_simps [simp]:
  "log (set_lh f s) = (log s)\<lparr>lg_lh := f (lg_lh (log s))\<rparr>" "bufs (set_lh f s) = bufs s" "disk (set_lh f s) = disk s"
  "dwrites (set_lh f s) = dwrites s" "bview (set_lh f s) = bview s" "bio_ok (set_lh f s) = bio_ok s"
  "buf_at (set_lh f s) = buf_at s" "blk (set_lh f s) = blk s" "log_rest (set_lh f s) = log_rest s"
  "fs_ctx p (set_lh f s) = fs_ctx p s"
  by (simp_all add: set_lh_def)

section \<open>Sequences of block writes\<close>

definition apply_writes :: "(nat \<times> block) list \<Rightarrow> block list \<Rightarrow> block list" where
  "apply_writes ws d = fold (\<lambda>(n, x) d. d[n := x]) ws d"

definition upd_blks :: "(nat \<times> block) list \<Rightarrow> (nat \<Rightarrow> block) \<Rightarrow> nat \<Rightarrow> block" where
  "upd_blks ws f = fold (\<lambda>(n, x) f. f(n := x)) ws f"

definition wrote :: "(nat \<times> block) list \<Rightarrow> bview \<Rightarrow> bview" where
  "wrote ws v = v\<lparr>v_blk := upd_blks ws (v_blk v), v_disk := apply_writes ws (v_disk v),
     v_writes := v_writes v @ ws, v_pinned := v_pinned v - fst ` set ws\<rparr>"

lemma apply_writes_simps [simp]:
  "apply_writes [] d = d" "apply_writes ((n, x) # ws) d = apply_writes ws (d[n := x])"
  "apply_writes (ws @ vs) d = apply_writes vs (apply_writes ws d)"
  "length (apply_writes ws d) = length d"
proof -
  show "length (apply_writes ws d) = length d"
    by (induction ws arbitrary: d) (auto simp: apply_writes_def)
qed (simp_all add: apply_writes_def)

lemma upd_blks_simps [simp]:
  "upd_blks [] f = f" "upd_blks ((n, x) # ws) f = upd_blks ws (f(n := x))"
  "upd_blks (ws @ vs) f = upd_blks vs (upd_blks ws f)"
  by (simp_all add: upd_blks_def)

lemma upd_blks_other: "n \<notin> fst ` set ws \<Longrightarrow> upd_blks ws f n = f n"
  by (induction ws arbitrary: f) auto

lemma apply_writes_nth:
  "n < length d \<Longrightarrow> apply_writes ws d ! n = upd_blks ws (\<lambda>n. d ! n) n"
proof (induction ws arbitrary: d rule: rev_induct)
  case Nil
  then show ?case by simp
next
  case (snoc w ws)
  then show ?case by (cases w) (auto simp: nth_list_update)
qed

lemma upd_blks_map:
  "distinct (map fst ws) \<Longrightarrow> (n, x) \<in> set ws \<Longrightarrow> upd_blks ws f n = x"
proof (induction ws arbitrary: f)
  case (Cons w ws)
  then show ?case by (cases w) (auto simp: upd_blks_other rev_image_eqI)
qed simp

lemma wrote_simps [simp]:
  "wrote [] v = v" "v_held (wrote ws v) = v_held v" "v_disk (wrote ws v) = apply_writes ws (v_disk v)"
  "v_blk (wrote ws v) = upd_blks ws (v_blk v)" "v_pinned (wrote ws v) = v_pinned v - fst ` set ws"
  "v_writes (wrote ws v) = v_writes v @ ws" "wrote vs (wrote ws v) = wrote (ws @ vs) v"
  by (cases v; auto simp: wrote_def)+

lemma copied_wrote: "v_blk v src = x \<Longrightarrow> copied_view src dst v = wrote [(dst, x)] v"
  by (cases v) (simp add: copied_view_def wrote_def)

section \<open>The copying loops\<close>

definition nlogged :: "loginfo \<Rightarrow> nat" where
  "nlogged lg = unat (lh_n (lg_lh lg))"

definition targets :: "loginfo \<Rightarrow> nat list" where
  "targets lg = map unat (take (nlogged lg) (lh_block (lg_lh lg)))"

abbreviation lstart :: "loginfo \<Rightarrow> nat" where
  "lstart lg \<equiv> unat (lg_start lg)"

text \<open>The log lies inside the disk, and the logged blocks are different blocks outside of it.\<close>

definition log_ok :: "loginfo \<Rightarrow> nat \<Rightarrow> bool" where
  "log_ok lg nd \<longleftrightarrow> lg_dev lg = 1 \<and> nlogged lg < LOGSIZE \<and> length (lh_block (lg_lh lg)) = LOGSIZE \<and>
     lstart lg + LOGSIZE \<le> nd \<and> distinct (targets lg) \<and>
     (\<forall>b\<in>set (targets lg). b < nd \<and> (b < lstart lg \<or> lstart lg + LOGSIZE \<le> b))"

lemma sint_unat: "unat (n :: cint) < 2147483648 \<Longrightarrow> sint n = int (unat n)"
proof -
  assume "unat n < 2147483648"
  then have "int (unat n) < 2147483648" by linarith
  with sint_word_of_int [of "int (unat n)"] show "sint n = int (unat n)" by simp
qed

lemma sint_small: "unat (n :: cint) < LOGSIZE \<Longrightarrow> sint n = int (unat n)"
  by (simp add: LOGSIZE_def sint_unat)

lemma log_okD:
  assumes "log_ok lg nd"
  shows "nat (sint (lh_n (lg_lh lg))) = nlogged lg" "length (targets lg) = nlogged lg"
    "k < nlogged lg \<Longrightarrow> unat (lh_block (lg_lh lg) ! k) = targets lg ! k"
    "k < nlogged lg \<Longrightarrow> targets lg ! k < nd"
    "k < nlogged lg \<Longrightarrow> targets lg ! k < lstart lg \<or> lstart lg + LOGSIZE \<le> targets lg ! k"
    "distinct (targets lg)" "nlogged lg < LOGSIZE" "lg_dev lg = 1" "lstart lg + LOGSIZE \<le> nd"
proof -
  show n: "length (targets lg) = nlogged lg" using assms by (simp add: log_ok_def targets_def nlogged_def)
  show "nat (sint (lh_n (lg_lh lg))) = nlogged lg" using assms sint_small by (simp add: log_ok_def nlogged_def)
  show "k < nlogged lg \<Longrightarrow> targets lg ! k < nd"
    "k < nlogged lg \<Longrightarrow> targets lg ! k < lstart lg \<or> lstart lg + LOGSIZE \<le> targets lg ! k"
    using assms n nth_mem [of k "targets lg"] by (auto simp: log_ok_def)
qed (use assms in \<open>auto simp: log_ok_def targets_def nlogged_def\<close>)

lemma unat_plus_nat:
  assumes "unat (a :: uint) + k < 4294967296"
  shows "unat (a + of_nat k) = unat a + k"
proof -
  have "unat (of_nat k :: uint) = k" using assms by (simp add: word32_of_nat_unat)
  then show ?thesis using assms by (simp add: unat_word_ariths)
qed

lemma log_index:
  assumes "lstart lg + LOGSIZE \<le> nd" "nd < 2 ^ 32" "k + 1 < LOGSIZE"
  shows "unat (lg_start lg + of_nat k + 1) = lstart lg + k + 1"
  using unat_plus_nat [of "lg_start lg" "k + 1"] assms by (simp add: ac_simps LOGSIZE_def)

text \<open>A loop that copies block \<open>src i\<close> to block \<open>dst i\<close>, round by round.\<close>

lemma copy_loop:
  assumes c: "fs_ctx p s" and ok: "bio_ok s"
    and step: "\<And>k t. k < n \<Longrightarrow> fs_ctx p t \<Longrightarrow> bio_ok t \<Longrightarrow> bio_rest t = bio_rest s \<Longrightarrow>
      bview t = wrote (map (\<lambda>i. (dst i, blk s (src i))) [0..<k]) (bview s) \<Longrightarrow>
      wp (f k) (\<lambda>_ u. fs_ctx p u \<and> bio_ok u \<and> bio_rest u = bio_rest t \<and>
        bview u = copied_view (src k) (dst k) (bview t)) t"
    and apart: "\<And>j k. j < k \<Longrightarrow> k < n \<Longrightarrow> dst j \<noteq> src k"
    and Q: "\<And>t. fs_ctx p t \<Longrightarrow> bio_ok t \<Longrightarrow> bio_rest t = bio_rest s \<Longrightarrow>
      bview t = wrote (map (\<lambda>i. (dst i, blk s (src i))) [0..<n]) (bview s) \<Longrightarrow> Q () t"
  shows "wp (forK [0..<n] f) Q s"
proof (rule wp_forK [where I = "\<lambda>k t. fs_ctx p t \<and> bio_ok t \<and> bio_rest t = bio_rest s \<and>
      bview t = wrote (map (\<lambda>i. (dst i, blk s (src i))) [0..<k]) (bview s)"], goal_cases)
  case 1
  then show ?case using c ok by simp
next
  case (2 k t)
  then have k: "k < n" and t: "fs_ctx p t" "bio_ok t" "bio_rest t = bio_rest s"
    and v: "bview t = wrote (map (\<lambda>i. (dst i, blk s (src i))) [0..<k]) (bview s)" by auto
  have "src k \<notin> fst ` set (map (\<lambda>i. (dst i, blk s (src i))) [0..<k])" using apart [OF _ k] by force
  then have "v_blk (bview t) (src k) = blk s (src k)"
    unfolding v wrote_simps bview_simps by (rule upd_blks_other)
  from copied_wrote [OF this, of "dst k"] step [OF k t v] show ?case
    using k t by (auto simp: v elim!: wp_mono)
next
  case (3 t)
  then show ?case by (intro Q) auto
qed

lemma round_facts:
  assumes lg: "log_ok lg nd" and nd: "nd < 2 ^ 32" and k: "k < nlogged lg"
  shows "unat (lg_start lg + of_nat k + 1) = lstart lg + k + 1" "unat (lh_block (lg_lh lg) ! k) = targets lg ! k"
    "lstart lg + k + 1 < nd" "targets lg ! k < nd" "lstart lg + k + 1 \<noteq> targets lg ! k"
    "card (set (targets lg)) < NBUF" "targets lg ! k \<in> set (targets lg)"
proof -
  show "lstart lg + k + 1 \<noteq> targets lg ! k" using log_okD(5) [OF lg k] log_okD(7) [OF lg] k by (auto simp: LOGSIZE_def)
qed (use log_okD [OF lg] k nd log_index [of lg nd k] nth_mem [of k "targets lg"]
    in \<open>simp_all add: LOGSIZE_def NBUF_def distinct_card\<close>)

lemma install_trans_wp:
  assumes c: "fs_ctx p s" and ok: "bio_ok s" and h: "v_held (bview s) = {}" and lg: "log_ok (log s) (length (disk s))"
    and pin: "v_pinned (bview s) = {} \<or> v_pinned (bview s) = set (targets (log s))"
    and Q: "\<And>t. fs_ctx p t \<Longrightarrow> bio_ok t \<Longrightarrow> bio_rest t = bio_rest s \<Longrightarrow>
      bview t = wrote (map (\<lambda>i. (targets (log s) ! i, blk s (lstart (log s) + i + 1))) [0..<nlogged (log s)]) (bview s) \<Longrightarrow>
      Q () t"
  shows "wp install_trans Q s"
proof -
  let ?lg = "log s" and ?d = "length (disk s)" and ?src = "\<lambda>i. lstart (log s) + i + 1" and ?dst = "\<lambda>i. targets (log s) ! i"
  note L = log_okD [OF lg]
  have nd: "?d < 2 ^ 32" using ok by (simp add: bio_ok_def)
  show ?thesis
    unfolding install_trans_def wp_bind_simps L(1)
  proof (rule copy_loop [OF c ok, where dst = ?dst and src = ?src], goal_cases)
    case (1 k t)
    note k = 1(1) and t = 1(2-4) and v = 1(5) and F = round_facts [OF lg nd 1(1)]
    have lt: "log t = ?lg" using rest_log [OF t(3)] .
    have dt: "length (disk t) = ?d" using arg_cong [OF v, of v_disk] by simp
    have ht: "v_held (bview t) = {}" using h by (simp add: v)
    have sub: "v_pinned (bview t) \<subseteq> set (targets ?lg)" using pin by (auto simp: v)
    have room: "card (v_pinned (bview t)) < NBUF" using card_mono [OF _ sub] F(6) by simp
    have room2: "?dst k \<in> v_pinned (bview t) \<or> card (insert (?src k) (v_pinned (bview t))) < NBUF"
    proof (cases "v_pinned (bview s) = {}")
      case True
      then show ?thesis by (simp add: v NBUF_def)
    next
      case False
      then have "v_pinned (bview s) = set (targets ?lg)" using pin by blast
      then show ?thesis using k L(2,6) by (auto simp: v nth_eq_iff_index_eq)
    qed
    have ctx: "fs_ctx p t \<and> bio_ok t" using t by simp
    show ?case
      unfolding wp_bind_simps lt L(8)
      by (rule bc.copy_src_first [OF ctx ht]) (use F room room2 in \<open>simp_all only: dt simp_thms\<close>)
  next
    case (2 j k)
    then show ?case using L(5) [of j] L(7) by (auto simp: LOGSIZE_def)
  next
    case (3 t)
    then show ?case by (rule Q)
  qed
qed

lemma write_log_wp:
  assumes c: "fs_ctx p s" and ok: "bio_ok s" and h: "v_held (bview s) = {}" and lg: "log_ok (log s) (length (disk s))"
    and pin: "v_pinned (bview s) = set (targets (log s))"
    and Q: "\<And>t. fs_ctx p t \<Longrightarrow> bio_ok t \<Longrightarrow> bio_rest t = bio_rest s \<Longrightarrow>
      bview t = wrote (map (\<lambda>i. (lstart (log s) + i + 1, blk s (targets (log s) ! i))) [0..<nlogged (log s)]) (bview s) \<Longrightarrow>
      Q () t"
  shows "wp write_log Q s"
proof -
  let ?lg = "log s" and ?d = "length (disk s)" and ?dst = "\<lambda>i. lstart (log s) + i + 1" and ?src = "\<lambda>i. targets (log s) ! i"
  note L = log_okD [OF lg]
  have nd: "?d < 2 ^ 32" using ok by (simp add: bio_ok_def)
  show ?thesis
    unfolding write_log_def wp_bind_simps L(1)
  proof (rule copy_loop [OF c ok, where dst = ?dst and src = ?src], goal_cases)
    case (1 k t)
    note k = 1(1) and t = 1(2-4) and v = 1(5) and F = round_facts [OF lg nd 1(1)]
    have lt: "log t = ?lg" using rest_log [OF t(3)] .
    have dt: "length (disk t) = ?d" using arg_cong [OF v, of v_disk] by simp
    have ht: "v_held (bview t) = {}" using h by (simp add: v)
    have sub: "v_pinned (bview t) \<subseteq> set (targets ?lg)" using pin by (auto simp: v)
    have room: "card (v_pinned (bview t)) < NBUF" using card_mono [OF _ sub] F(6) by simp
    have "\<forall>j<k. Suc (lstart ?lg + j) \<noteq> targets ?lg ! k" using L(5) [OF k] L(7) k by (auto simp: LOGSIZE_def)
    then have "?src k \<in> v_pinned (bview t)" using F(7) pin by (auto simp: v)
    moreover have ctx: "fs_ctx p t \<and> bio_ok t" using t by simp
    ultimately show ?case
      unfolding wp_bind_simps lt L(8)
      by (intro bc.copy_dst_first [OF ctx ht]) (use F room in \<open>simp_all only: dt simp_thms\<close>)
  next
    case (2 j k)
    then show ?case using L(5) [of k] L(7) by (auto simp: LOGSIZE_def)
  next
    case (3 t)
    then show ?case by (rule Q)
  qed
qed

section \<open>The header block\<close>

definition head_block :: "logheader \<Rightarrow> block \<Rightarrow> block" where
  "head_block lh d = fold (\<lambda>i d. put32 d (4 + 4 * i) (lh_block lh ! i)) [0..<nat (sint (lh_n lh))] (put32 d 0 (lh_n lh))"

lemma length_fold_put32 [simp]: "length (fold (\<lambda>i d. put32 d (f i) (g i)) is d) = length d"
  by (induction "is" arbitrary: d) auto

lemma length_head_block [simp]: "length (head_block lh d) = length d"
  by (simp add: head_block_def)

lemma head_block_fold:
  assumes "length d = BSIZE" "k \<le> LOGSIZE"
  shows "get32 (fold (\<lambda>i d. put32 d (4 + 4 * i) (g i)) [0..<k] d) 0 = get32 d 0"
    "j < k \<Longrightarrow> get32 (fold (\<lambda>i d. put32 d (4 + 4 * i) (g i)) [0..<k] d) (4 + 4 * j) = g j"
  using assms by (induction k)
    (auto simp: get32_put32_other less_Suc_eq LOGSIZE_def BSIZE_def)

lemma head_block_get:
  assumes "length d = BSIZE" "nat (sint (lh_n lh)) \<le> LOGSIZE"
  shows "get32 (head_block lh d) 0 = lh_n lh"
    "j < nat (sint (lh_n lh)) \<Longrightarrow> get32 (head_block lh d) (4 + 4 * j) = lh_block lh ! j"
  using head_block_fold [where d = "put32 d 0 (lh_n lh)" and g = "\<lambda>i. lh_block lh ! i" and k = "nat (sint (lh_n lh))"] assms
  by (simp_all add: head_block_def BSIZE_def)

lemma wp_forK_modify: "wp (forK is (\<lambda>i. modify (f i))) Q s = Q () (fold f is s)"
  by (induction "is" arbitrary: s) simp_all

lemma put_data_fold:
  assumes "b < length (bufs s)"
  shows "fold (\<lambda>i s. put_data b (\<lambda>hb. put32 hb (4 + 4 * i) (lh_block (lg_lh (log s)) ! i)) s) is s =
    put_data b (fold (\<lambda>i hb. put32 hb (4 + 4 * i) (lh_block (lg_lh (log s)) ! i)) is) s"
  using assms
proof (induction "is" arbitrary: s)
  case Nil
  have "b_data_update (\<lambda>a. a) x = x" for x :: buf by (cases x) simp
  then have "put_data b (\<lambda>a. a) s = s" unfolding set_buf_def by (simp only: list_update_id) simp
  then show ?case by (simp add: id_def)
next
  case (Cons i "is")
  then show ?case by (simp add: set_buf_def comp_def)
qed

lemma put_data_twice: "b < length (bufs s) \<Longrightarrow> put_data b f (put_data b g s) = put_data b (\<lambda>d. f (g d)) s"
  by (simp add: set_buf_def comp_def)

lemma bio_len: "bio_ok s \<Longrightarrow> b < NBUF \<Longrightarrow> b < length (bufs s)"
  by (auto simp: bio_ok_def linked_def)

lemma write_head_wp:
  assumes c: "fs_ctx p s" and ok: "bio_ok s" and h: "v_held (bview s) = {}" and dev: "lg_dev (log s) = 1"
    and st: "lstart (log s) < length (disk s)" "lstart (log s) \<notin> v_pinned (bview s)" "card (v_pinned (bview s)) < NBUF"
    and Q: "\<And>t. fs_ctx p t \<Longrightarrow> bio_ok t \<Longrightarrow> bio_rest t = bio_rest s \<Longrightarrow>
      bview t = wrote [(lstart (log s), head_block (lg_lh (log s)) (blk s (lstart (log s))))] (bview s) \<Longrightarrow> Q () t"
  shows "wp write_head Q s"
  unfolding write_head_def wp_bind_simps dev
proof (rule wp_bind, rule bread_wp [OF c ok], goal_cases)
  case (4 b t)
  note t = 4(1-4) and v = 4(5)
  let ?n = "lstart (log s)" and ?lh = "lg_lh (log s)"
  let ?f = "head_block (lg_lh (log s))" and ?u = "put_data b (head_block (lg_lh (log s))) t"
  have b: "b < length (bufs t)" using bio_len t by (auto simp: buf_at_def)
  have lt: "log t = log s" by (rule rest_log [OF t(3)])
  have e: "put_data b (fold (\<lambda>i hb. put32 hb (4 + 4 * i) (lh_block (lg_lh (log (put_data b (\<lambda>hb. put32 hb 0 (lh_n ?lh)) t))) ! i))
      [0..<nat (sint (lh_n ?lh))]) (put_data b (\<lambda>hb. put32 hb 0 (lh_n ?lh)) t) = ?u"
    unfolding put_data_twice [OF b] by (rule arg_cong [where f = "\<lambda>f. put_data b f t"])
      (simp add: fun_eq_iff head_block_def set_buf_def lt)
  have d: "bdata t b = blk s ?n" using buf_at_data(1) [OF t(2,4)] arg_cong [OF v, of v_blk] by simp
  have len: "length (?f (bdata t b)) = BSIZE" using buf_at_data [OF t(2,4)] by simp
  have u: "fs_ctx p ?u" "bio_ok ?u" "buf_at ?u b ?n" "bio_rest ?u = bio_rest s"
    "bview ?u = (bview t)\<lparr>v_blk := (blk t)(?n := ?f (blk s ?n))\<rparr>"
    using put_view [OF t(2,4), of ?f] len t by (simp_all add: fs_ctx_init d)
  have bu: "blk ?u ?n = ?f (blk s ?n)" using arg_cong [OF u(5), of "\<lambda>v. v_blk v ?n"] by simp
  show ?case
    unfolding block.simps wp_bind_simps
  proof (rule wp_then, unfold wp_forK_modify, subst put_data_fold, use b in \<open>simp add: set_buf_def\<close>, unfold e,
      rule wp_then, rule bwrite_wp [OF u(1-3)], goal_cases)
    case (1 w)
    note w = 1
    have vw: "bview w = (bview t)\<lparr>v_blk := (blk t)(?n := ?f (blk s ?n)), v_disk := (disk t)[?n := ?f (blk s ?n)],
        v_writes := dwrites t @ [(?n, ?f (blk s ?n))], v_pinned := v_pinned (bview t) - {?n}\<rparr>"
      using w(4) bu by (simp add: u(5))
    show ?case
    proof (rule wp_then, rule brelse_wp [OF w(1,2) w(5) [OF u(3)]], goal_cases)
      case 1
      have "blk w ?n = ?f (blk s ?n)" "disk w ! ?n = ?f (blk s ?n)"
        using arg_cong [OF vw, of v_blk] arg_cong [OF vw, of v_disk] st(1) arg_cong [OF v, of v_disk] by simp_all
      then show ?case by simp
    next
      case (2 x)
      have "bview x = wrote [(?n, ?f (blk s ?n))] (bview s)"
        unfolding 2(4) vw v using arg_cong [OF v, of v_disk] arg_cong [OF v, of v_blk] arg_cong [OF v, of v_writes] h
        by (simp add: wrote_def)
      then show ?case unfolding wp_ret using 2 w u by (intro Q) simp_all
    qed
  qed
qed (use st h in auto)

lemma set_lh_fold:
  "fold (\<lambda>i s. set_lh (lh_block_update (\<lambda>bs. bs[i := g i])) s) is s =
   set_lh (lh_block_update (fold (\<lambda>i bs. bs[i := g i]) is)) s"
proof (induction "is" arbitrary: s)
  case Nil
  have "lh_block_update (\<lambda>a. a) x = x" "lg_lh_update (\<lambda>a. a) y = y" for x :: logheader and y :: loginfo
    by (cases x, simp) (cases y, simp)
  then show ?case by (simp add: set_lh_def set_log_def id_def)
next
  case (Cons i "is")
  then show ?case by (simp add: set_lh_def set_log_def comp_def)
qed

lemma fold_update_nth:
  "length (fold (\<lambda>i bs. bs[i := g i]) [0..<k] bs) = length bs"
  "j < k \<Longrightarrow> k \<le> length bs \<Longrightarrow> fold (\<lambda>i bs. bs[i := g i]) [0..<k] bs ! j = g j"
proof -
  show len: "length (fold (\<lambda>i bs. bs[i := g i]) [0..<k] bs) = length bs" for k
    by (induction k arbitrary: bs) auto
  show "j < k \<Longrightarrow> k \<le> length bs \<Longrightarrow> fold (\<lambda>i bs. bs[i := g i]) [0..<k] bs ! j = g j"
    by (induction k) (auto simp: less_Suc_eq nth_list_update len)
qed

lemma read_head_wp:
  assumes c: "fs_ctx p s" and ok: "bio_ok s" and h: "v_held (bview s) = {}" "v_pinned (bview s) = {}"
    and dev: "lg_dev (log s) = 1" and st: "lstart (log s) < length (disk s)"
    and len: "length (lh_block (lg_lh (log s))) = LOGSIZE"
    and Q: "\<And>t. fs_ctx p t \<Longrightarrow> bio_ok t \<Longrightarrow> log_rest t = log_rest s \<Longrightarrow> bview t = bview s \<Longrightarrow>
      log t = (log s)\<lparr>lg_lh := \<lparr>lh_n = get32 (blk s (lstart (log s))) 0,
        lh_block = fold (\<lambda>i bs. bs[i := get32 (blk s (lstart (log s))) (4 + 4 * i)])
          [0..<nat (sint (get32 (blk s (lstart (log s))) 0))] (lh_block (lg_lh (log s)))\<rparr>\<rparr> \<Longrightarrow> Q () t"
  shows "wp read_head Q s"
  unfolding read_head_def wp_bind_simps dev
proof (rule wp_bind, rule bread_wp [OF c ok], goal_cases)
  case (4 b t)
  note t = 4(1-4) and v = 4(5)
  let ?n = "lstart (log s)" and ?H = "blk s (lstart (log s))"
  have lt: "log t = log s" by (rule rest_log [OF t(3)])
  have d: "bdata t b = ?H" using buf_at_data(1) [OF t(2,4)] arg_cong [OF v, of v_blk] by simp
  have cl: "blk t ?n = disk t ! ?n"
    using blk_clean [OF ok st] h arg_cong [OF v, of v_blk] arg_cong [OF v, of v_disk] by simp
  show ?case
    unfolding block.simps wp_bind_simps d
  proof (rule wp_then, unfold wp_forK_modify set_lh_fold, rule wp_then,
      rule brelse_wp [where p = p and n = "lstart (log s)"], goal_cases)
    case (5 u)
    note u = 5
    have "bview u = bview s" unfolding u(4) using h by (simp add: v)
    moreover have "log u = (log s)\<lparr>lg_lh := \<lparr>lh_n = get32 ?H 0, lh_block = fold (\<lambda>i bs. bs[i := get32 ?H (4 + 4 * i)])
          [0..<nat (sint (get32 ?H 0))] (lh_block (lg_lh (log s)))\<rparr>\<rparr>"
      unfolding rest_log [OF u(3)] by (simp add: lt)
    moreover have "log_rest u = log_rest s" using log_rest_bio [OF u(3)] log_rest_bio [OF t(3)] by simp
    ultimately show ?case unfolding wp_ret using u by (intro Q) simp_all
  qed (use t cl in simp_all)
qed (use st h in \<open>auto simp: NBUF_def\<close>)

section \<open>Recovery\<close>

definition read_lh :: "block \<Rightarrow> cint list \<Rightarrow> logheader" where
  "read_lh H bs = \<lparr>lh_n = get32 H 0,
     lh_block = fold (\<lambda>i bs. bs[i := get32 H (4 + 4 * i)]) [0..<nat (sint (get32 H 0))] bs\<rparr>"

text \<open>The writes a committed log on disk \<open>d\<close> stands for.\<close>

definition logged :: "nat \<Rightarrow> block list \<Rightarrow> (nat \<times> block) list" where
  "logged st d = map (\<lambda>i. (unat (get32 (d ! st) (4 + 4 * i)), d ! (st + i + 1))) [0..<unat (get32 (d ! st) 0)]"

definition hdr_ok :: "nat \<Rightarrow> block list \<Rightarrow> bool" where
  "hdr_ok st d \<longleftrightarrow> unat (get32 (d ! st) 0) < LOGSIZE \<and> st + LOGSIZE \<le> length d \<and> distinct (map fst (logged st d)) \<and>
     (\<forall>b\<in>fst ` set (logged st d). b < length d \<and> (b < st \<or> st + LOGSIZE \<le> b))"

lemma read_lh_targets:
  assumes h: "hdr_ok (lstart lg) d" and len: "length bs = LOGSIZE"
  shows "targets (lg\<lparr>lg_lh := read_lh (d ! lstart lg) bs\<rparr>) = map fst (logged (lstart lg) d)"
    "nlogged (lg\<lparr>lg_lh := read_lh (d ! lstart lg) bs\<rparr>) = length (logged (lstart lg) d)"
proof -
  let ?H = "d ! lstart lg" and ?k = "unat (get32 (d ! lstart lg) 0)"
  have n: "?k < LOGSIZE" "nat (sint (get32 ?H 0)) = ?k" using h sint_small [of "get32 ?H 0"] by (auto simp: hdr_ok_def)
  show "nlogged (lg\<lparr>lg_lh := read_lh ?H bs\<rparr>) = length (logged (lstart lg) d)"
    by (simp add: nlogged_def read_lh_def logged_def)
  show "targets (lg\<lparr>lg_lh := read_lh ?H bs\<rparr>) = map fst (logged (lstart lg) d)"
    using n len by (intro nth_equalityI)
      (auto simp: targets_def nlogged_def read_lh_def logged_def fold_update_nth)
qed

lemma read_lh_ok:
  assumes "hdr_ok (lstart lg) d" "length bs = LOGSIZE" "lg_dev lg = 1"
  shows "log_ok (lg\<lparr>lg_lh := read_lh (d ! lstart lg) bs\<rparr>) (length d)"
  using assms read_lh_targets [OF assms(1,2)] unfolding log_ok_def
  by (simp add: hdr_ok_def) (simp add: logged_def read_lh_def fold_update_nth)

lemma logged_targets:
  assumes "hdr_ok (lstart lg) d" "length bs = LOGSIZE"
  shows "logged (lstart lg) d = map (\<lambda>i. (targets (lg\<lparr>lg_lh := read_lh (d ! lstart lg) bs\<rparr>) ! i, d ! (lstart lg + i + 1)))
    [0..<nlogged (lg\<lparr>lg_lh := read_lh (d ! lstart lg) bs\<rparr>)]"
  unfolding read_lh_targets [OF assms] by (rule nth_equalityI) (simp_all add: logged_def)

lemma view_pinned_blk:
  assumes "bio_ok s" "v_held (bview s) = {}" "v_pinned (bview s) = {}" "n < length (disk s)"
  shows "blk s n = disk s ! n"
  using blk_clean [OF assms(1,4)] assms by simp

lemma recover_wp:
  assumes c: "fs_ctx p s" and ok: "bio_ok s" and h: "v_held (bview s) = {}" "v_pinned (bview s) = {}"
    and dev: "lg_dev (log s) = 1" and len: "length (lh_block (lg_lh (log s))) = LOGSIZE"
    and hdr: "hdr_ok (lstart (log s)) (disk s)"
    and Q: "\<And>t lh. fs_ctx p t \<Longrightarrow> bio_ok t \<Longrightarrow> log_rest t = log_rest s \<Longrightarrow> lh_n lh = 0 \<Longrightarrow>
      length (lh_block lh) = LOGSIZE \<Longrightarrow> log t = (log s)\<lparr>lg_lh := lh\<rparr> \<Longrightarrow>
      bview t = wrote (logged (lstart (log s)) (disk s) @ [(lstart (log s), put32 (disk s ! lstart (log s)) 0 0)]) (bview s) \<Longrightarrow>
      Q () t"
  shows "wp recover_from_log Q s"
proof -
  let ?st = "lstart (log s)" and ?H = "disk s ! lstart (log s)"
  let ?lg = "(log s)\<lparr>lg_lh := read_lh ?H (lh_block (lg_lh (log s)))\<rparr>"
  have st: "?st < length (disk s)" using hdr by (auto simp: hdr_ok_def LOGSIZE_def)
  have H: "blk s ?st = ?H" by (rule view_pinned_blk [OF ok h st])
  have lgok: "log_ok ?lg (length (disk s))" by (rule read_lh_ok [OF hdr len dev])
  show ?thesis
    unfolding recover_from_log_def block.simps
  proof (rule wp_then, rule read_head_wp [OF c ok h dev st len], unfold H, rule wp_then, goal_cases)
    case (1 t)
    note t = 1(1-4)
    have lt: "log t = ?lg" using 1(5) by (simp add: read_lh_def)
    have dt: "disk t = disk s" "blk t = blk s" using arg_cong [OF t(4), of v_disk] arg_cong [OF t(4), of v_blk] by simp_all
    have W: "map (\<lambda>i. (targets ?lg ! i, blk t (lstart ?lg + i + 1))) [0..<nlogged ?lg] = logged ?st (disk s)"
      unfolding logged_targets [OF hdr len]
    proof (rule map_cong [OF refl])
      fix i assume "i \<in> set [0..<nlogged ?lg]"
      then have "?st + i + 1 < length (disk s)" using log_okD(7,9) [OF lgok] by simp
      then show "(targets ?lg ! i, blk t (lstart ?lg + i + 1)) = (targets ?lg ! i, disk s ! (?st + i + 1))"
        using view_pinned_blk [OF ok h] by (simp add: dt)
    qed
    show ?case
    proof (rule install_trans_wp [OF t(1,2)], goal_cases)
      case (4 u)
      note u = 4(1-3) and vu = 4(4) [unfolded lt W t(4)]
      let ?u = "set_lh (lh_n_update (\<lambda>_. 0)) u"
      have lu: "log ?u = (log s)\<lparr>lg_lh := (lg_lh ?lg)\<lparr>lh_n := 0\<rparr>\<rparr>" using rest_log [OF u(3)] lt by simp
      have lu0: "log u = ?lg" using rest_log [OF u(3)] lt by simp
      have "?st \<notin> fst ` set (logged ?st (disk s))" using hdr by (auto simp: hdr_ok_def LOGSIZE_def)
      then have bu: "blk ?u ?st = ?H"
        using arg_cong [OF vu, of "\<lambda>v. v_blk v ?st"] H by (simp add: upd_blks_other)
      have du: "length (disk ?u) = length (disk s)" using arg_cong [OF vu, of v_disk] by simp
      show ?case
        unfolding wp_bind_simps
      proof (rule wp_then, rule write_head_wp [of p ?u], goal_cases)
        case (8 w)
        have "bview w = wrote (logged ?st (disk s) @ [(?st, put32 ?H 0 0)]) (bview s)"
          using 8(4) bu by (simp add: lu0 head_block_def vu)
        moreover have "log_rest w = log_rest s" using log_rest_bio [OF 8(3)] log_rest_bio [OF u(3)] t(3) by simp
        moreover have "log w = (log s)\<lparr>lg_lh := (lg_lh ?lg)\<lparr>lh_n := 0\<rparr>\<rparr>" using rest_log [OF 8(3)] lu by simp
        ultimately show ?case unfolding wp_ret
          using 8 len by (intro Q) (auto simp: read_lh_def fold_update_nth)
      qed (use u dev st du h in \<open>auto simp: lu0 vu NBUF_def\<close>)
    qed (use h t(4) lgok lt dt in auto)
  qed
qed

section \<open>Commit\<close>

text \<open>The block writes of a commit, in order: the log, its header, the home blocks, the cleared header.\<close>

definition log_writes :: "loginfo \<Rightarrow> (nat \<Rightarrow> block) \<Rightarrow> (nat \<times> block) list" where
  "log_writes lg f = map (\<lambda>i. (lstart lg + i + 1, f (targets lg ! i))) [0..<nlogged lg]"

definition home_writes :: "loginfo \<Rightarrow> (nat \<Rightarrow> block) \<Rightarrow> (nat \<times> block) list" where
  "home_writes lg f = map (\<lambda>i. (targets lg ! i, f (targets lg ! i))) [0..<nlogged lg]"

definition commit_writes :: "loginfo \<Rightarrow> (nat \<Rightarrow> block) \<Rightarrow> (nat \<times> block) list" where
  "commit_writes lg f =
     log_writes lg f @ [(lstart lg, head_block (lg_lh lg) (f (lstart lg)))] @
     home_writes lg f @ [(lstart lg, put32 (head_block (lg_lh lg) (f (lstart lg))) 0 0)]"

lemma fst_log_writes: "fst ` set (log_writes lg f) = (\<lambda>i. lstart lg + i + 1) ` {..<nlogged lg}"
  by (simp add: log_writes_def image_image lessThan_atLeast0)

lemma fst_home_writes: "log_ok lg nd \<Longrightarrow> map fst (home_writes lg f) = targets lg"
  by (rule nth_equalityI) (simp_all add: home_writes_def log_okD(2))

lemma target_not_log:
  assumes "log_ok lg nd" "b \<in> set (targets lg)"
  shows "b \<noteq> lstart lg" "b \<notin> fst ` set (log_writes lg f)"
  using assms log_okD(7) [OF assms(1)] by (auto simp: log_ok_def LOGSIZE_def fst_log_writes)

lemma log_writes_nth:
  assumes "i < nlogged lg"
  shows "upd_blks (log_writes lg f) g (lstart lg + i + 1) = f (targets lg ! i)"
proof (rule upd_blks_map)
  show "distinct (map fst (log_writes lg f))" by (simp add: log_writes_def comp_def distinct_map inj_on_def)
  show "(lstart lg + i + 1, f (targets lg ! i)) \<in> set (log_writes lg f)" using assms by (force simp: log_writes_def)
qed

lemma commit_wp:
  assumes c: "fs_ctx p s" and ok: "bio_ok s" and h: "v_held (bview s) = {}" and lg: "log_ok (log s) (length (disk s))"
    and pin: "v_pinned (bview s) = set (targets (log s))" and n: "0 < nlogged (log s)"
    and Q: "\<And>t. fs_ctx p t \<Longrightarrow> bio_ok t \<Longrightarrow> log_rest t = log_rest s \<Longrightarrow>
      log t = (log s)\<lparr>lg_lh := (lg_lh (log s))\<lparr>lh_n := 0\<rparr>\<rparr> \<Longrightarrow>
      bview t = wrote (commit_writes (log s) (blk s)) (bview s) \<Longrightarrow> Q () t"
  shows "wp commit Q s"
proof -
  let ?lg = "log s" and ?st = "lstart (log s)" and ?f = "blk s" and ?d = "length (disk s)"
  let ?lh0 = "(lg_lh (log s))\<lparr>lh_n := 0\<rparr>" and ?H = "head_block (lg_lh (log s)) (blk s (lstart (log s)))"
  note L = log_okD [OF lg]
  have st: "?st < ?d" using L(9) by (simp add: LOGSIZE_def)
  have pos: "0 < sint (lh_n (lg_lh ?lg))" using n L(1) by linarith
  have nst: "?st \<notin> set (targets ?lg)" using target_not_log(1) [OF lg] by blast
  have card: "card (set (targets ?lg)) < NBUF" using L(2,6,7) by (simp add: distinct_card NBUF_def LOGSIZE_def)
  have Wl: "set (targets ?lg) - fst ` set (log_writes ?lg ?f) = set (targets ?lg)"
    using target_not_log(2) [OF lg] by blast
  show ?thesis
    unfolding commit_def wp_bind_simps whenK_def if_P [OF pos] block.simps
  proof (rule wp_then, rule write_log_wp [OF c ok h lg pin], fold log_writes_def, rule wp_then, goal_cases)
    case (1 t)
    note t = 1(1-3) and vt = 1(4)
    have lt: "log t = ?lg" by (rule rest_log [OF t(3)])
    have dt: "length (disk t) = ?d" using arg_cong [OF vt, of v_disk] by simp
    have bt: "blk t = upd_blks (log_writes ?lg ?f) ?f" using arg_cong [OF vt, of v_blk] by simp
    have "blk t ?st = ?f ?st" unfolding bt by (rule upd_blks_other) (auto simp: fst_log_writes)
    show ?case
    proof (rule write_head_wp [OF t(1,2)], unfold lt \<open>blk t ?st = ?f ?st\<close>, goal_cases)
      case (6 u)
      note u = 6(1-3) and vu = 6(4) [unfolded vt wrote_simps]
      have lu: "log u = ?lg" using rest_log [OF u(3)] lt by simp
      have du: "length (disk u) = ?d" using arg_cong [OF vu, of v_disk] by simp
      have bu: "blk u = (upd_blks (log_writes ?lg ?f) ?f)(?st := ?H)" using arg_cong [OF vu, of v_blk] by simp
      have W: "map (\<lambda>i. (targets (log u) ! i, blk u (lstart (log u) + i + 1))) [0..<nlogged (log u)] = home_writes ?lg ?f"
        by (auto simp: home_writes_def lu bu log_writes_nth [simplified])
      have pu: "v_pinned (bview u) = set (targets ?lg)"
        unfolding vu using Wl nst by (auto simp: pin)
      show ?case
      proof (rule wp_then, rule install_trans_wp [OF u(1,2)], unfold W, goal_cases)
        case (4 w)
        note w = 4(1-3) and vw = 4(4) [unfolded vu wrote_simps]
        let ?w = "set_lh (lh_n_update (\<lambda>_. 0)) w"
        have lw: "log w = ?lg" using rest_log [OF w(3)] lu by simp
        have "?st \<notin> fst ` set (home_writes ?lg ?f)"
          using nst fst_home_writes [OF lg, of ?f] by (metis image_set)
        then have bw: "blk w ?st = ?H"
          using arg_cong [OF vw, of "\<lambda>v. v_blk v ?st"] by (simp add: upd_blks_other)
        have dw: "length (disk w) = ?d" and hw: "v_held (bview w) = {}"
          using arg_cong [OF vw, of v_disk] arg_cong [OF vw, of v_held] h by simp_all
        have pw: "v_pinned (bview w) = {}"
          using arg_cong [OF fst_home_writes [OF lg, of ?f], of set] pin by (auto simp: vw)
        show ?case
          unfolding wp_bind_simps
        proof (rule wp_then, rule write_head_wp [of p ?w], goal_cases)
          case (8 x)
          have "bview x = wrote (commit_writes ?lg ?f) (bview s)"
            using 8(4) bw by (simp add: lw head_block_def [of "lh_n_update _ _"] vw commit_writes_def)
          moreover have "log_rest x = log_rest s"
            using log_rest_bio [OF 8(3)] log_rest_bio [OF w(3)] log_rest_bio [OF u(3)] log_rest_bio [OF t(3)] by simp
          moreover have "log x = ?lg\<lparr>lg_lh := ?lh0\<rparr>" using rest_log [OF 8(3)] lw by simp
          ultimately show ?case unfolding wp_ret using 8 by (intro Q) simp_all
        qed (use w hw L(8) st pw dw in \<open>simp_all add: lw NBUF_def\<close>)
      qed (use h lu du lg pu in \<open>auto simp: vu\<close>)
    qed (use h lt dt L(8) st pin Wl nst card in \<open>auto simp: vt\<close>)
  qed
qed

section \<open>Crash safety\<close>

definition outside :: "loginfo \<Rightarrow> nat \<Rightarrow> bool" where
  "outside lg m \<longleftrightarrow> m < lstart lg \<or> lstart lg + LOGSIZE \<le> m"

text \<open>An empty log on the disk stands for no writes.\<close>

lemma empty_log:
  assumes "get32 (d ! st) 0 = 0" "st + LOGSIZE \<le> length d"
  shows "hdr_ok st d" "logged st d = []"
  using assms by (simp_all add: hdr_ok_def logged_def LOGSIZE_def)

lemma outside_start: "outside lg m \<Longrightarrow> m \<noteq> lstart lg"
  by (auto simp: outside_def LOGSIZE_def)

lemma outside_log_writes:
  assumes "log_ok lg nd" "outside lg m"
  shows "m \<notin> fst ` set (take k (log_writes lg f))"
proof -
  have "fst ` set (take k (log_writes lg f)) \<subseteq> fst ` set (log_writes lg f)" by (rule image_mono [OF set_take_subset])
  then show ?thesis using assms log_okD(7) [OF assms(1)] by (auto simp: outside_def fst_log_writes LOGSIZE_def)
qed

lemma upd_home:
  assumes lg: "log_ok lg nd" and f: "m \<notin> set (targets lg) \<Longrightarrow> g m = f m"
  shows "upd_blks (home_writes lg f) g m = f m"
proof (cases "m \<in> set (targets lg)")
  case True
  then have "(m, f m) \<in> set (home_writes lg f)"
    using log_okD(2) [OF lg] by (auto simp: home_writes_def in_set_conv_nth)
  then show ?thesis using log_okD(6) [OF lg] fst_home_writes [OF lg] by (intro upd_blks_map) auto
next
  case False
  then have "m \<notin> fst ` set (home_writes lg f)" using fst_home_writes [OF lg, of f] by (metis image_set)
  then show ?thesis using f False by (simp add: upd_blks_other)
qed

lemma committed_log:
  assumes lg: "log_ok lg nd" and st: "d ! lstart lg = head_block (lg_lh lg) x" "length x = BSIZE"
    and body: "\<And>i. i < nlogged lg \<Longrightarrow> d ! (lstart lg + i + 1) = f (targets lg ! i)" and nd: "length d = nd"
  shows "logged (lstart lg) d = home_writes lg f" "hdr_ok (lstart lg) d"
proof -
  note L = log_okD [OF lg]
  have n: "get32 (d ! lstart lg) 0 = lh_n (lg_lh lg)" using head_block_get(1) [OF st(2)] L(1,7) by (simp add: st(1))
  have "unat (get32 (d ! lstart lg) (4 + 4 * i)) = targets lg ! i" if "i < nlogged lg" for i
    using head_block_get(2) [OF st(2), of "lg_lh lg" i] that L(1,7) L(3) [OF that] by (simp add: st(1))
  then show e: "logged (lstart lg) d = home_writes lg f"
    unfolding logged_def home_writes_def using n body by (auto simp: nlogged_def)
  show "hdr_ok (lstart lg) d"
    unfolding hdr_ok_def e fst_home_writes [OF lg] image_set
    using lg nd L(6,7,9) by (simp add: n nlogged_def log_ok_def)
qed

lemma crash_prefix:
  assumes lg: "log_ok lg (length d)" and clean: "get32 (d ! lstart lg) 0 = 0"
    and f: "\<And>m. m < length d \<Longrightarrow> m \<notin> set (targets lg) \<Longrightarrow> f m = d ! m" "length (f (lstart lg)) = BSIZE"
    and k: "k \<le> length (commit_writes lg f)"
  defines "d' \<equiv> apply_writes (take k (commit_writes lg f)) d"
  shows "hdr_ok (lstart lg) d' \<and>
    ((\<forall>m<length d. outside lg m \<longrightarrow> apply_writes (logged (lstart lg) d') d' ! m = d ! m) \<or>
     (\<forall>m<length d. outside lg m \<longrightarrow> apply_writes (logged (lstart lg) d') d' ! m = f m))"
proof -
  let ?st = "lstart lg" and ?A = "log_writes lg f" and ?B = "home_writes lg f"
  let ?h = "(lstart lg, head_block (lg_lh lg) (f (lstart lg)))"
  let ?h' = "(lstart lg, put32 (head_block (lg_lh lg) (f (lstart lg))) 0 0)"
  note L = log_okD [OF lg]
  have st: "?st < length d" using L(9) by (simp add: LOGSIZE_def)
  have lens: "length ?A = nlogged lg" "length ?B = nlogged lg" by (simp_all add: log_writes_def home_writes_def)
  have len: "length d' = length d" by (simp add: d'_def)
  have subB: "fst ` set (take j ?B) \<subseteq> set (targets lg)" for j
    by (metis fst_home_writes [OF lg] image_set set_take_subset take_map)
  have stT: "?st \<notin> set (targets lg)" using target_not_log(1) [OF lg] by blast
  let ?g = "(upd_blks ?A (\<lambda>n. d ! n))(?st := snd ?h)"
  have g: "?g m = d ! m" if "outside lg m" for m
    using outside_start [OF that] outside_log_writes [OF lg that, of "nlogged lg" f] by (simp add: upd_blks_other lens)
  have gf: "?g m = f m" if "outside lg m" "m < length d" "m \<notin> set (targets lg)" for m
    using g [OF that(1)] f(1) [OF that(2,3)] by simp
  consider "k \<le> nlogged lg" | j where "k = Suc (nlogged lg + j)" "j \<le> nlogged lg" | "k = length (commit_writes lg f)"
  proof -
    have "length (commit_writes lg f) = Suc (Suc (nlogged lg + nlogged lg))" by (simp add: commit_writes_def lens)
    with k that(1,3) that(2) [of "k - Suc (nlogged lg)"] show thesis by linarith
  qed
  then show ?thesis
  proof cases
    case 1
    then have d': "d' = apply_writes (take k ?A) d" by (simp add: d'_def commit_writes_def lens)
    have "?st \<notin> fst ` set (take k ?A)"
      using image_mono [OF set_take_subset [of k ?A], of fst] by (auto simp: fst_log_writes)
    then have "d' ! ?st = d ! ?st" by (simp add: d' apply_writes_nth st upd_blks_other)
    then have e: "hdr_ok ?st d'" "logged ?st d' = []" using empty_log [of d' ?st] clean L(9) by (simp_all add: len)
    moreover have "d' ! m = d ! m" if "m < length d" "outside lg m" for m
      using that outside_log_writes [OF lg that(2)] by (simp add: d' apply_writes_nth upd_blks_other)
    ultimately show ?thesis by simp
  next
    case (2 j)
    then have d': "d' = apply_writes (?A @ [?h] @ take j ?B) d"
      by (simp add: d'_def commit_writes_def lens take_Cons' del: apply_writes_simps)
    have nthd': "d' ! m = upd_blks (take j ?B) ?g m" if "m < length d" for m
      unfolding d' apply_writes_nth [OF that] by simp
    have other: "d' ! m = ?g m" if "m < length d" "m \<notin> set (targets lg)" for m
      unfolding nthd' [OF that(1)] using that(2) subB [of j] by (intro upd_blks_other) blast
    have body: "d' ! (?st + i + 1) = f (targets lg ! i)" if "i < nlogged lg" for i
    proof -
      have lt: "?st + i + 1 < length d" "?st + i + 1 < ?st + LOGSIZE" using that L(7,9) by simp_all
      have "?st + i + 1 \<notin> set (targets lg)"
      proof
        assume "?st + i + 1 \<in> set (targets lg)"
        with lg have "?st + i + 1 < ?st \<or> ?st + LOGSIZE \<le> ?st + i + 1" by (auto simp: log_ok_def)
        with lt(2) show False by linarith
      qed
      from other [OF lt(1) this] show ?thesis using log_writes_nth [OF that, of f "\<lambda>n. d ! n"] by simp
    qed
    have "d' ! ?st = head_block (lg_lh lg) (f ?st)" using other [OF st stT] by simp
    note c = committed_log [where f = f, OF lg this f(2) body len]
    have "apply_writes (logged ?st d') d' ! m = f m" if "m < length d" "outside lg m" for m
    proof -
      have "upd_blks ?B ((!) d') m = f m" using other gf that by (intro upd_home [OF lg]) simp
      then show ?thesis using c(1) that(1) len by (simp add: apply_writes_nth)
    qed
    with c(2) show ?thesis by blast
  next
    case 3
    then have d': "d' = apply_writes (?A @ [?h] @ ?B @ [?h']) d" by (simp add: d'_def commit_writes_def)
    have nthd': "d' ! m = ((upd_blks ?B ?g)(?st := snd ?h')) m" if "m < length d" for m
      unfolding d' apply_writes_nth [OF that] by simp
    have "get32 (d' ! ?st) 0 = 0" using f(2) by (simp add: nthd' [OF st] BSIZE_def)
    then have e: "hdr_ok ?st d'" "logged ?st d' = []" using empty_log [of d' ?st] L(9) by (simp_all add: len)
    have "d' ! m = f m" if "m < length d" "outside lg m" for m
      using upd_home [OF lg, of m ?g f] gf [OF that(2,1)] outside_start [OF that(2)]
      by (simp add: nthd' [OF that(1)])
    with e show ?thesis by simp
  qed
qed

lemma apply_commit:
  assumes lg: "log_ok lg (length d)" and f: "\<And>m. m < length d \<Longrightarrow> m \<notin> set (targets lg) \<Longrightarrow> f m = d ! m"
    and m: "m < length d" "outside lg m"
  shows "apply_writes (commit_writes lg f) d ! m = f m"
proof -
  let ?g = "(upd_blks (log_writes lg f) (\<lambda>n. d ! n))(lstart lg := head_block (lg_lh lg) (f (lstart lg)))"
  have "?g m = d ! m" using outside_start [OF m(2)] outside_log_writes [OF lg m(2), of "length (log_writes lg f)" f]
    by (simp add: upd_blks_other)
  then have "upd_blks (home_writes lg f) ?g m = f m" using f [OF m(1)] by (intro upd_home [OF lg]) simp
  then show ?thesis using outside_start [OF m(2)] by (simp add: apply_writes_nth [OF m(1)] commit_writes_def
      del: apply_writes_simps(3))
qed

section \<open>Logging a block\<close>

lemma set_log_context [simp]:
  "set_log f (acquired l s) = acquired l (set_log f s)" "set_log f (noted s) = noted (set_log f s)"
  "set_lh g (acquired l s) = acquired l (set_lh g s)" "set_lh g (noted s) = noted (set_lh g s)"
  "cpu_ok (set_log f s) = cpu_ok s" "free_lock k (set_log f s) = free_lock k s"
  "cpu_ok (set_lh g s) = cpu_ok s" "free_lock k (set_lh g s) = free_lock k s"
  "ptable (set_log f s) = ptable s" "log (set_buf i h s) = log s" "proc_ctx p (set_log f s) = proc_ctx p s"
  by (simp_all add: set_lh_def set_log_def set_buf_def)

definition log_add :: "uint \<Rightarrow> loginfo \<Rightarrow> loginfo" where
  "log_add blockno lg = (if unat blockno \<in> set (targets lg) then lg else
     lg\<lparr>lg_lh := \<lparr>lh_n = lh_n (lg_lh lg) + 1, lh_block = (lh_block (lg_lh lg))[nlogged lg := blockno]\<rparr>\<rparr>)"

lemma log_add_ok:
  assumes lg: "log_ok lg nd" and n: "Suc (nlogged lg) < LOGSIZE" and b: "unat blockno < nd" "outside lg (unat blockno)"
  shows "log_ok (log_add blockno lg) nd"
    "targets (log_add blockno lg) = (if unat blockno \<in> set (targets lg) then targets lg else targets lg @ [unat blockno])"
proof -
  have s: "unat (lh_n (lg_lh lg) + 1) = Suc (nlogged lg)"
    using n unat_plus_nat [of "lh_n (lg_lh lg)" 1] by (simp add: nlogged_def LOGSIZE_def)
  have len: "length (lh_block (lg_lh lg)) = LOGSIZE" using lg by (simp add: log_ok_def)
  show t: "targets (log_add blockno lg) = (if unat blockno \<in> set (targets lg) then targets lg else targets lg @ [unat blockno])"
    using s len n by (auto simp: targets_def log_add_def nlogged_def take_Suc_conv_app_nth)
  show "log_ok (log_add blockno lg) nd"
  proof (cases "unat blockno \<in> set (targets lg)")
    case True
    then show ?thesis using lg by (simp add: log_add_def)
  next
    case False
    then show ?thesis using lg n b s len t unfolding log_ok_def
      by (auto simp: log_add_def outside_def nlogged_def)
  qed
qed

lemma first_index_mem: "first_index (\<lambda>x. x = a) xs = None \<longleftrightarrow> a \<notin> set xs"
  by (induction xs) auto

lemma log_write_eval:
  assumes c: "fs_ctx p s" and ok: "bio_ok s" and at: "buf_at s b n" and lg: "log_ok (log s) (length (disk s))"
    and room: "Suc (nlogged (log s)) < LOGSIZE" "lg_size (log s) = of_nat LOGSIZE" "0 < sint (lg_outstanding (log s))"
  shows "log_write b s env = Ok () (noted (set_buf b (b_flags_update (\<lambda>f. f OR B_DIRTY))
    (set_log (\<lambda>_. log_add (b_blockno (bufs s ! b)) (log s)) s))) env"
proof -
  let ?lh = "lg_lh (log s)" and ?k = "b_blockno (bufs s ! b)" and ?n = "nlogged (log s)"
  note L = log_okD [OF lg]
  have n: "sint (lh_n ?lh) = int ?n" using sint_small [of "lh_n ?lh"] L(7) by (simp add: nlogged_def)
  have sz: "sint (lg_size (log s) - 1) = 29" by (simp add: room(2) LOGSIZE_def)
  have mem: "?k \<in> set (take ?n (lh_block ?lh)) \<longleftrightarrow> unat ?k \<in> set (targets (log s))"
    by (auto simp: targets_def word_unat_eq_iff [symmetric])
  show ?thesis
  proof (cases "unat ?k \<in> set (targets (log s))")
    case True
    then obtain i where i: "first_index (\<lambda>x. x = ?k) (take ?n (lh_block ?lh)) = Some i"
      using first_index_mem [of ?k "take ?n (lh_block ?lh)"] mem by auto
    then have "i < ?n" "lh_block ?lh ! i = ?k" using first_index_lt [OF i] first_index_hit [OF i] by auto
    then have "(lh_block ?lh)[i := ?k] = lh_block ?lh" by (metis list_update_id)
    then have "lh_block_update (\<lambda>bs. bs[i := ?k]) ?lh = ?lh" by (cases ?lh) simp
    then have "lg_lh_update (lh_block_update (\<lambda>bs. bs[i := ?k])) (log s) = log s" by (cases "log s") simp
    then have same: "set_lh (lh_block_update (\<lambda>bs. bs[i := ?k])) s = set_log (\<lambda>_. log s) s"
      by (simp add: set_lh_def set_log_def)
    then show ?thesis using True i \<open>i < ?n\<close> fs_ctxD [OF c] n sz room L(7)
      by (simp add: log_write_def kmonad log_add_def LOGSIZE_def same)
  next
    case False
    have grow: "lg_lh_update (lh_n_update (\<lambda>n. n + 1) \<circ> lh_block_update (\<lambda>bs. bs[?n := ?k])) (log s) =
        (log s)\<lparr>lg_lh := \<lparr>lh_n = lh_n ?lh + 1, lh_block = (lh_block ?lh)[?n := ?k]\<rparr>\<rparr>"
      by (cases "log s"; cases "lg_lh (log s)") simp
    show ?thesis using False fs_ctxD [OF c] n sz room L(7) mem first_index_mem [of ?k "take ?n (lh_block ?lh)"]
      by (simp add: log_write_def kmonad log_add_def LOGSIZE_def) (simp add: set_lh_def set_log_def set_buf_def grow)
  qed
qed

lemma pin_view:
  assumes ok: "bio_ok s" and at: "buf_at s b n"
  defines "t \<equiv> set_buf b (b_flags_update (\<lambda>f. f OR B_DIRTY)) s"
  shows "bio_ok t" "bview t = (bview s)\<lparr>v_pinned := insert n (v_pinned (bview s))\<rparr>" "buf_at s c m \<Longrightarrow> buf_at t c m"
proof -
  let ?x = "b_flags_update (\<lambda>f. f OR B_DIRTY) (bufs s ! b)"
  note n = buf_at_data [OF ok at]
  have ch: "changes s b n ?x t"
    using ok at n by (auto simp: changes_def t_def bvalid_def intro!: exI [of _ "blk s n"])
  have "bdirty ?x" by (simp add: bdirty_def)
  with changes_view [OF ch] n(1)
  show "bview t = (bview s)\<lparr>v_pinned := insert n (v_pinned (bview s))\<rparr>"
    by (auto simp: bview_def t_def)
  show "bio_ok t" by (rule changes_ok [OF ch])
  show "buf_at s c m \<Longrightarrow> buf_at t c m" by (rule changes_buf_at [OF ch])
qed

lemma bio_noted [simp]:
  "bio_ok (noted s) = bio_ok s" "bview (noted s) = bview s" "buf_at (noted s) = buf_at s" "blk (noted s) = blk s"
  by (rule bio_cong bview_cong; simp)+

lemma log_write_wp:
  assumes c: "fs_ctx p s" and ok: "bio_ok s" and at: "buf_at s b n" and lg: "log_ok (log s) (length (disk s))"
    and room: "Suc (nlogged (log s)) < LOGSIZE" "lg_size (log s) = of_nat LOGSIZE" "0 < sint (lg_outstanding (log s))"
    and out: "outside (log s) n"
    and Q: "\<And>t. fs_ctx p t \<Longrightarrow> bio_ok t \<Longrightarrow> log_rest t = log_rest s \<Longrightarrow>
      log t = log_add (of_nat n) (log s) \<Longrightarrow> log_ok (log t) (length (disk s)) \<Longrightarrow>
      bview t = (bview s)\<lparr>v_pinned := insert n (v_pinned (bview s))\<rparr> \<Longrightarrow>
      (\<And>c m. buf_at s c m \<Longrightarrow> buf_at t c m) \<Longrightarrow> Q () t"
  shows "wp (log_write b) Q s"
proof -
  let ?s = "set_log (\<lambda>_. log_add (b_blockno (bufs s ! b)) (log s)) s"
  let ?t = "set_buf b (b_flags_update (\<lambda>f. f OR B_DIRTY)) ?s"
  have k: "b_blockno (bufs s ! b) = of_nat n" using at by (auto simp: buf_at_def)
  have n: "unat (of_nat n :: uint) = n" using at k by (auto simp: buf_at_def)
  have "bio_ok ?s" "buf_at ?s b n" using ok at by simp_all
  note P = pin_view [OF this]
  have run: "log_write b s env = Ok () (noted ?t) env" for env by (rule log_write_eval [OF c ok at lg room])
  have lok: "log_ok (log_add (of_nat n) (log s)) (length (disk s))"
    using log_add_ok(1) [OF lg room(1)] n out buf_at_data(2) [OF ok at] by metis
  have r: "log_rest (noted ?t) = log_rest s"
  proof -
    have "log_rest (noted ?t) = log_rest ?s" by (rule log_rest_bio) simp
    then show ?thesis by simp
  qed
  have "Q () (noted ?t)"
  proof (rule Q [OF _ _ r])
    have "bio_rest (noted ?t) = bio_rest ?s" by simp
    then show "fs_ctx p (noted ?t)" using rest_fs_ctx c by (metis set_log_simps(7))
  qed (use P lok in \<open>simp_all add: k\<close>)
  with run show ?thesis by (rule wp_eval)
qed

section \<open>Properties\<close>

text \<open>
  C1.  A commit is atomic under crashes.  \<open>commit\<close> returns with every logged block at its
  home location, and the disk has gone through exactly the recorded block writes.  If the machine
  stops after any number of them and \<open>recover_from_log\<close> runs on that disk with a fresh cache,
  it returns, and outside the log area the disk is entirely as before the transaction or
  entirely as the transaction made it.
\<close>

theorem commit_crash_safe:
  assumes "fs_ctx p s" "bio_ok s" "v_held (bview s) = {}" "log_ok (log s) (length (disk s))"
    "v_pinned (bview s) = set (targets (log s))" "0 < nlogged (log s)" "get32 (disk s ! lstart (log s)) 0 = 0"
  shows "\<exists>t ws. commit s env = Ok () t env \<and> dwrites t = dwrites s @ ws \<and> disk t = apply_writes ws (disk s) \<and>
    (\<forall>m<length (disk s). outside (log s) m \<longrightarrow> disk t ! m = blk s m) \<and>
    (\<forall>k\<le>length ws. \<forall>u q. fs_ctx q u \<and> bio_ok u \<and> v_held (bview u) = {} \<and> v_pinned (bview u) = {} \<and>
       disk u = apply_writes (take k ws) (disk s) \<and> lg_dev (log u) = 1 \<and> lg_start (log u) = lg_start (log s) \<and>
       length (lh_block (lg_lh (log u))) = LOGSIZE \<longrightarrow>
       (\<exists>v. recover_from_log u env = Ok () v env \<and>
         ((\<forall>m<length (disk s). outside (log s) m \<longrightarrow> disk v ! m = disk s ! m) \<or>
          (\<forall>m<length (disk s). outside (log s) m \<longrightarrow> disk v ! m = blk s m))))"
proof -
  let ?lg = "log s" and ?ws = "commit_writes (log s) (blk s)"
  note L = log_okD [OF assms(4)]
  have f: "blk s m = disk s ! m" if "m < length (disk s)" "m \<notin> set (targets ?lg)" for m
    using blk_clean [OF assms(2) that(1)] assms(3,5) that(2) by simp
  have st: "lstart ?lg < length (disk s)" using L(9) by (simp add: LOGSIZE_def)
  have fl: "length (blk s (lstart ?lg)) = BSIZE" by (rule blk_length [OF assms(2) st])
  have crash: "hdr_ok (lstart ?lg) d' \<and> ((\<forall>m<length (disk s). outside ?lg m \<longrightarrow> apply_writes (logged (lstart ?lg) d') d' ! m = disk s ! m) \<or>
      (\<forall>m<length (disk s). outside ?lg m \<longrightarrow> apply_writes (logged (lstart ?lg) d') d' ! m = blk s m))"
    if "k \<le> length ?ws" "d' = apply_writes (take k ?ws) (disk s)" for k d'
    unfolding that(2) by (rule crash_prefix [OF assms(4,7)]) (use f fl that(1) in auto)
  have "wp commit (\<lambda>_ t. bview t = wrote ?ws (bview s)) s" by (rule commit_wp [OF assms(1-6)])
  then obtain t where run: "commit s env = Ok () t env" and v: "bview t = wrote ?ws (bview s)"
    by (fastforce dest: wp_Ok)
  have t: "dwrites t = dwrites s @ ?ws" "disk t = apply_writes ?ws (disk s)"
    using arg_cong [OF v, of v_writes] arg_cong [OF v, of v_disk] by simp_all
  have full: "disk t ! m = blk s m" if "m < length (disk s)" "outside ?lg m" for m
    unfolding t by (rule apply_commit [OF assms(4)]) (use f that in auto)
  have "\<exists>v. recover_from_log u env = Ok () v env \<and>
         ((\<forall>m<length (disk s). outside ?lg m \<longrightarrow> disk v ! m = disk s ! m) \<or>
          (\<forall>m<length (disk s). outside ?lg m \<longrightarrow> disk v ! m = blk s m))"
    if k: "k \<le> length ?ws" and u: "fs_ctx q u" "bio_ok u" "v_held (bview u) = {}" "v_pinned (bview u) = {}"
      and du: "disk u = apply_writes (take k ?ws) (disk s)" and lu: "lg_dev (log u) = 1" "lg_start (log u) = lg_start ?lg"
      "length (lh_block (lg_lh (log u))) = LOGSIZE" for k u q
  proof -
    let ?d = "disk u" and ?st = "lstart ?lg"
    have c: "hdr_ok ?st ?d" "(\<forall>m<length (disk s). outside ?lg m \<longrightarrow> apply_writes (logged ?st ?d) ?d ! m = disk s ! m) \<or>
        (\<forall>m<length (disk s). outside ?lg m \<longrightarrow> apply_writes (logged ?st ?d) ?d ! m = blk s m)"
      using crash [OF k du] by simp_all
    have "wp recover_from_log (\<lambda>_ v. \<exists>h. bview v = wrote (logged ?st ?d @ [(?st, h)]) (bview u)) u"
      by (rule recover_wp [OF u lu(1,3)]) (use c(1) lu(2) in auto)
    then obtain v h where v: "recover_from_log u env = Ok () v env" "bview v = wrote (logged ?st ?d @ [(?st, h)]) (bview u)"
      by (fastforce dest: wp_Ok)
    have "disk v ! m = apply_writes (logged ?st ?d) ?d ! m" if "outside ?lg m" for m
      using arg_cong [OF v(2), of v_disk] outside_start [OF that] by simp
    with v(1) c(2) show ?thesis by auto
  qed
  with run t full show ?thesis by blast
qed

definition log_cell :: "nat \<Rightarrow> buf" where
  "log_cell i = \<lparr>b_flags = (if i = 0 then 6 else 0), b_dev = (if i = 0 then 1 else 0),
     b_blockno = (if i = 0 then 35 else 0), b_refcnt = 0, b_prev = (if i = 0 then 30 else i - 1),
     b_next = (if i = 30 then 0 else i + 1), b_data = replicate BSIZE (if i = 0 then 9 else 0)\<rparr>"

definition log_machine :: log_state where
  "log_machine = bio_state.extend (bio_machine\<lparr>bufs := map log_cell [0..<31], disk := replicate 40 (replicate BSIZE 0)\<rparr>)
     \<lparr>log = \<lparr>lg_start = 2, lg_size = 30, lg_outstanding = 0, lg_committing = 0, lg_dev = 1,
        lg_lh = \<lparr>lh_n = 1, lh_block = 35 # replicate 29 0\<rparr>\<rparr>\<rparr>"

lemmas log_machine_defs = log_machine_def bio_state.defs bio_machine_defs

lemma log_machine_fields:
  "bufs log_machine = map log_cell [0..<31]" "disk log_machine = replicate 40 (replicate BSIZE 0)"
  "log log_machine = \<lparr>lg_start = 2, lg_size = 30, lg_outstanding = 0, lg_committing = 0, lg_dev = 1,
     lg_lh = \<lparr>lh_n = 1, lh_block = 35 # replicate 29 0\<rparr>\<rparr>"
  "\<not> blocked log_machine i" "dwrites log_machine = []"
  by (simp_all add: log_machine_defs blocked_def del: upt_Suc)

lemma log_machine_ctx: "fs_ctx 1 log_machine" "free_lock l log_machine" "proc_ctx 1 log_machine"
  by (auto simp: fs_ctx_def proc_ctx_def cpu_ok_def cur_def curproc_def free_lock_def log_machine_defs
      init_proc_def shell_proc_def blank_proc_def simp del: upt_Suc)

lemma chain_upt:
  "(\<And>i. a \<le> i \<Longrightarrow> i < b \<Longrightarrow> nx i = Suc i \<and> pv (Suc i) = i) \<Longrightarrow> a \<le> b \<Longrightarrow> chain nx pv a [Suc a..<Suc b]"
proof (induction "b - a" arbitrary: a)
  case (Suc k)
  then have "a < b" "chain nx pv (Suc a) [Suc (Suc a)..<Suc b]" by (auto intro!: Suc.hyps(1))
  then show ?case using Suc.prems(1) [of a] by (simp add: upt_conv_Cons del: upt_Suc)
qed simp

lemma log_machine_linked: "linked [0..<NBUF] (map log_cell [0..<31])"
proof -
  have "chain (\<lambda>i. b_next (map log_cell [0..<31] ! i)) (\<lambda>i. b_prev (map log_cell [0..<31] ! i)) 0 [Suc 0..<Suc 30]"
    by (rule chain_upt) (simp_all add: log_cell_def)
  moreover have "[0..<30] @ [30] = 0 # [Suc 0..<Suc 30]" by (simp add: upt_rec)
  ultimately show ?thesis
    by (simp add: linked_def ring_def NBUF_def lessThan_atLeast0 log_cell_def del: upt_Suc)
qed

lemma log_machine_ok: "bio_ok log_machine"
proof -
  have each: "let c = bufs log_machine ! i in
        length (b_data c) = BSIZE \<and> b_refcnt c = (if blocked log_machine i then 1 else 0) \<and>
        (blocked log_machine i \<or> bdirty c \<longrightarrow> bvalid c) \<and>
        (bvalid c \<longrightarrow> b_dev c = 1 \<and> unat (b_blockno c) < length (disk log_machine)) \<and>
        (bvalid c \<and> \<not> bdirty c \<and> \<not> blocked log_machine i \<longrightarrow> b_data c = disk log_machine ! unat (b_blockno c))"
    if "i < NBUF" for i
    using that by (simp add: log_machine_fields NBUF_def log_cell_def bvalid_def bdirty_def Let_def del: upt_Suc)
  have "\<exists>xs. linked xs (bufs log_machine)" using log_machine_linked by (auto simp: log_machine_fields)
  with each show ?thesis unfolding bio_ok_def
    by (auto simp: log_machine_fields NBUF_def log_cell_def simp del: upt_Suc split: if_splits)
qed

lemma log_machine_log:
  "targets (log log_machine) = [35]" "nlogged (log log_machine) = 1"
  "log_ok (log log_machine) (length (disk log_machine))"
  by (simp_all add: targets_def nlogged_def log_ok_def log_machine_fields LOGSIZE_def)

lemma log_machine_view: "v_held (bview log_machine) = {}" "v_pinned (bview log_machine) = {35}"
  by (auto simp: bview_def log_machine_fields NBUF_def log_cell_def bdirty_def simp del: upt_Suc split: if_splits)
    (rule exI [of _ 0], simp add: log_machine_fields log_cell_def del: upt_Suc)

lemma log_machine_blk: "blk log_machine 35 = replicate BSIZE 9"
  using blk_cached [OF log_machine_ok, of 0]
  by (simp add: NBUF_def log_machine_fields log_cell_def bvalid_def del: upt_Suc)

theorem commit_crash_safe_witness:
  "\<exists>t. commit log_machine [] = Ok () t [] \<and> disk t ! 35 = replicate BSIZE 9 \<and> log_machine \<noteq> t"
proof -
  have "get32 (disk log_machine ! lstart (log log_machine)) 0 = 0"
    by (simp add: log_machine_fields get32_def BSIZE_def)
  then obtain t where t: "commit log_machine [] = Ok () t []"
    "\<forall>m<length (disk log_machine). outside (log log_machine) m \<longrightarrow> disk t ! m = blk log_machine m"
    using commit_crash_safe [OF log_machine_ctx(1) log_machine_ok log_machine_view(1) log_machine_log(3), of "[]"]
    by (auto simp: log_machine_log log_machine_view)
  have "disk t ! 35 = replicate BSIZE 9"
    using t(2) log_machine_blk by (simp add: log_machine_fields outside_def LOGSIZE_def)
  moreover have "disk log_machine ! 35 \<noteq> replicate BSIZE 9" by (simp add: log_machine_fields BSIZE_def)
  ultimately show ?thesis using t(1) by blast
qed



end
