(* ===== verification/Fs.thy ===== *)
theory Fs
  imports Log Kstring
begin

text \<open>
  The file system, \<open>fs.c\<close>, \<open>fs.h\<close>, \<open>struct inode\<close> of \<open>file.h\<close> and \<open>stat.h\<close>: block
  allocation, the inode cache, file contents, directories and path names.  An inode pointer is
  an index in \<open>icache.inode\<close>, a C string is the list of its bytes before the NUL, and the
  buffers of \<open>readi\<close> and \<open>writei\<close> are values.  Loop counters that the code's own guards
  keep from wrapping are natural numbers.  \<open>cprintf\<close> of \<open>iinit\<close> is left out.  The device
  switch \<open>devsw\<close> is a parameter of the routines that call through it.
\<close>

section \<open>State\<close>

unbundle bit_operations_syntax

definition NDIRECT :: nat where "NDIRECT = 28"
definition NINDIRECT :: nat where "NINDIRECT = 128"
definition MAXFILE :: nat where "MAXFILE = 156"
definition IPB :: nat where "IPB = 4"
definition BPB :: nat where "BPB = 4096"
definition NINODE :: nat where "NINODE = 50"
definition DIRSIZ :: nat where "DIRSIZ = 14"
definition NDEV :: int where "NDEV = 10"
definition T_DIR :: "16 word" where "T_DIR = 1"
definition T_FILE :: "16 word" where "T_FILE = 2"
definition T_DEV :: "16 word" where "T_DEV = 3"

record inode =
  i_dev :: uint
  i_inum :: uint
  i_ref :: cint
  i_valid :: cint
  i_type :: "16 word"
  i_major :: "16 word"
  i_minor :: "16 word"
  i_nlink :: "16 word"
  i_size :: uint
  i_addrs :: "uint list"

record fs_state = log_state +
  sb :: superblock
  icache :: "inode list"

type_synonym 's devsw = "int \<Rightarrow> (nat \<Rightarrow> cint \<Rightarrow> ('s, cint \<times> byte list) K) option \<times> (nat \<Rightarrow> byte list \<Rightarrow> ('s, cint) K) option"

definition set_inode :: "nat \<Rightarrow> (inode \<Rightarrow> inode) \<Rightarrow> 'a fs_state_scheme \<Rightarrow> 'a fs_state_scheme" where
  "set_inode i f s = s\<lparr>icache := (icache s)[i := f (icache s ! i)]\<rparr>"

definition getsI :: "nat \<Rightarrow> (inode \<Rightarrow> 'b) \<Rightarrow> ('a fs_state_scheme, 'b) K" where
  "getsI i f = gets (\<lambda>s. f (icache s ! i))"

definition IBLOCK :: "uint \<Rightarrow> superblock \<Rightarrow> uint" where
  "IBLOCK i b = i div of_nat IPB + sb_inodestart b"

definition BBLOCK :: "uint \<Rightarrow> superblock \<Rightarrow> uint" where
  "BBLOCK b sbl = b div of_nat BPB + sb_bmapstart sbl"

section \<open>Blocks\<close>

definition bzero :: "uint \<Rightarrow> uint \<Rightarrow> ('a fs_state_scheme, unit) K" where
  "bzero dev bno = bindK (bread dev bno) (\<lambda>bp. block
     [modify (put_data bp (\<lambda>_. replicate BSIZE 0)),
      log_write bp,
      brelse bp])"

definition bit_clear :: "block \<Rightarrow> nat \<Rightarrow> bool" where
  "bit_clear d bi \<longleftrightarrow> d ! (bi div 8) AND push_bit (bi mod 8) 1 = 0"

definition mark_bit :: "nat \<Rightarrow> block \<Rightarrow> block" where
  "mark_bit bi d = d[bi div 8 := d ! (bi div 8) OR push_bit (bi mod 8) 1]"

definition clear_bit :: "nat \<Rightarrow> block \<Rightarrow> block" where
  "clear_bit bi d = d[bi div 8 := d ! (bi div 8) AND NOT (push_bit (bi mod 8) 1)]"

lemma below_word: "off < unat (w :: uint) \<Longrightarrow> off < 2 ^ 32"
  using unsigned_less [of w, where ?'a = nat] by simp

function balloc_loop :: "uint \<Rightarrow> nat \<Rightarrow> ('a fs_state_scheme, uint) K" where
  "balloc_loop dev b =
     bindK (gets sb) (\<lambda>sbl.
       if b < unat (sb_size sbl) then
         bindK (bread dev (BBLOCK (of_nat b) sbl)) (\<lambda>bp.
         bindK (gets (\<lambda>s. first_index (bit_clear (bdata s bp)) [0..<min BPB (unat (sb_size (sb s)) - b)])) (\<lambda>free.
           case free of
             Some bi \<Rightarrow>
               thenK (block [modify (put_data bp (mark_bit bi)),
                             log_write bp,
                             brelse bp,
                             bzero dev (of_nat (b + bi))]) (ret (of_nat (b + bi)))
           | None \<Rightarrow> thenK (brelse bp) (balloc_loop dev (b + BPB))))
       else panic ''balloc: out of blocks'')"
  by pat_completeness auto

termination balloc_loop
  by (relation "measure (\<lambda>(dev, b). 2 ^ 32 - b)") (auto dest: below_word simp: BPB_def)

declare balloc_loop.simps [simp del]

definition balloc :: "uint \<Rightarrow> ('a fs_state_scheme, uint) K" where
  "balloc dev = balloc_loop dev 0"

definition bfree :: "uint \<Rightarrow> uint \<Rightarrow> ('a fs_state_scheme, unit) K" where
  "bfree dev b =
     bindK (readsb dev) (\<lambda>sbl.
     thenK (modify (\<lambda>s. s\<lparr>sb := sbl\<rparr>)) (
     bindK (bread dev (BBLOCK b sbl)) (\<lambda>bp.
     bindK (ret (unat b mod BPB)) (\<lambda>bi.
     bindK (gets (\<lambda>s. bdata s bp)) (\<lambda>d.
       if bit_clear d bi then panic ''freeing free block'' else block
         [modify (put_data bp (clear_bit bi)),
          log_write bp,
          brelse bp])))))"

section \<open>Inodes\<close>

definition iinit :: "uint \<Rightarrow> ('a fs_state_scheme, unit) K" where
  "iinit dev = block
     [initlock IcacheLock ''icache'',
      forK [0..<NINODE] (\<lambda>i. initsleeplock (InodeSl i) ''inode''),
      bindK (readsb dev) (\<lambda>sbl. modify (\<lambda>s. s\<lparr>sb := sbl\<rparr>))]"

text \<open>The on-disk inode at byte \<open>at\<close> of a block.\<close>

definition dinode_addrs :: "block \<Rightarrow> nat \<Rightarrow> uint list" where
  "dinode_addrs d at = map (\<lambda>k. get32 d (at + 12 + 4 * k)) [0..<NDIRECT + 1]"

definition put_addrs :: "nat \<Rightarrow> uint list \<Rightarrow> block \<Rightarrow> block" where
  "put_addrs at as d = fold (\<lambda>k d. put32 d (at + 12 + 4 * k) (as ! k)) [0..<NDIRECT + 1] d"

definition put_dinode :: "nat \<Rightarrow> inode \<Rightarrow> block \<Rightarrow> block" where
  "put_dinode at ip d =
     put_addrs at (i_addrs ip)
       (put32 (put16 (put16 (put16 (put16 d at (i_type ip)) (at + 2) (i_major ip)) (at + 4) (i_minor ip))
          (at + 6) (i_nlink ip)) (at + 8) (i_size ip))"

definition get_dinode :: "block \<Rightarrow> nat \<Rightarrow> inode \<Rightarrow> inode" where
  "get_dinode d at ip = ip\<lparr>i_type := get16 d at, i_major := get16 d (at + 2), i_minor := get16 d (at + 4),
     i_nlink := get16 d (at + 6), i_size := get32 d (at + 8), i_addrs := dinode_addrs d at\<rparr>"

definition dinode_at :: "uint \<Rightarrow> nat" where
  "dinode_at inum = unat inum mod IPB * 128"

definition iget :: "uint \<Rightarrow> uint \<Rightarrow> ('a fs_state_scheme, nat) K" where
  "iget dev inum =
     thenK (acquire IcacheLock) (
     bindK (gets (\<lambda>s. first_index (\<lambda>ip. 0 < sint (i_ref ip) \<and> i_dev ip = dev \<and> i_inum ip = inum) (icache s))) (\<lambda>hit.
       case hit of
         Some i \<Rightarrow> thenK (block [modify (set_inode i (i_ref_update (\<lambda>r. r + 1))), release IcacheLock]) (ret i)
       | None \<Rightarrow>
           bindK (gets (\<lambda>s. first_index (\<lambda>ip. i_ref ip = 0) (icache s))) (\<lambda>empty. case empty of
             None \<Rightarrow> panic ''iget: no inodes''
           | Some i \<Rightarrow> thenK (block
               [modify (set_inode i (i_dev_update (\<lambda>_. dev))),
                modify (set_inode i (i_inum_update (\<lambda>_. inum))),
                modify (set_inode i (i_ref_update (\<lambda>_. 1))),
                modify (set_inode i (i_valid_update (\<lambda>_. 0))),
                release IcacheLock]) (ret i))))"

function ialloc_loop :: "uint \<Rightarrow> 16 word \<Rightarrow> nat \<Rightarrow> ('a fs_state_scheme, nat) K" where
  "ialloc_loop dev type inum =
     bindK (gets sb) (\<lambda>sbl.
       if inum < unat (sb_ninodes sbl) then
         bindK (bread dev (IBLOCK (of_nat inum) sbl)) (\<lambda>bp.
         bindK (ret (dinode_at (of_nat inum))) (\<lambda>dip.
         bindK (gets (\<lambda>s. get16 (bdata s bp) dip)) (\<lambda>t.
           if t = 0 then
             thenK (block
               [modify (put_data bp (\<lambda>d. take dip d @ replicate 128 0 @ drop (dip + 128) d)),
                modify (put_data bp (\<lambda>d. put16 d dip type)),
                log_write bp,
                brelse bp]) (iget dev (of_nat inum))
           else thenK (brelse bp) (ialloc_loop dev type (inum + 1)))))
       else panic ''ialloc: no inodes'')"
  by pat_completeness auto

termination ialloc_loop
  by (relation "measure (\<lambda>(dev, type, inum). 2 ^ 32 - inum)") (auto dest: below_word)

declare ialloc_loop.simps [simp del]

definition ialloc :: "uint \<Rightarrow> 16 word \<Rightarrow> ('a fs_state_scheme, nat) K" where
  "ialloc dev type = ialloc_loop dev type 1"

definition iupdate :: "nat \<Rightarrow> ('a fs_state_scheme, unit) K" where
  "iupdate i =
     bindK (gets (\<lambda>s. (i_dev (icache s ! i), IBLOCK (i_inum (icache s ! i)) (sb s)))) (\<lambda>(dev, bno).
     bindK (bread dev bno) (\<lambda>bp. block
       [modify (\<lambda>s. put_data bp (put_dinode (dinode_at (i_inum (icache s ! i))) (icache s ! i)) s),
        log_write bp,
        brelse bp]))"

definition idup :: "nat \<Rightarrow> ('a fs_state_scheme, nat) K" where
  "idup i = thenK (block
     [acquire IcacheLock,
      modify (set_inode i (i_ref_update (\<lambda>r. r + 1))),
      release IcacheLock]) (ret i)"

definition ilock :: "nat option \<Rightarrow> ('a fs_state_scheme, unit) K" where
  "ilock p = (case p of None \<Rightarrow> panic ''ilock'' | Some i \<Rightarrow>
     bindK (getsI i i_ref) (\<lambda>r. if sint r < 1 then panic ''ilock'' else
     thenK (acquiresleep (InodeSl i)) (
     bindK (gets (\<lambda>s. (icache s ! i, sb s))) (\<lambda>(ip, sbl). whenK (i_valid ip = 0) (
       bindK (bread (i_dev ip) (IBLOCK (i_inum ip) sbl)) (\<lambda>bp. block
         [modify (\<lambda>s. set_inode i (get_dinode (bdata s bp) (dinode_at (i_inum (icache s ! i)))) s),
          brelse bp,
          modify (set_inode i (i_valid_update (\<lambda>_. 1))),
          bindK (getsI i i_type) (\<lambda>t. whenK (t = 0) (panic ''ilock: no type''))]))))))"

definition iunlock :: "nat option \<Rightarrow> ('a fs_state_scheme, unit) K" where
  "iunlock p = (case p of None \<Rightarrow> panic ''iunlock'' | Some i \<Rightarrow>
     bindK (holdingsleep (InodeSl i)) (\<lambda>h.
     bindK (getsI i i_ref) (\<lambda>r. if \<not> h \<or> sint r < 1 then panic ''iunlock'' else
     releasesleep (InodeSl i))))"

definition itrunc_direct :: "nat \<Rightarrow> ('a fs_state_scheme, unit) K" where
  "itrunc_direct i = forK [0..<NDIRECT] (\<lambda>k.
     bindK (getsI i (\<lambda>ip. (i_dev ip, i_addrs ip ! k))) (\<lambda>(dev, addr). whenK (addr \<noteq> 0) (block
       [bfree dev addr,
        modify (set_inode i (i_addrs_update (\<lambda>as. as[k := 0])))])))"

definition itrunc :: "nat \<Rightarrow> ('a fs_state_scheme, unit) K" where
  "itrunc i = block
     [itrunc_direct i,
      bindK (getsI i (\<lambda>ip. (i_dev ip, i_addrs ip ! NDIRECT))) (\<lambda>(dev, addr). whenK (addr \<noteq> 0) (
        bindK (bread dev addr) (\<lambda>bp. block
          [forK [0..<NINDIRECT] (\<lambda>j. bindK (gets (\<lambda>s. get32 (bdata s bp) (4 * j))) (\<lambda>a.
             whenK (a \<noteq> 0) (bfree dev a))),
           brelse bp,
           bfree dev addr,
           modify (set_inode i (i_addrs_update (\<lambda>as. as[NDIRECT := 0])))]))),
      modify (set_inode i (i_size_update (\<lambda>_. 0))),
      iupdate i]"

definition iput :: "nat \<Rightarrow> ('a fs_state_scheme, unit) K" where
  "iput i = block
     [acquiresleep (InodeSl i),
      bindK (getsI i (\<lambda>ip. i_valid ip \<noteq> 0 \<and> i_nlink ip = 0)) (\<lambda>dead. whenK dead (
        thenK (acquire IcacheLock) (
        bindK (getsI i i_ref) (\<lambda>r.
        thenK (release IcacheLock) (
        whenK (r = 1) (block
          [itrunc i,
           modify (set_inode i (i_type_update (\<lambda>_. 0))),
           iupdate i,
           modify (set_inode i (i_valid_update (\<lambda>_. 0)))])))))),
      releasesleep (InodeSl i),
      acquire IcacheLock,
      modify (set_inode i (i_ref_update (\<lambda>r. r - 1))),
      release IcacheLock]"

definition iunlockput :: "nat \<Rightarrow> ('a fs_state_scheme, unit) K" where
  "iunlockput i = thenK (iunlock (Some i)) (iput i)"

section \<open>Inode content\<close>

definition bmap :: "nat \<Rightarrow> nat \<Rightarrow> ('a fs_state_scheme, uint) K" where
  "bmap i bn =
     bindK (getsI i i_dev) (\<lambda>dev.
     if bn < NDIRECT then
       bindK (getsI i (\<lambda>ip. i_addrs ip ! bn)) (\<lambda>addr.
         if addr = 0 then
           bindK (balloc dev) (\<lambda>addr.
           thenK (modify (set_inode i (i_addrs_update (\<lambda>as. as[bn := addr])))) (ret addr))
         else ret addr)
     else if bn - NDIRECT < NINDIRECT then
       bindK (getsI i (\<lambda>ip. i_addrs ip ! NDIRECT)) (\<lambda>addr.
       bindK (if addr = 0 then
                bindK (balloc dev) (\<lambda>addr.
                thenK (modify (set_inode i (i_addrs_update (\<lambda>as. as[NDIRECT := addr])))) (ret addr))
              else ret addr) (\<lambda>addr.
       bindK (bread dev addr) (\<lambda>bp.
       bindK (gets (\<lambda>s. get32 (bdata s bp) (4 * (bn - NDIRECT)))) (\<lambda>addr.
       bindK (if addr = 0 then
                bindK (balloc dev) (\<lambda>addr.
                thenK (block [modify (put_data bp (\<lambda>d. put32 d (4 * (bn - NDIRECT)) addr)), log_write bp]) (ret addr))
              else ret addr) (\<lambda>addr.
       thenK (brelse bp) (ret addr))))))
     else panic ''bmap: out of range'')"

record stat =
  st_type :: "16 word"
  st_dev :: cint
  st_ino :: uint
  st_nlink :: "16 word"
  st_size :: uint

definition stati :: "nat \<Rightarrow> ('a fs_state_scheme, stat) K" where
  "stati i = getsI i (\<lambda>ip. \<lparr>st_type = i_type ip, st_dev = i_dev ip, st_ino = i_inum ip,
     st_nlink = i_nlink ip, st_size = i_size ip\<rparr>)"

text \<open>One round of the copying loops moves the bytes up to the end of the request or of the block.\<close>

definition chunk :: "nat \<Rightarrow> nat \<Rightarrow> nat" where
  "chunk off n = min n (BSIZE - off mod BSIZE)"

lemma chunk_pos: "0 < n \<Longrightarrow> 0 < chunk off n"
  by (simp add: chunk_def BSIZE_def)

function readi_loop :: "nat \<Rightarrow> nat \<Rightarrow> nat \<Rightarrow> ('a fs_state_scheme, byte list) K" where
  "readi_loop i off n =
     (if n = 0 then ret [] else
      bindK (bmap i (off div BSIZE)) (\<lambda>addr.
      bindK (getsI i i_dev) (\<lambda>dev.
      bindK (bread dev addr) (\<lambda>bp.
      bindK (gets (\<lambda>s. take (chunk off n) (drop (off mod BSIZE) (bdata s bp)))) (\<lambda>bytes.
      thenK (brelse bp) (
      bindK (readi_loop i (off + chunk off n) (n - chunk off n)) (\<lambda>rest. ret (bytes @ rest))))))))"
  by pat_completeness auto

termination readi_loop
  by (relation "measure (\<lambda>(i, off, n). n)") (simp_all add: chunk_pos)

declare readi_loop.simps [simp del]

definition dev_read :: "'s devsw \<Rightarrow> int \<Rightarrow> (nat \<Rightarrow> cint \<Rightarrow> ('s, cint \<times> byte list) K) option" where
  "dev_read dv major = (if major < 0 \<or> NDEV \<le> major then None else fst (dv major))"

definition dev_write :: "'s devsw \<Rightarrow> int \<Rightarrow> (nat \<Rightarrow> byte list \<Rightarrow> ('s, cint) K) option" where
  "dev_write dv major = (if major < 0 \<or> NDEV \<le> major then None else snd (dv major))"

definition readi :: "('a fs_state_scheme) devsw \<Rightarrow> nat \<Rightarrow> uint \<Rightarrow> uint \<Rightarrow> ('a fs_state_scheme, cint \<times> byte list) K" where
  "readi dv i off n =
     bindK (getsI i (\<lambda>ip. ip)) (\<lambda>ip.
       if i_type ip = T_DEV then
         (case dev_read dv (sint (i_major ip)) of None \<Rightarrow> ret (-1, []) | Some f \<Rightarrow> f i n)
       else if i_size ip < off \<or> off + n < off then ret (-1, [])
       else bindK (ret (if i_size ip < off + n then i_size ip - off else n)) (\<lambda>n.
            bindK (readi_loop i (unat off) (unat n)) (\<lambda>bytes. ret (n, bytes))))"

function writei_loop :: "nat \<Rightarrow> nat \<Rightarrow> byte list \<Rightarrow> ('a fs_state_scheme, unit) K" where
  "writei_loop i off src =
     (if src = [] then ret () else
      bindK (bmap i (off div BSIZE)) (\<lambda>addr.
      bindK (getsI i i_dev) (\<lambda>dev.
      bindK (bread dev addr) (\<lambda>bp.
      bindK (ret (chunk off (length src))) (\<lambda>m.
      thenK (block
        [modify (put_data bp (\<lambda>d. take (off mod BSIZE) d @ take m src @ drop (off mod BSIZE + m) d)),
         log_write bp,
         brelse bp])
      (writei_loop i (off + chunk off (length src)) (drop (chunk off (length src)) src)))))))"
  by pat_completeness auto

termination writei_loop
  by (relation "measure (\<lambda>(i, off, src). length src)") (simp_all add: chunk_pos)

declare writei_loop.simps [simp del]

definition writei :: "('a fs_state_scheme) devsw \<Rightarrow> nat \<Rightarrow> byte list \<Rightarrow> uint \<Rightarrow> ('a fs_state_scheme, cint) K" where
  "writei dv i src off =
     bindK (ret (of_nat (length src))) (\<lambda>n.
     bindK (getsI i (\<lambda>ip. ip)) (\<lambda>ip.
       if i_type ip = T_DEV then
         (case dev_write dv (sint (i_major ip)) of None \<Rightarrow> ret (-1) | Some f \<Rightarrow> f i src)
       else if i_size ip < off \<or> off + n < off then ret (-1)
       else if of_nat (MAXFILE * BSIZE) < off + n then ret (-1)
       else thenK (block
         [writei_loop i (unat off) src,
          bindK (getsI i i_size) (\<lambda>size. whenK (0 < n \<and> size < off + n) (block
            [modify (set_inode i (i_size_update (\<lambda>_. off + n))),
             iupdate i]))])
         (ret n)))"

section \<open>Directories\<close>

definition namecmp :: "view \<Rightarrow> view \<Rightarrow> int" where
  "namecmp s t = strncmp s t DIRSIZ"

definition de_inum :: "byte list \<Rightarrow> 16 word" where
  "de_inum de = get16 de 0"

definition de_name :: "byte list \<Rightarrow> view" where
  "de_name de = view (drop 2 de)"

function dirlookup_loop :: "('a fs_state_scheme) devsw \<Rightarrow> nat \<Rightarrow> view \<Rightarrow> nat \<Rightarrow>
    ('a fs_state_scheme, (nat \<times> nat) option) K" where
  "dirlookup_loop dv dp name off =
     bindK (getsI dp (\<lambda>ip. (i_dev ip, i_size ip))) (\<lambda>(dev, size).
       if off < unat size then
         bindK (readi dv dp (of_nat off) 16) (\<lambda>(n, de).
           if n \<noteq> 16 then panic ''dirlookup read''
           else if de_inum de = 0 then dirlookup_loop dv dp name (off + 16)
           else if namecmp name (de_name de) = 0 then
             bindK (iget dev (ucast (de_inum de))) (\<lambda>ip. ret (Some (ip, off)))
           else dirlookup_loop dv dp name (off + 16))
       else ret None)"
  by pat_completeness auto

termination dirlookup_loop
  by (relation "measure (\<lambda>(dv, dp, name, off). 2 ^ 32 - off)") (auto dest: below_word)

declare dirlookup_loop.simps [simp del]

definition dirlookup :: "('a fs_state_scheme) devsw \<Rightarrow> nat \<Rightarrow> view \<Rightarrow>
    ('a fs_state_scheme, (nat \<times> nat) option) K" where
  "dirlookup dv dp name = bindK (getsI dp i_type) (\<lambda>t.
     if t \<noteq> T_DIR then panic ''dirlookup not DIR'' else dirlookup_loop dv dp name 0)"

function dirlink_loop :: "('a fs_state_scheme) devsw \<Rightarrow> nat \<Rightarrow> nat \<Rightarrow> ('a fs_state_scheme, nat) K" where
  "dirlink_loop dv dp off =
     bindK (getsI dp i_size) (\<lambda>size.
       if off < unat size then
         bindK (readi dv dp (of_nat off) 16) (\<lambda>(n, de).
           if n \<noteq> 16 then panic ''dirlink read''
           else if de_inum de = 0 then ret off
           else dirlink_loop dv dp (off + 16))
       else ret off)"
  by pat_completeness auto

termination dirlink_loop
  by (relation "measure (\<lambda>(dv, dp, off). 2 ^ 32 - off)") (auto dest: below_word)

declare dirlink_loop.simps [simp del]

definition dirent :: "uint \<Rightarrow> view \<Rightarrow> byte list" where
  "dirent inum name = put16 (replicate 2 0) 0 (ucast inum) @ strncpy (replicate DIRSIZ 0) name DIRSIZ"

definition dirlink :: "('a fs_state_scheme) devsw \<Rightarrow> nat \<Rightarrow> view \<Rightarrow> uint \<Rightarrow> ('a fs_state_scheme, cint) K" where
  "dirlink dv dp name inum =
     bindK (dirlookup dv dp name) (\<lambda>hit. case hit of
       Some (ip, _) \<Rightarrow> thenK (iput ip) (ret (-1))
     | None \<Rightarrow>
         bindK (dirlink_loop dv dp 0) (\<lambda>off.
         bindK (writei dv dp (dirent inum name) (of_nat off)) (\<lambda>n.
           if n \<noteq> 16 then panic ''dirlink'' else ret 0)))"

section \<open>Paths\<close>

definition slash :: byte where "slash = 47"

definition skipelem :: "byte list \<Rightarrow> byte list \<Rightarrow> (byte list \<times> byte list) option" where
  "skipelem path name =
     (let path = dropWhile ((=) slash) path in
      if path = [] then None
      else let s = takeWhile ((\<noteq>) slash) path;
               name' = (if DIRSIZ \<le> length s then take DIRSIZ s @ drop DIRSIZ name
                        else s @ [0] @ drop (length s + 1) name)
           in Some (name', dropWhile ((=) slash) (drop (length s) path)))"

lemma skipelem_shorter: "skipelem path name = Some (name', path') \<Longrightarrow> length path' < length path"
proof -
  assume a: "skipelem path name = Some (name', path')"
  define q where "q = dropWhile ((=) slash) path"
  have q: "q \<noteq> []" and p': "path' = dropWhile ((=) slash) (drop (length (takeWhile ((\<noteq>) slash) q)) q)"
    using a by (auto simp: skipelem_def q_def Let_def split: if_splits)
  have "slash \<noteq> hd q" using hd_dropWhile [of "(=) slash" path] q by (auto simp: q_def)
  then have "0 < length (takeWhile ((\<noteq>) slash) q)" using q by (cases q) auto
  then have "length path' < length q"
    using q le_trans [OF length_dropWhile_le] by (simp add: p' le_less_trans [OF length_dropWhile_le])
  also have "\<dots> \<le> length path" by (simp add: q_def length_dropWhile_le)
  finally show ?thesis .
qed

function namex_loop :: "('a fs_state_scheme) devsw \<Rightarrow> bool \<Rightarrow> byte list \<Rightarrow> byte list \<Rightarrow> nat \<Rightarrow>
    ('a fs_state_scheme, nat option \<times> byte list) K" where
  "namex_loop dv nameiparent path name ip =
     (case skipelem path name of
        None \<Rightarrow> if nameiparent then thenK (iput ip) (ret (None, name)) else ret (Some ip, name)
      | Some (name, path) \<Rightarrow>
          thenK (ilock (Some ip)) (
          bindK (getsI ip i_type) (\<lambda>t.
            if t \<noteq> T_DIR then thenK (iunlockput ip) (ret (None, name))
            else if nameiparent \<and> path = [] then thenK (iunlock (Some ip)) (ret (Some ip, name))
            else bindK (dirlookup dv ip (view name)) (\<lambda>hit. case hit of
                None \<Rightarrow> thenK (iunlockput ip) (ret (None, name))
              | Some (next, _) \<Rightarrow> thenK (iunlockput ip) (namex_loop dv nameiparent path name next)))))"
  by pat_completeness auto

termination namex_loop
  by (relation "measure (\<lambda>(dv, np, path, name, ip). length path)") (auto dest: skipelem_shorter)

declare namex_loop.simps [simp del]

definition ROOTINO :: uint where "ROOTINO = 1"
definition ROOTDEV :: uint where "ROOTDEV = 1"

definition namex :: "('a fs_state_scheme) devsw \<Rightarrow> byte list \<Rightarrow> bool \<Rightarrow> byte list \<Rightarrow>
    ('a fs_state_scheme, nat option \<times> byte list) K" where
  "namex dv path nameiparent name =
     bindK (if path \<noteq> [] \<and> hd path = slash then iget ROOTDEV ROOTINO
            else bindK myproc (\<lambda>p. deref p (\<lambda>p.
                 bindK (gets (\<lambda>s. p_cwd (ptable s ! p))) (\<lambda>cwd. deref cwd idup)))) (\<lambda>ip.
     namex_loop dv nameiparent path name ip)"

definition namei :: "('a fs_state_scheme) devsw \<Rightarrow> byte list \<Rightarrow> ('a fs_state_scheme, nat option) K" where
  "namei dv path = bindK (namex dv path False (replicate DIRSIZ 0)) (\<lambda>(ip, _). ret ip)"

definition nameiparent :: "('a fs_state_scheme) devsw \<Rightarrow> byte list \<Rightarrow> byte list \<Rightarrow>
    ('a fs_state_scheme, nat option \<times> byte list) K" where
  "nameiparent dv path name = namex dv path True name"

end
