(* ===== verification/Fifo.thy ===== *)
theory Fifo
  imports Prelude
begin

text \<open>
  Byte queues in circular buffers with free-running 32-bit counters, the representation pipes and
  the console's input buffer use: the byte with number \<open>k\<close> lives at \<open>k mod N\<close>, and the queue
  is what lies between the read and the write counter.  As long as \<open>N\<close> divides \<open>2 ^ 32\<close> the
  counters may wrap around.  The locale \<open>fifo\<close> states what the users of such a buffer rely on.
\<close>

section \<open>Circular buffers\<close>

definition ring_bytes :: "nat \<Rightarrow> byte list \<Rightarrow> uint \<Rightarrow> uint \<Rightarrow> byte list" where
  "ring_bytes N d r w = map (\<lambda>k. d ! ((unat r + k) mod N)) [0..<unat (w - r)]"

lemma length_ring_bytes [simp]: "length (ring_bytes N d r w) = unat (w - r)"
  by (simp add: ring_bytes_def)

lemma unat_plus_mod:
  assumes "N dvd 2 ^ 32"
  shows "unat (r + w :: uint) mod N = (unat r + unat w) mod N"
  using assms by (simp add: unat_word_ariths mod_mod_cancel)

lemma unat_plus_1: "unat (x :: uint) + 1 < 2 ^ 32 \<Longrightarrow> unat (x + 1) = Suc (unat x)"
  by (simp add: unat_word_ariths)

lemma ring_apart: "k < n \<Longrightarrow> n < N \<Longrightarrow> (a + k) mod N \<noteq> (a + n) mod (N :: nat)"
  using mod_eq_dvd_iff_nat [of "a + k" "a + n" N] nat_dvd_not_less [of "n - k" N] by auto

lemma ring_bytes_push:
  assumes N: "N dvd 2 ^ 32" and len: "length d = N" "N < 2 ^ 32" and room: "unat (w - r) < N"
  shows "ring_bytes N (d[unat w mod N := c]) r (w + 1) = ring_bytes N d r w @ [c]"
proof -
  let ?n = "unat (w - r)"
  have w: "unat w mod N = (unat r + ?n) mod N" using unat_plus_mod [OF N, of r "w - r"] by simp
  have e: "w + 1 - r = (w - r) + 1" by simp
  have n: "unat (w + 1 - r) = Suc ?n" unfolding e using room len(2) by (intro unat_plus_1) linarith
  have apart: "(unat r + k) mod N \<noteq> unat w mod N" if "k < ?n" for k
    using ring_apart [OF that room, of "unat r"] w by simp
  have "unat w mod N < N" using room by simp
  moreover have "d[unat w mod N := c] ! ((unat r + k) mod N) = d ! ((unat r + k) mod N)" if "k < ?n" for k
    using apart [OF that] by simp
  ultimately show ?thesis using len by (simp add: ring_bytes_def n w cong: map_cong)
qed

lemma ring_bytes_pop:
  assumes N: "N dvd 2 ^ 32" and ne: "r \<noteq> w"
  shows "ring_bytes N d r w = d ! (unat r mod N) # ring_bytes N d (r + 1) w"
proof -
  let ?n = "unat (w - (r + 1))"
  have "w - r \<noteq> 0" using ne by simp
  moreover have e: "w - (r + 1) = (w - r) - 1" by simp
  ultimately have "?n = unat (w - r) - 1" unfolding e by (intro unat_minus_one)
  moreover have "0 < unat (w - r)" using \<open>w - r \<noteq> 0\<close> unat_gt_0 by blast
  ultimately have n: "unat (w - r) = Suc ?n" by linarith
  have "(unat (r + 1) + k) mod N = (unat r + Suc k) mod N" for k
  proof -
    have "(unat (r + 1) + k) mod N = (unat (r + 1) mod N + k) mod N" by (rule mod_add_left_eq [symmetric])
    also have "\<dots> = ((unat r + 1) mod N + k) mod N" using unat_plus_mod [OF N, of r 1] by simp
    also have "\<dots> = (unat r + 1 + k) mod N" by (rule mod_add_left_eq)
    finally show ?thesis by simp
  qed
  then show ?thesis unfolding ring_bytes_def n upt_conv_Cons [OF zero_less_Suc] map_Suc_upt [symmetric]
    by (simp add: comp_def)
qed

lemma ring_bytes_empty: "ring_bytes N d r w = [] \<longleftrightarrow> r = w"
  by (simp add: ring_bytes_def unat_eq_zero) (auto simp: algebra_simps)

section \<open>Queues\<close>

text \<open>\<open>q\<close> abstracts the buffer to the list of bytes in it, oldest first.\<close>

locale fifo =
  fixes ok :: "'p \<Rightarrow> bool" and q :: "'p \<Rightarrow> byte list" and cap :: nat
    and full :: "'p \<Rightarrow> bool" and empty :: "'p \<Rightarrow> bool"
    and put :: "byte \<Rightarrow> 'p \<Rightarrow> 'p" and front :: "'p \<Rightarrow> byte" and pop :: "'p \<Rightarrow> 'p"
  assumes bounded: "ok x \<Longrightarrow> length (q x) \<le> cap"
    and full: "ok x \<Longrightarrow> full x \<longleftrightarrow> length (q x) = cap"
    and empty: "ok x \<Longrightarrow> empty x \<longleftrightarrow> q x = []"
    and put: "ok x \<Longrightarrow> \<not> full x \<Longrightarrow> ok (put c x) \<and> q (put c x) = q x @ [c]"
    and pop: "ok x \<Longrightarrow> \<not> empty x \<Longrightarrow> ok (pop x) \<and> q x = front x # q (pop x)"
begin

text \<open>Taking at most \<open>n\<close> bytes, until the queue is empty.\<close>

primrec take_bytes :: "nat \<Rightarrow> 'p \<Rightarrow> byte list \<times> 'p" where
  "take_bytes 0 x = ([], x)"
| "take_bytes (Suc n) x =
     (if empty x then ([], x) else let (cs, y) = take_bytes n (pop x) in (front x # cs, y))"

lemma put_all:
  "ok x \<Longrightarrow> length (q x) + length cs \<le> cap \<Longrightarrow> ok (fold put cs x) \<and> q (fold put cs x) = q x @ cs"
proof (induction cs arbitrary: x)
  case (Cons c cs)
  have "\<not> full x" using Cons.prems full by auto
  with Cons.prems put have "ok (put c x)" "q (put c x) = q x @ [c]" by auto
  with Cons.IH [of "put c x"] Cons.prems(2) show ?case by simp
qed simp

lemma take_bytes_prefix:
  "ok x \<Longrightarrow> fst (take_bytes n x) = take n (q x) \<and> ok (snd (take_bytes n x)) \<and> q (snd (take_bytes n x)) = drop n (q x)"
proof (induction n arbitrary: x)
  case (Suc n)
  show ?case
  proof (cases "empty x")
    case True
    then show ?thesis using Suc.prems empty by simp
  next
    case False
    with Suc.prems pop have x: "ok (pop x)" "q x = front x # q (pop x)" by auto
    show ?thesis using Suc.IH [OF x(1)] False x(2) by (cases "take_bytes n (pop x)") simp
  qed
qed simp

text \<open>What goes in comes out, in order and once.\<close>

lemma put_then_take:
  assumes "ok x" "length (q x) + length cs \<le> cap"
  shows "fst (take_bytes (length (q x) + length cs) (fold put cs x)) = q x @ cs"
  using put_all [OF assms] take_bytes_prefix [of "fold put cs x"] by simp

end

end
