(* ===== verification/Pipe.thy ===== *)
theory Pipe
  imports Fs Fifo "HOL-Library.Sublist"
begin

text \<open>
  Pipes, \<open>pipe.c\<close>.  A \<open>struct pipe\<close> is named by the address of the page it was allocated in,
  and its fields are kept in a store of their own.  \<open>nread\<close> and \<open>nwrite\<close> are the free-running
  32-bit counters of the code.  The bytes a writer passes and a reader receives are values.
\<close>

section \<open>State\<close>

definition PIPESIZE :: nat where "PIPESIZE = 512"

record pipe =
  pi_data :: "byte list"
  pi_nread :: uint
  pi_nwrite :: uint
  pi_readopen :: cint
  pi_writeopen :: cint

record pipe_state = fs_state +
  pipes :: "uint \<Rightarrow> pipe"

definition set_pipe :: "uint \<Rightarrow> (pipe \<Rightarrow> pipe) \<Rightarrow> 'a pipe_state_scheme \<Rightarrow> 'a pipe_state_scheme" where
  "set_pipe p f s = s\<lparr>pipes := (pipes s)(p := f (pipes s p))\<rparr>"

section \<open>The code\<close>

definition pipeclose :: "uint \<Rightarrow> bool \<Rightarrow> ('a pipe_state_scheme, unit) K" where
  "pipeclose p writable =
     thenK (block
       [acquire (PipeLock p),
        if writable then block [modify (set_pipe p (pi_writeopen_update (\<lambda>_. 0))), wakeup (ChanPipeRead p)]
        else block [modify (set_pipe p (pi_readopen_update (\<lambda>_. 0))), wakeup (ChanPipeWrite p)]]) (
     bindK (gets (\<lambda>s. pi_readopen (pipes s p) = 0 \<and> pi_writeopen (pipes s p) = 0)) (\<lambda>dead.
       if dead then block [release (PipeLock p), kfree p] else release (PipeLock p)))"

definition killed :: "('a proc_state_scheme, bool) K" where
  "killed = bindK myproc (\<lambda>p. deref p (\<lambda>p. gets (\<lambda>s. p_killed (ptable s ! p) \<noteq> 0)))"

definition pipe_full :: "pipe \<Rightarrow> bool" where
  "pipe_full pi \<longleftrightarrow> pi_nwrite pi = pi_nread pi + of_nat PIPESIZE"

text \<open>The waiting loop of \<open>pipewrite\<close>: False when the caller gives up, with the lock released.\<close>

definition pipewrite_wait :: "uint \<Rightarrow> ('a pipe_state_scheme, bool) K" where
  "pipewrite_wait p = loopK (
     bindK (gets (\<lambda>s. pipe_full (pipes s p))) (\<lambda>full.
       if \<not> full then ret (Some True) else
       bindK (gets (\<lambda>s. pi_readopen (pipes s p) = 0)) (\<lambda>closed.
       bindK (if closed then ret True else killed) (\<lambda>stop.
         if stop then thenK (release (PipeLock p)) (ret (Some False))
         else thenK (block [wakeup (ChanPipeRead p), sleep (ChanPipeWrite p) (Some (PipeLock p))]) (ret None)))))"

definition pipe_put :: "byte \<Rightarrow> pipe \<Rightarrow> pipe" where
  "pipe_put c pi = pi\<lparr>pi_data := (pi_data pi)[unat (pi_nwrite pi) mod PIPESIZE := c], pi_nwrite := pi_nwrite pi + 1\<rparr>"

fun pipewrite_loop :: "uint \<Rightarrow> byte list \<Rightarrow> ('a pipe_state_scheme, bool) K" where
  "pipewrite_loop p [] = ret True"
| "pipewrite_loop p (c # cs) =
     bindK (pipewrite_wait p) (\<lambda>ok.
       if ok then thenK (modify (set_pipe p (pipe_put c))) (pipewrite_loop p cs) else ret False)"

definition pipewrite :: "uint \<Rightarrow> byte list \<Rightarrow> ('a pipe_state_scheme, cint) K" where
  "pipewrite p addr =
     thenK (acquire (PipeLock p)) (
     bindK (pipewrite_loop p addr) (\<lambda>ok.
       if ok then thenK (block [wakeup (ChanPipeRead p), release (PipeLock p)]) (ret (of_nat (length addr)))
       else ret (-1)))"

definition pipe_empty :: "pipe \<Rightarrow> bool" where
  "pipe_empty pi \<longleftrightarrow> pi_nread pi = pi_nwrite pi"

definition piperead_wait :: "uint \<Rightarrow> ('a pipe_state_scheme, bool) K" where
  "piperead_wait p = loopK (
     bindK (gets (\<lambda>s. pipe_empty (pipes s p) \<and> pi_writeopen (pipes s p) \<noteq> 0)) (\<lambda>wait.
       if \<not> wait then ret (Some True) else
       bindK killed (\<lambda>stop.
         if stop then thenK (release (PipeLock p)) (ret (Some False))
         else thenK (sleep (ChanPipeRead p) (Some (PipeLock p))) (ret None))))"

fun piperead_copy :: "uint \<Rightarrow> nat \<Rightarrow> ('a pipe_state_scheme, byte list) K" where
  "piperead_copy p 0 = ret []"
| "piperead_copy p (Suc n) =
     bindK (gets (\<lambda>s. pipes s p)) (\<lambda>pi.
       if pipe_empty pi then ret [] else
       thenK (modify (set_pipe p (pi_nread_update (\<lambda>n. n + 1)))) (
       bindK (piperead_copy p n) (\<lambda>cs. ret (pi_data pi ! (unat (pi_nread pi) mod PIPESIZE) # cs))))"

definition piperead :: "uint \<Rightarrow> cint \<Rightarrow> ('a pipe_state_scheme, cint \<times> byte list) K" where
  "piperead p n =
     thenK (acquire (PipeLock p)) (
     bindK (piperead_wait p) (\<lambda>ok.
       if ok then
         bindK (piperead_copy p (nat (sint n))) (\<lambda>cs.
         thenK (block [wakeup (ChanPipeWrite p), release (PipeLock p)]) (ret (of_nat (length cs), cs)))
       else ret (-1, [])))"

section \<open>Frame rules\<close>

lemma pipes_frame [simp]:
  "pipes (acquired l s) = pipes s"
  "pipes (noted s) = pipes s"
  by (simp_all add: acquired_def pushed_def noted_def set_cpu_def set_lock_def)

lemma pipes_commute [simp]:
  "pipes_update u0 (acquired l s) = acquired l (pipes_update u0 s)"
  "pipes_update u0 (noted s) = noted (pipes_update u0 s)"
  by (simp_all add: acquired_def pushed_def noted_def set_cpu_def set_lock_def cur_def)

lemma pipes_context [simp]:
  "cur (pipes_update u0 s) = cur s"
  "cpu_ok (pipes_update u0 s) = cpu_ok s"
  "free_lock l (pipes_update u0 s) = free_lock l s"
  "held_here l (pipes_update u0 s) = held_here l s"
  by (simp_all add: cur_def cpu_ok_def free_lock_def held_here_def)

lemma pipes_ops [simp]:
  "pipes (set_proc i g s) = pipes s"
  "pipes (slept p c s) = pipes s"
  "pipes (woken p s) = pipes s"
  "pipes (settled s) = pipes s"
  "pipes (kfreed a s) = pipes s"
  "pipes (kalloced s) = pipes s"
  "pipes (set_cpu i h s) = pipes s"
  by (simp_all add: set_proc_def slept_def woken_def settled_def kfreed_def kalloced_def set_cpu_def)

lemma pipes_kept [simp]:
  "curproc (pipes_update u0 s) = curproc s"
  "proc_ctx p (pipes_update u0 s) = proc_ctx p s"
  "kmem_ready (pipes_update u0 s) = kmem_ready s"
  "kmem_inv (pipes_update u0 s) xs = kmem_inv s xs"
  by (simp_all add: curproc_def proc_ctx_def kmem_ready_def kmem_inv_def cur_def cpu_ok_def free_lock_def)

lemma set_pipe_simps [simp]:
  "pipes (set_pipe p f s) = (pipes s)(p := f (pipes s p))" "ptable (set_pipe p f s) = ptable s"
  "cpu_ok (set_pipe p f s) = cpu_ok s" "free_lock l (set_pipe p f s) = free_lock l s"
  "proc_ctx q (set_pipe p f s) = proc_ctx q s"
  "set_pipe p f (acquired l s) = acquired l (set_pipe p f s)" "set_pipe p f (noted s) = noted (set_pipe p f s)"
  by (simp_all add: set_pipe_def)

lemma pipes_ptable [simp]: "pipes (ptable_update f s) = pipes s"
  by simp

section \<open>A pipe is a bounded queue\<close>

definition pipe_ok :: "pipe \<Rightarrow> bool" where
  "pipe_ok pi \<longleftrightarrow> length (pi_data pi) = PIPESIZE \<and> unat (pi_nwrite pi - pi_nread pi) \<le> PIPESIZE"

definition pqueue :: "pipe \<Rightarrow> byte list" where
  "pqueue pi = ring_bytes PIPESIZE (pi_data pi) (pi_nread pi) (pi_nwrite pi)"

definition pipe_pop :: "pipe \<Rightarrow> pipe" where
  "pipe_pop = pi_nread_update (\<lambda>n. n + 1)"

lemma pipe_full_iff: "pipe_full x \<longleftrightarrow> length (pqueue x) = PIPESIZE"
proof -
  have "pi_nwrite x = pi_nread x + 512 \<longleftrightarrow> pi_nwrite x - pi_nread x = 512" by (simp add: algebra_simps)
  also have "\<dots> \<longleftrightarrow> unat (pi_nwrite x - pi_nread x) = 512" by (simp add: word_unat_eq_iff)
  finally show ?thesis by (simp add: pipe_full_def pqueue_def PIPESIZE_def)
qed

interpretation pq: fifo pipe_ok pqueue PIPESIZE pipe_full pipe_empty pipe_put
    "\<lambda>pi. pi_data pi ! (unat (pi_nread pi) mod PIPESIZE)" pipe_pop
proof (unfold_locales, goal_cases)
  case (1 x)
  then show ?case by (simp add: pipe_ok_def pqueue_def)
next
  case (2 x)
  show ?case by (rule pipe_full_iff)
next
  case (3 x)
  then show ?case by (simp add: pipe_empty_def pqueue_def ring_bytes_empty)
next
  case (4 x c)
  then have "unat (pi_nwrite x - pi_nread x) < PIPESIZE" "length (pi_data x) = PIPESIZE"
    using pipe_full_iff [of x] by (auto simp: pipe_ok_def pqueue_def)
  moreover from this have "unat (pi_nwrite x + 1 - pi_nread x) \<le> PIPESIZE"
    using unat_plus_1 [of "pi_nwrite x - pi_nread x"] by (simp add: PIPESIZE_def algebra_simps)
  ultimately show ?case
    using ring_bytes_push [of PIPESIZE "pi_data x" "pi_nwrite x" "pi_nread x" c]
    by (simp add: pipe_ok_def pqueue_def pipe_put_def PIPESIZE_def)
next
  case (5 x)
  then have ne: "pi_nread x \<noteq> pi_nwrite x" by (simp add: pipe_empty_def)
  have "unat (pi_nwrite x - (pi_nread x + 1)) \<le> PIPESIZE"
    using ring_bytes_pop [of PIPESIZE "pi_nread x" "pi_nwrite x" "pi_data x"] ne 5(1)
      length_ring_bytes [of PIPESIZE "pi_data x" "pi_nread x" "pi_nwrite x"]
    by (simp add: pipe_ok_def PIPESIZE_def)
  with 5 ne ring_bytes_pop [of PIPESIZE "pi_nread x" "pi_nwrite x" "pi_data x"]
  show ?case by (simp add: pipe_ok_def pqueue_def pipe_pop_def PIPESIZE_def)
qed

section \<open>Waiting for room\<close>

lemma killed_eval:
  "proc_ctx p s \<Longrightarrow> killed (acquired l s) env = Ok (p_killed (ptable s ! p) \<noteq> 0) (acquired l (noted s)) env"
  by (simp add: killed_def kmonad deref_def proc_ctx_def)

lemma proc_ctx_wake [simp]: "proc_ctx p (s\<lparr>ptable := map f (ptable s)\<rparr>) = proc_ctx p s"
  by (simp add: proc_ctx_def)

text \<open>The state a writer that found the pipe \<open>a\<close> full goes to sleep in.\<close>

definition woke_readers :: "uint \<Rightarrow> 'a pipe_state_scheme \<Rightarrow> 'a pipe_state_scheme" where
  "woke_readers a u = u\<lparr>ptable := map (wake (ChanPipeRead a)) (ptable u)\<rparr>"

lemma woke_readers_simps [simp]:
  "proc_ctx p (woke_readers a u) = proc_ctx p u" "free_lock l (woke_readers a u) = free_lock l u"
  "pipes (woke_readers a u) = pipes u"
  by (simp_all add: woke_readers_def)

lemma pipewrite_wait_room:
  "\<not> pipe_full (pipes s a) \<Longrightarrow> pipewrite_wait a s env = Ok True s env"
  unfolding pipewrite_wait_def by (intro loopK_leave) (simp add: kmonad)

lemma pipewrite_wait_gives_up:
  assumes "proc_ctx p u" "free_lock (PipeLock a) u" "pipe_full (pipes u a)"
    and "pi_readopen (pipes u a) = 0 \<or> p_killed (ptable u ! p) \<noteq> 0"
  shows "pipewrite_wait a (acquired (PipeLock a) u) env = Ok False (noted u) env"
proof -
  have c: "cpu_ok u" using assms(1) by (rule proc_ctx_cpu_ok)
  show ?thesis unfolding pipewrite_wait_def
    by (rule loopK_leave) (use assms c in \<open>auto simp: kmonad killed_eval [of p]\<close>)
qed

lemma pipewrite_wait_blocks:
  assumes "proc_ctx p u" "free_lock (PipeLock a) u" "pipe_full (pipes u a)"
    "pi_readopen (pipes u a) \<noteq> 0" "p_killed (ptable u ! p) = 0"
  shows "pipewrite_wait a (acquired (PipeLock a) u) [] = Asleep (acquired PtableLock (slept p (ChanPipeWrite a) (woke_readers a u)))"
    and "f (acquired PtableLock (slept p (ChanPipeWrite a) (woke_readers a u))) = acquired PtableLock t \<Longrightarrow>
      proc_ctx p t \<Longrightarrow> free_lock (PipeLock a) t \<Longrightarrow>
      pipewrite_wait a (acquired (PipeLock a) u) (f # env) =
        pipewrite_wait a (acquired (PipeLock a) (woken p (t\<lparr>FL_IF := FL_IF (woke_readers a u)\<rparr>))) env"
proof -
  have c: "cpu_ok u" "free_lock PtableLock u" using assms(1) by (simp_all add: proc_ctx_def)
  let ?b = "bindK (gets (\<lambda>s. pipe_full (pipes s a))) (\<lambda>full.
       if \<not> full then ret (Some True) else
       bindK (gets (\<lambda>s. pi_readopen (pipes s a) = 0)) (\<lambda>closed.
       bindK (if closed then ret True else killed) (\<lambda>stop.
         if stop then thenK (release (PipeLock a)) (ret (Some False))
         else thenK (block [wakeup (ChanPipeRead a), sleep (ChanPipeWrite a) (Some (PipeLock a))]) (ret None))))"
  have body: "?b (acquired (PipeLock a) u) env =
      bindK (sleep (ChanPipeWrite a) (Some (PipeLock a))) (\<lambda>_. ret None) (acquired (PipeLock a) (woke_readers a u)) env" for env
    using assms c by (simp add: kmonad killed_eval [of p] woke_readers_def split: outcome.split)
  have sl: "sleep (ChanPipeWrite a) (Some (PipeLock a)) (acquired (PipeLock a) (woke_readers a u)) [] =
      Asleep (acquired PtableLock (slept p (ChanPipeWrite a) (woke_readers a u)))"
    using assms by (intro sleep_sleeps) simp_all
  show "pipewrite_wait a (acquired (PipeLock a) u) [] = Asleep (acquired PtableLock (slept p (ChanPipeWrite a) (woke_readers a u)))"
    unfolding pipewrite_wait_def loopK.simps [of ?b "acquired (PipeLock a) u"] body by (simp add: bindK_def sl)
  assume f: "f (acquired PtableLock (slept p (ChanPipeWrite a) (woke_readers a u))) = acquired PtableLock t"
    "proc_ctx p t" "free_lock (PipeLock a) t"
  have "sleep (ChanPipeWrite a) (Some (PipeLock a)) (acquired (PipeLock a) (woke_readers a u)) (f # env) =
      Ok () (acquired (PipeLock a) (woken p (t\<lparr>FL_IF := FL_IF (woke_readers a u)\<rparr>))) env"
    using assms f by (intro sleep_resumes) simp_all
  then show "pipewrite_wait a (acquired (PipeLock a) u) (f # env) =
        pipewrite_wait a (acquired (PipeLock a) (woken p (t\<lparr>FL_IF := FL_IF (woke_readers a u)\<rparr>))) env"
    unfolding pipewrite_wait_def by (intro loopK_round) (simp_all add: body, simp_all add: bindK_def ret_def)
qed

lemma undisturbed_pipes [simp]: "undisturbed p (\<lambda>s. I (pipes s a))"
  by (simp add: undisturbed_def woken_def set_proc_def)

lemma pipewrite_wait_outcome:
  assumes "proc_ctx p u" "free_lock (PipeLock a) u" "I (pipes u a)"
    and "\<forall>f\<in>set env. resumes p (ChanPipeWrite a) (PipeLock a) (\<lambda>s. I (pipes s a)) f"
  shows "(\<exists>t env'. pipewrite_wait a (acquired (PipeLock a) u) env = Ok True (acquired (PipeLock a) t) env' \<and>
      set env' \<subseteq> set env \<and> proc_ctx p t \<and> free_lock (PipeLock a) t \<and> I (pipes t a) \<and> \<not> pipe_full (pipes t a)) \<or>
    (\<exists>t env'. pipewrite_wait a (acquired (PipeLock a) u) env = Ok False t env' \<and> free_lock (PipeLock a) t \<and> I (pipes t a)) \<or>
    (\<exists>t. pipewrite_wait a (acquired (PipeLock a) u) env = Asleep (acquired PtableLock (slept p (ChanPipeWrite a) t)) \<and>
      free_lock (PipeLock a) t \<and> I (pipes t a) \<and> pipe_full (pipes t a))"
  using assms
proof (induction env arbitrary: u)
  case Nil
  consider (room) "\<not> pipe_full (pipes u a)"
    | (stop) "pipe_full (pipes u a)" "pi_readopen (pipes u a) = 0 \<or> p_killed (ptable u ! p) \<noteq> 0"
    | (wait) "pipe_full (pipes u a)" "pi_readopen (pipes u a) \<noteq> 0" "p_killed (ptable u ! p) = 0" by blast
  then show ?case
  proof cases
    case room
    then show ?thesis using Nil.prems pipewrite_wait_room [of "acquired (PipeLock a) u" a "[]"] by auto
  next
    case stop
    then show ?thesis using Nil.prems pipewrite_wait_gives_up [of p u a "[]"] by auto
  next
    case wait
    with Nil.prems pipewrite_wait_blocks(1) [of p u a] show ?thesis
      by (intro disjI2 exI [of _ "woke_readers a u"]) simp
  qed
next
  case (Cons f env)
  consider (room) "\<not> pipe_full (pipes u a)"
    | (stop) "pipe_full (pipes u a)" "pi_readopen (pipes u a) = 0 \<or> p_killed (ptable u ! p) \<noteq> 0"
    | (wait) "pipe_full (pipes u a)" "pi_readopen (pipes u a) \<noteq> 0" "p_killed (ptable u ! p) = 0" by blast
  then show ?case
  proof cases
    case room
    then show ?thesis using Cons.prems pipewrite_wait_room [of "acquired (PipeLock a) u" a "f # env"] by auto
  next
    case stop
    then show ?thesis using Cons.prems pipewrite_wait_gives_up [of p u a "f # env"] by auto
  next
    case wait
    have "resumes p (ChanPipeWrite a) (PipeLock a) (\<lambda>s. I (pipes s a)) f" using Cons.prems(4) by simp
    then obtain t where t: "f (acquired PtableLock (slept p (ChanPipeWrite a) (woke_readers a u))) = acquired PtableLock t"
      "proc_ctx p t" "free_lock (PipeLock a) t" "I (pipes t a)"
      using Cons.prems(1-3) unfolding resumes_def by (metis woke_readers_simps)
    let ?t = "woken p (t\<lparr>FL_IF := FL_IF (woke_readers a u)\<rparr>)"
    have e: "pipewrite_wait a (acquired (PipeLock a) u) (f # env) = pipewrite_wait a (acquired (PipeLock a) ?t) env"
      using Cons.prems wait t by (intro pipewrite_wait_blocks(2)) simp_all
    have w: "proc_ctx p ?t" "free_lock (PipeLock a) ?t" "I (pipes ?t a)"
      using t by (simp_all add: woken_def FL_IF_context)
    have r: "\<forall>f\<in>set env. resumes p (ChanPipeWrite a) (PipeLock a) (\<lambda>s. I (pipes s a)) f" using Cons.prems(4) by simp
    have "set env' \<subseteq> set (f # env)" if "set env' \<subseteq> set env" for env' using that by auto
    then show ?thesis unfolding e using Cons.IH [OF w r] by blast
  qed
qed

section \<open>Writing under interference\<close>

text \<open>What a writer sees of a pipe: it is well formed, and what is in it is the tail of \<open>xs\<close>.\<close>

definition tail_of :: "byte list \<Rightarrow> pipe \<Rightarrow> bool" where
  "tail_of xs pi \<longleftrightarrow> pipe_ok pi \<and> suffix (pqueue pi) xs"

lemma tail_of_put: "tail_of xs pi \<Longrightarrow> \<not> pipe_full pi \<Longrightarrow> tail_of (xs @ [c]) (pipe_put c pi)"
  using pq.put [of pi c] by (auto simp: tail_of_def suffix_def)

text \<open>While the writer sleeps on pipe \<open>a\<close>, others take bytes from its front but put none in.\<close>

definition readers_only :: "nat \<Rightarrow> uint \<Rightarrow> ('a pipe_state_scheme \<Rightarrow> 'a pipe_state_scheme) \<Rightarrow> bool" where
  "readers_only p a f \<longleftrightarrow> (\<forall>xs. resumes p (ChanPipeWrite a) (PipeLock a) (\<lambda>s. tail_of xs (pipes s a)) f)"

lemma pipewrite_loop_outcome:
  assumes "proc_ctx p u" "free_lock (PipeLock a) u" "tail_of xs (pipes u a)" "\<forall>f\<in>set env. readers_only p a f"
  shows "(\<exists>t env'. pipewrite_loop a cs (acquired (PipeLock a) u) env = Ok True (acquired (PipeLock a) t) env' \<and>
      proc_ctx p t \<and> free_lock (PipeLock a) t \<and> tail_of (xs @ cs) (pipes t a)) \<or>
    (\<exists>t env' ds. pipewrite_loop a cs (acquired (PipeLock a) u) env = Ok False t env' \<and> free_lock (PipeLock a) t \<and>
      prefix ds cs \<and> tail_of (xs @ ds) (pipes t a)) \<or>
    (\<exists>t ds. pipewrite_loop a cs (acquired (PipeLock a) u) env = Asleep (acquired PtableLock (slept p (ChanPipeWrite a) t)) \<and>
      free_lock (PipeLock a) t \<and> prefix ds cs \<and> tail_of (xs @ ds) (pipes t a) \<and> pipe_full (pipes t a))"
  using assms
proof (induction cs arbitrary: u xs env)
  case Nil
  then show ?case by (auto simp: kmonad)
next
  case (Cons c cs)
  have r: "\<forall>f\<in>set env. resumes p (ChanPipeWrite a) (PipeLock a) (\<lambda>s. tail_of xs (pipes s a)) f"
    using Cons.prems(4) by (simp add: readers_only_def)
  show ?case
    using pipewrite_wait_outcome [of p u a "tail_of xs", OF Cons.prems(1-3) r]
  proof (elim disjE exE conjE)
    fix t env' assume t: "pipewrite_wait a (acquired (PipeLock a) u) env = Ok True (acquired (PipeLock a) t) env'"
      "set env' \<subseteq> set env" "proc_ctx p t" "free_lock (PipeLock a) t" "tail_of xs (pipes t a)" "\<not> pipe_full (pipes t a)"
    let ?t = "set_pipe a (pipe_put c) t"
    have run: "pipewrite_loop a (c # cs) (acquired (PipeLock a) u) env = pipewrite_loop a cs (acquired (PipeLock a) ?t) env'"
      by (simp add: kmonad t(1))
    have "tail_of (xs @ [c]) (pipes ?t a)" using tail_of_put [OF t(5,6)] by simp
    then show ?thesis unfolding run using Cons.IH [of ?t "xs @ [c]" env'] t(2-4) Cons.prems(4)
      by (auto simp: subset_eq intro: Cons_prefix_Cons [THEN iffD2])
  next
    fix t env' assume "pipewrite_wait a (acquired (PipeLock a) u) env = Ok False t env'" "free_lock (PipeLock a) t" "tail_of xs (pipes t a)"
    then show ?thesis by (intro disjI2 disjI1 exI [of _ t] exI [of _ env'] exI [of _ "[]"]) (simp add: kmonad)
  next
    fix t assume "pipewrite_wait a (acquired (PipeLock a) u) env = Asleep (acquired PtableLock (slept p (ChanPipeWrite a) t))"
      "free_lock (PipeLock a) t" "tail_of xs (pipes t a)" "pipe_full (pipes t a)"
    then show ?thesis by (intro disjI2 exI [of _ t] exI [of _ "[]"]) (simp add: kmonad)
  qed
qed

section \<open>Undisturbed runs\<close>

lemma set_pipe_set_pipe: "set_pipe a f (set_pipe a g s) = set_pipe a (\<lambda>x. f (g x)) s"
  by (simp add: set_pipe_def)

lemma set_pipe_id: "set_pipe a (\<lambda>x. x) s = s" "set_pipe a (\<lambda>_. pipes s a) s = s"
  by (simp_all add: set_pipe_def)

lemma pipewrite_loop_room:
  "pipe_ok (pipes s a) \<Longrightarrow> length (pqueue (pipes s a)) + length cs \<le> PIPESIZE \<Longrightarrow>
   pipewrite_loop a cs s env = Ok True (set_pipe a (fold pipe_put cs) s) env"
proof (induction cs arbitrary: s)
  case Nil
  then show ?case by (simp add: kmonad set_pipe_id)
next
  case (Cons c cs)
  have nf: "\<not> pipe_full (pipes s a)" using Cons.prems by (simp add: pipe_full_iff)
  with Cons.prems pq.put [of "pipes s a" c]
  have "pipewrite_loop a cs (set_pipe a (pipe_put c) s) env =
      Ok True (set_pipe a (fold pipe_put cs) (set_pipe a (pipe_put c) s)) env"
    by (intro Cons.IH) auto
  with nf show ?case by (simp add: kmonad pipewrite_wait_room set_pipe_set_pipe comp_def)
qed

lemma piperead_copy_eval:
  "piperead_copy a n s env = Ok (fst (pq.take_bytes n (pipes s a))) (set_pipe a (\<lambda>_. snd (pq.take_bytes n (pipes s a))) s) env"
proof (induction n arbitrary: s)
  case 0
  then show ?case by (simp add: kmonad set_pipe_id)
next
  case (Suc n)
  show ?case
  proof (cases "pipe_empty (pipes s a)")
    case True
    then show ?thesis by (simp add: kmonad set_pipe_id)
  next
    case False
    have e: "pi_nread_update (\<lambda>n. n + 1) = pipe_pop" by (simp add: pipe_pop_def)
    show ?thesis using False Suc.IH [of "set_pipe a pipe_pop s"]
      by (cases "pq.take_bytes n (pipe_pop (pipes s a))") (simp add: kmonad e set_pipe_set_pipe)
  qed
qed

lemma piperead_wait_ready:
  "\<not> pipe_empty (pipes s a) \<or> pi_writeopen (pipes s a) = 0 \<Longrightarrow> piperead_wait a s env = Ok True s env"
  unfolding piperead_wait_def by (intro loopK_leave) (auto simp: kmonad)

lemma piperead_wait_sleeps:
  assumes "proc_ctx p u" "free_lock (PipeLock a) u" "pipe_empty (pipes u a)" "pi_writeopen (pipes u a) \<noteq> 0"
    "p_killed (ptable u ! p) = 0"
  shows "piperead_wait a (acquired (PipeLock a) u) [] = Asleep (acquired PtableLock (slept p (ChanPipeRead a) u))"
  using assms proc_ctx_cpu_ok [OF assms(1)] by (simp add: piperead_wait_def loopK.simps kmonad killed_eval [of p] sleep_sleeps [of p] slept_def)

section \<open>Properties\<close>

text \<open>
  C4.  A pipe implements a bounded queue of bytes.  \<open>pipewrite\<close> of bytes there is room for appends
  them and returns their number; \<open>piperead\<close> of a pipe with bytes in it, or whose write end is
  closed, returns the first bytes, at most as many as asked for, and removes exactly those.  A writer
  that finds the queue full while the read end is open, and a reader that finds it empty while the
  write end is open, sleep on the pipe.  The counters may wrap around.
\<close>

theorem pipe_fifo:
  assumes "proc_ctx p s" "free_lock (PipeLock a) s" "pipe_ok (pipes s a)"
  shows "(length (pqueue (pipes s a)) + length cs \<le> PIPESIZE \<longrightarrow>
      (\<exists>t. pipewrite a cs s env = Ok (of_nat (length cs)) t env \<and> pipe_ok (pipes t a) \<and>
        pqueue (pipes t a) = pqueue (pipes s a) @ cs)) \<and>
    (pqueue (pipes s a) \<noteq> [] \<or> pi_writeopen (pipes s a) = 0 \<longrightarrow>
      (\<exists>t. piperead a n s env =
          Ok (of_nat (min (nat (sint n)) (length (pqueue (pipes s a)))), take (nat (sint n)) (pqueue (pipes s a))) t env \<and>
        pipe_ok (pipes t a) \<and> pqueue (pipes t a) = drop (nat (sint n)) (pqueue (pipes s a)))) \<and>
    (length (pqueue (pipes s a)) = PIPESIZE \<and> cs \<noteq> [] \<and> pi_readopen (pipes s a) \<noteq> 0 \<and> p_killed (ptable s ! p) = 0 \<longrightarrow>
      pipewrite a cs s [] = Asleep (acquired PtableLock (slept p (ChanPipeWrite a) (woke_readers a s)))) \<and>
    (pqueue (pipes s a) = [] \<and> pi_writeopen (pipes s a) \<noteq> 0 \<and> p_killed (ptable s ! p) = 0 \<longrightarrow>
      piperead a n s [] = Asleep (acquired PtableLock (slept p (ChanPipeRead a) s)))"
proof (intro conjI impI)
  have c: "cpu_ok s" "free_lock PtableLock s" using assms(1) by (simp_all add: proc_ctx_def)
  let ?q = "pqueue (pipes s a)" and ?k = "nat (sint n)"
  {
    assume "length ?q + length cs \<le> PIPESIZE"
    then show "\<exists>t. pipewrite a cs s env = Ok (of_nat (length cs)) t env \<and> pipe_ok (pipes t a) \<and> pqueue (pipes t a) = ?q @ cs"
      using c assms pq.put_all [of "pipes s a" cs]
      by (simp add: pipewrite_def kmonad pipewrite_loop_room [of "acquired (PipeLock a) s"])
  next
    assume "?q \<noteq> [] \<or> pi_writeopen (pipes s a) = 0"
    then have "\<not> pipe_empty (pipes s a) \<or> pi_writeopen (pipes s a) = 0" using pq.empty assms(3) by auto
    then show "\<exists>t. piperead a n s env = Ok (of_nat (min ?k (length ?q)), take ?k ?q) t env \<and>
        pipe_ok (pipes t a) \<and> pqueue (pipes t a) = drop ?k ?q"
      using c assms pq.take_bytes_prefix [OF assms(3), of ?k]
      by (simp add: piperead_def kmonad piperead_wait_ready piperead_copy_eval min.commute)
  next
    assume "length ?q = PIPESIZE \<and> cs \<noteq> [] \<and> pi_readopen (pipes s a) \<noteq> 0 \<and> p_killed (ptable s ! p) = 0"
    then show "pipewrite a cs s [] = Asleep (acquired PtableLock (slept p (ChanPipeWrite a) (woke_readers a s)))"
      using c assms pipewrite_wait_blocks(1) [of p s a]
      by (cases cs) (simp_all add: pipewrite_def kmonad pipe_full_iff)
  next
    assume "?q = [] \<and> pi_writeopen (pipes s a) \<noteq> 0 \<and> p_killed (ptable s ! p) = 0"
    then show "piperead a n s [] = Asleep (acquired PtableLock (slept p (ChanPipeRead a) s))"
      using c assms piperead_wait_sleeps [of p s a] pq.empty [of "pipes s a"] by (simp add: piperead_def kmonad)
  }
qed

text \<open>Witness: a pipe at address \<open>0x80400000\<close> whose counters are about to wrap, with one byte in it.\<close>

definition pipe_machine :: pipe_state where
  "pipe_machine = fs_state.extend (log_state.extend log_machine
       \<lparr>sb = \<lparr>sb_size = 40, sb_nblocks = 8, sb_ninodes = 4, sb_nlog = 30, sb_logstart = 2, sb_inodestart = 32, sb_bmapstart = 33\<rparr>,
        icache = []\<rparr>)
     \<lparr>pipes = (\<lambda>_. \<lparr>pi_data = replicate 512 7, pi_nread = 0xFFFFFFFF, pi_nwrite = 0, pi_readopen = 1, pi_writeopen = 1\<rparr>)\<rparr>"

lemmas pipe_machine_defs = pipe_machine_def fs_state.defs log_state.defs log_machine_defs

lemma pipe_machine_ctx: "proc_ctx 1 pipe_machine" "free_lock l pipe_machine"
  by (auto simp: proc_ctx_def cpu_ok_def cur_def curproc_def free_lock_def pipe_machine_defs
      init_proc_def shell_proc_def blank_proc_def simp del: upt_Suc)

lemma pipe_machine_pipe: "pipe_ok (pipes pipe_machine a)" "pqueue (pipes pipe_machine a) = [7]"
  by (simp_all add: pipe_ok_def pqueue_def ring_bytes_def PIPESIZE_def pipe_machine_def fs_state.defs)

theorem pipe_fifo_witness:
  "(\<exists>t. pipewrite 0x80400000 [8, 9] pipe_machine [] = Ok 2 t [] \<and> pqueue (pipes t 0x80400000) = [7, 8, 9]) \<and>
   (\<exists>t. piperead 0x80400000 5 pipe_machine [] = Ok (1, [7]) t [] \<and> pqueue (pipes t 0x80400000) = [])"
  using pipe_fifo [OF pipe_machine_ctx(1) pipe_machine_ctx(2) pipe_machine_pipe(1), where a = "0x80400000" and cs = "[8, 9]" and env = "[]" and n = 5]
  by (auto simp: pipe_machine_pipe PIPESIZE_def)


lemma resume_same: "resumes p c lk I (\<lambda>s. s)" if "\<And>u. I (slept p c u) = I u"
  unfolding resumes_def using that by (metis slept_simps(1,4))


end
