(* ===== verification/File.thy ===== *)
theory File
  imports Pipe
begin

text \<open>
  Open files, \<open>file.c\<close>, \<open>struct file\<close> of \<open>file.h\<close>, and \<open>pipealloc\<close> of \<open>pipe.c\<close>.  A file
  pointer is an index in \<open>ftable.file\<close>.  What \<open>fileread\<close> stores at \<open>addr\<close> is returned next
  to its result, what \<open>filewrite\<close> finds there is a list of bytes.
\<close>

section \<open>State\<close>

definition NFILE :: nat where "NFILE = 100"

datatype ftype = FD_NONE | FD_PIPE | FD_INODE

record filep =
  f_type :: ftype
  f_ref :: cint
  f_readable :: byte
  f_writable :: byte
  f_pipe :: uint
  f_ip :: "nat option"
  f_off :: uint

record file_state = pipe_state +
  ftable :: "filep list"

definition set_file :: "nat \<Rightarrow> (filep \<Rightarrow> filep) \<Rightarrow> 'a file_state_scheme \<Rightarrow> 'a file_state_scheme" where
  "set_file f g s = s\<lparr>ftable := (ftable s)[f := g (ftable s ! f)]\<rparr>"

section \<open>The code\<close>

definition fileinit :: "('a file_state_scheme, unit) K" where
  "fileinit = initlock FtableLock ''ftable''"

definition filealloc :: "('a file_state_scheme, nat option) K" where
  "filealloc =
     thenK (acquire FtableLock) (
     bindK (gets (\<lambda>s. first_index (\<lambda>f. f_ref f = 0) (ftable s))) (\<lambda>free. case free of
       Some f \<Rightarrow> thenK (block [modify (set_file f (f_ref_update (\<lambda>_. 1))), release FtableLock]) (ret (Some f))
     | None \<Rightarrow> thenK (release FtableLock) (ret None)))"

definition filedup :: "nat \<Rightarrow> ('a file_state_scheme, nat) K" where
  "filedup f =
     thenK (acquire FtableLock) (
     bindK (gets (\<lambda>s. f_ref (ftable s ! f))) (\<lambda>r.
       if sint r < 1 then panic ''filedup'' else
       thenK (block [modify (set_file f (f_ref_update (\<lambda>r. r + 1))), release FtableLock]) (ret f)))"

definition fileclose :: "nat \<Rightarrow> ('a file_state_scheme, unit) K" where
  "fileclose f =
     thenK (acquire FtableLock) (
     bindK (gets (\<lambda>s. f_ref (ftable s ! f))) (\<lambda>r.
       if sint r < 1 then panic ''fileclose'' else
       thenK (modify (set_file f (f_ref_update (\<lambda>r. r - 1)))) (
       bindK (gets (\<lambda>s. ftable s ! f)) (\<lambda>ff.
         if 0 < sint (f_ref ff) then release FtableLock else block
           [modify (set_file f (f_ref_update (\<lambda>_. 0))),
            modify (set_file f (f_type_update (\<lambda>_. FD_NONE))),
            release FtableLock,
            case f_type ff of
              FD_PIPE \<Rightarrow> pipeclose (f_pipe ff) (f_writable ff \<noteq> 0)
            | FD_INODE \<Rightarrow> block [begin_op, deref (f_ip ff) iput, end_op]
            | FD_NONE \<Rightarrow> ret ()]))))"

definition filestat :: "nat \<Rightarrow> ('a file_state_scheme, cint \<times> stat option) K" where
  "filestat f = bindK (gets (\<lambda>s. ftable s ! f)) (\<lambda>ff.
     if f_type ff = FD_INODE then
       thenK (ilock (f_ip ff)) (
       bindK (deref (f_ip ff) stati) (\<lambda>st.
       thenK (iunlock (f_ip ff)) (ret (0, Some st))))
     else ret (-1, None))"

definition fileread :: "('a file_state_scheme) devsw \<Rightarrow> nat \<Rightarrow> cint \<Rightarrow> ('a file_state_scheme, cint \<times> byte list) K" where
  "fileread dv f n = bindK (gets (\<lambda>s. ftable s ! f)) (\<lambda>ff.
     if f_readable ff = 0 then ret (-1, []) else
     case f_type ff of
       FD_PIPE \<Rightarrow> piperead (f_pipe ff) n
     | FD_INODE \<Rightarrow>
         thenK (ilock (f_ip ff)) (
         bindK (gets (\<lambda>s. f_off (ftable s ! f))) (\<lambda>off.
         bindK (deref (f_ip ff) (\<lambda>ip. readi dv ip off n)) (\<lambda>(r, bytes).
         thenK (block
           [whenK (0 < sint r) (modify (set_file f (f_off_update (\<lambda>off. off + r)))),
            iunlock (f_ip ff)]) (ret (r, bytes)))))
     | FD_NONE \<Rightarrow> panic ''fileread'')"

definition filewrite_max :: nat where
  "filewrite_max = (LOGSIZE - 1 - 1 - 2) div 2 * 512"

text \<open>The transactions of \<open>filewrite\<close>: the bytes of \<open>addr\<close> written, \<open>addr\<close> what is left.\<close>

function filewrite_loop :: "('a file_state_scheme) devsw \<Rightarrow> nat \<Rightarrow> byte list \<Rightarrow> ('a file_state_scheme, bool) K" where
  "filewrite_loop dv f addr =
     (if addr = [] then ret True else
      bindK (ret (take filewrite_max addr)) (\<lambda>src.
      thenK begin_op (
      bindK (gets (\<lambda>s. f_ip (ftable s ! f))) (\<lambda>ip.
      thenK (ilock ip) (
      bindK (gets (\<lambda>s. f_off (ftable s ! f))) (\<lambda>off.
      bindK (deref ip (\<lambda>ip. writei dv ip src off)) (\<lambda>r.
      thenK (block
        [whenK (0 < sint r) (modify (set_file f (f_off_update (\<lambda>off. off + r)))),
         iunlock ip,
         end_op]) (
      if sint r < 0 then ret False
      else if r \<noteq> of_nat (length src) then panic ''short filewrite''
      else filewrite_loop dv f (drop filewrite_max addr)))))))))"
  by pat_completeness auto

termination filewrite_loop
  by (relation "measure (\<lambda>(dv, f, addr). length addr)") (simp_all add: filewrite_max_def LOGSIZE_def)

declare filewrite_loop.simps [simp del]

definition filewrite :: "('a file_state_scheme) devsw \<Rightarrow> nat \<Rightarrow> byte list \<Rightarrow> ('a file_state_scheme, cint) K" where
  "filewrite dv f addr = bindK (gets (\<lambda>s. ftable s ! f)) (\<lambda>ff.
     if f_writable ff = 0 then ret (-1) else
     case f_type ff of
       FD_PIPE \<Rightarrow> pipewrite (f_pipe ff) addr
     | FD_INODE \<Rightarrow>
         bindK (filewrite_loop dv f addr) (\<lambda>all. ret (if all then of_nat (length addr) else -1))
     | FD_NONE \<Rightarrow> panic ''filewrite'')"

section \<open>Pipes as files\<close>

definition pipealloc_bad :: "uint \<Rightarrow> nat option \<Rightarrow> nat option \<Rightarrow> ('a file_state_scheme, (nat \<times> nat) option) K" where
  "pipealloc_bad p f0 f1 = thenK (block
     [whenK (p \<noteq> 0) (kfree p),
      case f0 of None \<Rightarrow> ret () | Some f \<Rightarrow> fileclose f,
      case f1 of None \<Rightarrow> ret () | Some f \<Rightarrow> fileclose f]) (ret None)"

definition new_pipe :: "uint \<Rightarrow> nat \<Rightarrow> nat \<Rightarrow> ('a file_state_scheme, unit) K" where
  "new_pipe p f0 f1 = block
     [modify (set_pipe p (pi_readopen_update (\<lambda>_. 1))),
      modify (set_pipe p (pi_writeopen_update (\<lambda>_. 1))),
      modify (set_pipe p (pi_nwrite_update (\<lambda>_. 0))),
      modify (set_pipe p (pi_nread_update (\<lambda>_. 0))),
      initlock (PipeLock p) ''pipe'',
      modify (set_file f0 (\<lambda>f. f\<lparr>f_type := FD_PIPE, f_readable := 1, f_writable := 0, f_pipe := p\<rparr>)),
      modify (set_file f1 (\<lambda>f. f\<lparr>f_type := FD_PIPE, f_readable := 0, f_writable := 1, f_pipe := p\<rparr>))]"

definition pipealloc :: "('a file_state_scheme, (nat \<times> nat) option) K" where
  "pipealloc =
     bindK filealloc (\<lambda>f0. case f0 of None \<Rightarrow> pipealloc_bad 0 None None | Some a \<Rightarrow>
     bindK filealloc (\<lambda>f1. case f1 of None \<Rightarrow> pipealloc_bad 0 f0 None | Some b \<Rightarrow>
     bindK kalloc (\<lambda>p. if p = 0 then pipealloc_bad 0 f0 f1 else
       thenK (new_pipe p a b) (ret (Some (a, b))))))"

section \<open>Frame rules\<close>

lemma ftable_frame [simp]:
  "ftable (acquired l s) = ftable s"
  "ftable (noted s) = ftable s"
  by (simp_all add: acquired_def pushed_def noted_def set_cpu_def set_lock_def)

lemma ftable_commute [simp]:
  "ftable_update u0 (acquired l s) = acquired l (ftable_update u0 s)"
  "ftable_update u0 (noted s) = noted (ftable_update u0 s)"
  by (simp_all add: acquired_def pushed_def noted_def set_cpu_def set_lock_def cur_def)

lemma ftable_context [simp]:
  "cur (ftable_update u0 s) = cur s"
  "cpu_ok (ftable_update u0 s) = cpu_ok s"
  "free_lock l (ftable_update u0 s) = free_lock l s"
  "held_here l (ftable_update u0 s) = held_here l s"
  by (simp_all add: cur_def cpu_ok_def free_lock_def held_here_def)

lemma ftable_ops [simp]:
  "ftable (set_proc i g s) = ftable s"
  "ftable (slept p c s) = ftable s"
  "ftable (woken p s) = ftable s"
  "ftable (settled s) = ftable s"
  "ftable (kfreed a s) = ftable s"
  "ftable (kalloced s) = ftable s"
  "ftable (set_cpu i h s) = ftable s"
  by (simp_all add: set_proc_def slept_def woken_def settled_def kfreed_def kalloced_def set_cpu_def)

lemma ftable_kept [simp]:
  "curproc (ftable_update u0 s) = curproc s"
  "proc_ctx p (ftable_update u0 s) = proc_ctx p s"
  "kmem_ready (ftable_update u0 s) = kmem_ready s"
  "kmem_inv (ftable_update u0 s) xs = kmem_inv s xs"
  by (simp_all add: curproc_def proc_ctx_def kmem_ready_def kmem_inv_def cur_def cpu_ok_def free_lock_def)

lemma set_file_simps [simp]:
  "ftable (set_file f g s) = (ftable s)[f := g (ftable s ! f)]" "pipes (set_file f g s) = pipes s"
  "cpu_ok (set_file f g s) = cpu_ok s" "free_lock l (set_file f g s) = free_lock l s"
  "set_file f g (acquired l s) = acquired l (set_file f g s)" "set_file f g (noted s) = noted (set_file f g s)"
  by (simp_all add: set_file_def)

section \<open>Reference counts\<close>

lemma outcome_eta [simp]:
  "(case r of Ok a s e \<Rightarrow> Ok a s e | Panic x \<Rightarrow> Panic x | Spin \<Rightarrow> Spin | Asleep s \<Rightarrow> Asleep s) = r"
  by (cases r) simp_all

lemma filealloc_eval:
  assumes "cpu_ok s" "free_lock FtableLock s"
  shows "filealloc s env = (case first_index (\<lambda>f. f_ref f = 0) (ftable s) of
      None \<Rightarrow> Ok None (noted s) env
    | Some f \<Rightarrow> Ok (Some f) (noted (set_file f (f_ref_update (\<lambda>_. 1)) s)) env)"
  using assms by (simp add: filealloc_def kmonad split: option.split)

lemma filedup_eval:
  assumes "cpu_ok s" "free_lock FtableLock s" "1 \<le> sint (f_ref (ftable s ! f))"
  shows "filedup f s env = Ok f (noted (set_file f (f_ref_update (\<lambda>r. r + 1)) s)) env"
  using assms by (simp add: filedup_def kmonad)

lemma fileclose_shared:
  assumes "cpu_ok s" "free_lock FtableLock s" "1 \<le> sint (f_ref (ftable s ! f))" "f < length (ftable s)"
    "0 < sint (f_ref (ftable s ! f) - 1)"
  shows "fileclose f s env = Ok () (noted (set_file f (f_ref_update (\<lambda>r. r - 1)) s)) env"
  using assms by (simp add: fileclose_def kmonad)

definition freed_file :: "filep \<Rightarrow> filep" where
  "freed_file f = f\<lparr>f_ref := 0, f_type := FD_NONE\<rparr>"

lemma fileclose_last:
  assumes "cpu_ok s" "free_lock FtableLock s" "f_ref (ftable s ! f) = 1" "f < length (ftable s)"
  shows "fileclose f s env = (case f_type (ftable s ! f) of
      FD_NONE \<Rightarrow> ret ()
    | FD_PIPE \<Rightarrow> pipeclose (f_pipe (ftable s ! f)) (f_writable (ftable s ! f) \<noteq> 0)
    | FD_INODE \<Rightarrow> block [begin_op, deref (f_ip (ftable s ! f)) iput, end_op]) (noted (set_file f freed_file s)) env"
proof -
  have e: "set_file f (f_type_update (\<lambda>_. FD_NONE)) (set_file f (f_ref_update (\<lambda>_. 0)) (set_file f (f_ref_update (\<lambda>r. r - 1)) s)) =
      set_file f freed_file s"
    using assms(4) by (simp add: set_file_def freed_file_def)
  show ?thesis using assms by (simp add: fileclose_def kmonad e split: ftype.split)
qed

definition closed_end :: "uint \<Rightarrow> bool \<Rightarrow> 'a pipe_state_scheme \<Rightarrow> 'a pipe_state_scheme" where
  "closed_end a w s =
     (set_pipe a (if w then pi_writeopen_update (\<lambda>_. 0) else pi_readopen_update (\<lambda>_. 0)) s)
       \<lparr>ptable := map (wake (if w then ChanPipeRead a else ChanPipeWrite a)) (ptable s)\<rparr>"

lemma closed_end_simps [simp]:
  "pipes (closed_end a w s) a = (if w then (pipes s a)\<lparr>pi_writeopen := 0\<rparr> else (pipes s a)\<lparr>pi_readopen := 0\<rparr>)"
  "kmem_ready (closed_end a w s) = kmem_ready s" "kend (closed_end a w s) = kend s" "kmem (closed_end a w s) = kmem s"
  "mem (closed_end a w s) = mem s"
  by (simp_all add: closed_end_def set_pipe_def kmem_ready_def)

lemma pipeclose_eval:
  assumes "cpu_ok s" "free_lock PtableLock s" "free_lock (PipeLock a) s"
  shows "pipeclose a w s env =
    (if pi_readopen (pipes (closed_end a w s) a) = 0 \<and> pi_writeopen (pipes (closed_end a w s) a) = 0
     then kfree a (noted (closed_end a w s)) env else Ok () (noted (closed_end a w s)) env)"
  using assms by (cases w) (auto simp: pipeclose_def kmonad closed_end_def)

section \<open>Properties\<close>

text \<open>
  C11.  The file table counts references.  \<open>filealloc\<close> hands out an entry nobody refers to, with one
  reference, and fails only when every entry is referred to.  \<open>filedup\<close> adds a reference that the
  next \<open>fileclose\<close> takes away without closing anything.  On an entry without references
  both panic.
\<close>

theorem file_refcounts:
  assumes "cpu_ok s" "free_lock FtableLock s"
  shows "(case filealloc s env of
      Ok (Some f) t e \<Rightarrow> e = env \<and> f < length (ftable s) \<and> f_ref (ftable s ! f) = 0 \<and>
        ftable t = (ftable s)[f := (ftable s ! f)\<lparr>f_ref := 1\<rparr>]
    | Ok None t e \<Rightarrow> e = env \<and> t = noted s \<and> (\<forall>f<length (ftable s). f_ref (ftable s ! f) \<noteq> 0)
    | _ \<Rightarrow> False) \<and>
    (\<forall>f<length (ftable s). 1 \<le> sint (f_ref (ftable s ! f)) \<and> sint (f_ref (ftable s ! f)) < 2147483647 \<longrightarrow>
      (\<exists>t u. filedup f s env = Ok f t env \<and> f_ref (ftable t ! f) = f_ref (ftable s ! f) + 1 \<and>
        fileclose f t env = Ok () u env \<and> u = noted s)) \<and>
    (\<forall>f. sint (f_ref (ftable s ! f)) < 1 \<longrightarrow>
      filedup f s env = Panic ''filedup'' \<and> fileclose f s env = Panic ''fileclose'')"
proof (intro conjI allI impI)
  show "case filealloc s env of
      Ok (Some f) t e \<Rightarrow> e = env \<and> f < length (ftable s) \<and> f_ref (ftable s ! f) = 0 \<and>
        ftable t = (ftable s)[f := (ftable s ! f)\<lparr>f_ref := 1\<rparr>]
    | Ok None t e \<Rightarrow> e = env \<and> t = noted s \<and> (\<forall>f<length (ftable s). f_ref (ftable s ! f) \<noteq> 0)
    | _ \<Rightarrow> False"
    using filealloc_eval [OF assms] first_index_Some [of "\<lambda>f. f_ref f = 0" "ftable s"]
      first_index_None [of "\<lambda>f. f_ref f = 0" "ftable s"] by (auto split: option.split)
next
  fix f assume f: "f < length (ftable s)" "1 \<le> sint (f_ref (ftable s ! f)) \<and> sint (f_ref (ftable s ! f)) < 2147483647"
  let ?t = "noted (set_file f (f_ref_update (\<lambda>r. r + 1)) s)"
  have r: "sint (f_ref (ftable s ! f) + 1) = sint (f_ref (ftable s ! f)) + 1" using f sint_succ by simp
  have "filedup f s env = Ok f ?t env" using filedup_eval [OF assms] f by simp
  moreover have "fileclose f ?t env = Ok () (noted (set_file f (f_ref_update (\<lambda>r. r - 1)) ?t)) env"
    using f assms r by (intro fileclose_shared) simp_all
  moreover have "set_file f (f_ref_update (\<lambda>r. r - 1)) (set_file f (f_ref_update (\<lambda>r. r + 1)) s) = s"
    using f(1) by (cases "ftable s ! f") (simp add: set_file_def list_update_same_conv)
  ultimately show "\<exists>t u. filedup f s env = Ok f t env \<and> f_ref (ftable t ! f) = f_ref (ftable s ! f) + 1 \<and>
      fileclose f t env = Ok () u env \<and> u = noted s"
    using f(1) assms(1) by simp
next
  fix f assume "sint (f_ref (ftable s ! f)) < 1"
  then show "filedup f s env = Panic ''filedup''" "fileclose f s env = Panic ''fileclose''"
    using assms by (simp_all add: filedup_def fileclose_def kmonad)
qed

text \<open>Witness: a pipe open at both ends in entries 0 and 1, the other entries free.\<close>

definition file_machine :: file_state where
  "file_machine = pipe_state.extend pipe_machine
     \<lparr>ftable = \<lparr>f_type = FD_PIPE, f_ref = 1, f_readable = 1, f_writable = 0, f_pipe = 0x80400000, f_ip = None, f_off = 0\<rparr> #
        \<lparr>f_type = FD_PIPE, f_ref = 2, f_readable = 0, f_writable = 1, f_pipe = 0x80400000, f_ip = None, f_off = 0\<rparr> #
        replicate 98 \<lparr>f_type = FD_NONE, f_ref = 0, f_readable = 0, f_writable = 0, f_pipe = 0, f_ip = None, f_off = 0\<rparr>\<rparr>"

lemmas file_machine_defs = file_machine_def pipe_state.defs pipe_machine_defs

lemma file_machine_ctx: "cpu_ok file_machine" "free_lock l file_machine" "kmem_ready file_machine" "proc_ctx 1 file_machine"
  by (auto simp: cpu_ok_def cur_def curproc_def free_lock_def kmem_ready_def proc_ctx_def file_machine_defs
      init_proc_def shell_proc_def blank_proc_def simp del: upt_Suc)

lemma file_machine_table:
  "length (ftable file_machine) = 100" "f_ref (ftable file_machine ! 0) = 1" "f_ref (ftable file_machine ! 1) = 2"
  "f_ref (ftable file_machine ! 2) = 0" "f_type (ftable file_machine ! 0) = FD_PIPE"
  "f_pipe (ftable file_machine ! 0) = 0x80400000" "f_writable (ftable file_machine ! 0) = 0"
  "pi_writeopen (pipes file_machine a) = 1"
  by (simp_all add: file_machine_def pipe_state.defs pipe_machine_def fs_state.defs)

theorem file_refcounts_witness:
  "(\<exists>t u. filedup 1 file_machine [] = Ok 1 t [] \<and> fileclose 1 t [] = Ok () u []) \<and>
   filedup 2 file_machine [] = Panic ''filedup''"
  using file_refcounts [THEN conjunct2, THEN conjunct1, rule_format, OF file_machine_ctx(1) file_machine_ctx(2), of 1 "[]"]
    file_refcounts [THEN conjunct2, THEN conjunct2, rule_format, OF file_machine_ctx(1) file_machine_ctx(2), of 2 "[]"]
  by (auto simp: file_machine_table file_machine_table [unfolded One_nat_def])

text \<open>
  C32.  Closing the last reference to an end of a pipe closes that end, and wakes the processes waiting
  at the other end.  The page of the pipe goes back to the allocator exactly when the other end is closed
  already; before that it is not touched.
\<close>

theorem fileclose_pipe:
  assumes "cpu_ok s" "\<forall>l. free_lock l s" "kmem_ready s" "f < length (ftable s)" "f_ref (ftable s ! f) = 1"
    and "f_type (ftable s ! f) = FD_PIPE" "f_pipe (ftable s ! f) = a" "page_ok (kend s) a"
  shows "\<exists>t. fileclose f s env = Ok () t env \<and> f_ref (ftable t ! f) = 0 \<and>
    (if f_writable (ftable s ! f) \<noteq> 0
     then pi_writeopen (pipes t a) = 0 \<and> pi_readopen (pipes t a) = pi_readopen (pipes s a) \<and>
       ptable t = map (wake (ChanPipeRead a)) (ptable s)
     else pi_readopen (pipes t a) = 0 \<and> pi_writeopen (pipes t a) = pi_writeopen (pipes s a) \<and>
       ptable t = map (wake (ChanPipeWrite a)) (ptable s)) \<and>
    (if pi_readopen (pipes t a) = 0 \<and> pi_writeopen (pipes t a) = 0
     then freelist (kmem t) = a \<and> load32 (mem t) a = freelist (kmem s)
     else kmem t = kmem s \<and> mem t = mem s)"
proof -
  let ?w = "f_writable (ftable s ! f) \<noteq> 0"
  let ?s = "noted (set_file f freed_file s)"
  let ?e = "noted (closed_end a ?w ?s)"
  have run: "fileclose f s env = pipeclose a ?w ?s env" using assms by (simp add: fileclose_last)
  have ready: "kmem_ready ?e" and kend: "kend ?e = kend s"
    using assms(1,3) by (simp_all add: kmem_ready_def closed_end_def set_file_def set_pipe_def)
  have "pipeclose a ?w ?s env = (if pi_readopen (pipes ?e a) = 0 \<and> pi_writeopen (pipes ?e a) = 0
      then Ok () (kfreed a ?e) env else Ok () ?e env)"
    using pipeclose_eval [of ?s a ?w env] assms(1,2,8) kfree_eval [OF ready] kend by simp
  then show ?thesis using assms(4) run
    by (auto simp: kfreed_def settled_def set_file_def freed_file_def closed_end_def set_pipe_def)
qed

lemma file_machine_page: "page_ok (kend file_machine) 0x80400000"
  by (simp add: page_ok_def V2P_def file_machine_defs del: upt_Suc)

theorem fileclose_pipe_witness:
  "\<exists>t. fileclose 0 file_machine [] = Ok () t [] \<and> pi_readopen (pipes t 0x80400000) = 0 \<and>
     pi_writeopen (pipes t 0x80400000) = 1 \<and> mem t = mem file_machine"
  using fileclose_pipe [of file_machine 0 "0x80400000" "[]"] file_machine_ctx file_machine_page
  by (auto simp: file_machine_table)

end
