(* ===== verification/Umem.thy ===== *)
theory Umem
  imports Vm
begin

text \<open>
  User memory as the kernel sees it.  While the kernel runs for a process the hardware
  translates addresses below \<open>KERNBASE\<close> with the page directory in \<open>cr3\<close>; an access to
  an address that is not mapped, or a store to a page without \<open>PTE_W\<close> (\<open>entry.S\<close> turns
  \<open>CR0_WP\<close> on), is a page fault in kernel mode, which \<open>trap\<close> answers with
  \<open>panic("trap")\<close>.  Kernel addresses are mapped one to one.
\<close>

unbundle bit_operations_syntax

definition translate :: "bool \<Rightarrow> 'a vm_state_scheme \<Rightarrow> uint \<Rightarrow> uint option" where
  "translate wr s va =
     (if KERNBASE \<le> va then Some va else
      case lookup (mem s) (P2V (cr3 s)) va of
        None \<Rightarrow> None
      | Some e \<Rightarrow> if wr \<and> e AND PTE_W = 0 then None else Some (table_of e + va AND 0xFFF))"

definition uload8 :: "uint \<Rightarrow> ('a vm_state_scheme, byte) K" where
  "uload8 va = bindK (gets (\<lambda>s. translate False s va)) (\<lambda>a. deref a (\<lambda>a. gets (\<lambda>s. mem s a)))"

definition ustore8 :: "uint \<Rightarrow> byte \<Rightarrow> ('a vm_state_scheme, unit) K" where
  "ustore8 va c = bindK (gets (\<lambda>s. translate True s va)) (\<lambda>a. deref a (\<lambda>a. modify (\<lambda>s. s\<lparr>mem := (mem s)(a := c)\<rparr>)))"

fun uload :: "uint \<Rightarrow> nat \<Rightarrow> ('a vm_state_scheme, byte list) K" where
  "uload va 0 = ret []"
| "uload va (Suc n) = bindK (uload8 va) (\<lambda>c. bindK (uload (va + 1) n) (\<lambda>cs. ret (c # cs)))"

fun ustore :: "uint \<Rightarrow> byte list \<Rightarrow> ('a vm_state_scheme, unit) K" where
  "ustore va [] = ret ()"
| "ustore va (c # cs) = thenK (ustore8 va c) (ustore (va + 1) cs)"

text \<open>A 32-bit value in little-endian order.\<close>

definition of_bytes32 :: "byte list \<Rightarrow> uint" where
  "of_bytes32 bs = ucast (bs ! 0) OR push_bit 8 (ucast (bs ! 1)) OR push_bit 16 (ucast (bs ! 2)) OR push_bit 24 (ucast (bs ! 3))"

definition bytes32 :: "uint \<Rightarrow> byte list" where
  "bytes32 w = [ucast w, ucast (drop_bit 8 w), ucast (drop_bit 16 w), ucast (drop_bit 24 w)]"

definition uload32 :: "uint \<Rightarrow> ('a vm_state_scheme, uint) K" where
  "uload32 va = bindK (uload va 4) (\<lambda>bs. ret (of_bytes32 bs))"

definition ustore32 :: "uint \<Rightarrow> uint \<Rightarrow> ('a vm_state_scheme, unit) K" where
  "ustore32 va w = ustore va (bytes32 w)"

end
