(* ===== verification/Life.thy ===== *)
theory Life
  imports File Umem Sched
begin

text \<open>
  The life of a process, from \<open>proc.c\<close>: \<open>userinit\<close>, \<open>growproc\<close>, \<open>fork\<close>, \<open>exit\<close>, \<open>wait\<close>,
  \<open>wait2\<close>, \<open>forkret\<close>, and the threads of \<open>clone\<close> and \<open>join\<close>.  A \<open>struct trapframe\<close> lies in
  memory at \<open>p_tf\<close>; its 76 bytes have \<open>ebp\<close> at 8, \<open>eax\<close> at 28, \<open>es\<close> at 40, \<open>ds\<close> at 44,
  \<open>trapno\<close> at 48, \<open>eip\<close> at 56, \<open>cs\<close> at 60, \<open>eflags\<close> at 64, \<open>esp\<close> at 68 and \<open>ss\<close> at 72.
\<close>

unbundle bit_operations_syntax

section \<open>State\<close>

record life_state = file_state +
  forkret_first :: cint \<comment> \<open>the static \<open>first\<close> of \<open>forkret\<close>\<close>

definition store16 :: "memory \<Rightarrow> uint \<Rightarrow> 16 word \<Rightarrow> memory" where
  "store16 m a w = m(a := ucast w, a + 1 := ucast (drop_bit 8 w))"

definition set_tf :: "nat \<Rightarrow> uint \<Rightarrow> uint \<Rightarrow> 'a proc_state_scheme \<Rightarrow> 'a proc_state_scheme" where
  "set_tf p off w s = s\<lparr>mem := store32 (mem s) (p_tf (ptable s ! p) + off) w\<rparr>"

definition set_tf16 :: "nat \<Rightarrow> uint \<Rightarrow> 16 word \<Rightarrow> 'a proc_state_scheme \<Rightarrow> 'a proc_state_scheme" where
  "set_tf16 p off w s = s\<lparr>mem := store16 (mem s) (p_tf (ptable s ! p) + off) w\<rparr>"

section \<open>The first process\<close>

text \<open>\<open>initcode\<close> and its size are the linker symbols \<open>_binary_initcode_start\<close>, \<open>_binary_initcode_size\<close>.\<close>

definition userinit :: "('a file_state_scheme) devsw \<Rightarrow> uint \<Rightarrow> uint \<Rightarrow> ('a file_state_scheme, unit) K" where
  "userinit dv initcode initsize =
     bindK allocproc (\<lambda>np.
     thenK (modify (\<lambda>s. s\<lparr>initproc := np\<rparr>)) (
     deref np (\<lambda>p.
     bindK setupkvm (\<lambda>d.
     thenK (modify (set_proc p (\<lambda>x. x\<lparr>p_pgdir := d\<rparr>))) (
     if d = 0 then panic ''userinit: out of memory?'' else block
       [inituvm d initcode initsize,
        modify (set_proc p (\<lambda>x. x\<lparr>p_sz := PGSIZE\<rparr>)),
        modify (\<lambda>s. s\<lparr>mem := memset (mem s) (p_tf (ptable s ! p)) 0 76\<rparr>),
        modify (set_tf16 p 60 (push_bit 3 3 OR 3)),
        modify (set_tf16 p 44 (push_bit 3 4 OR 3)),
        modify (set_tf16 p 40 (push_bit 3 4 OR 3)),
        modify (set_tf16 p 72 (push_bit 3 4 OR 3)),
        modify (set_tf p 64 0x200),
        modify (set_tf p 68 PGSIZE),
        modify (set_tf p 56 0),
        modify (set_proc p (\<lambda>x. x\<lparr>p_name := safestrcpy (p_name x) (view (lit ''initcode'')) 16\<rparr>)),
        bindK (namei dv (lit ''/'')) (\<lambda>ip. modify (set_proc p (\<lambda>x. x\<lparr>p_cwd := ip\<rparr>))),
        acquire PtableLock,
        modify (set_proc p (\<lambda>x. x\<lparr>p_state := RUNNABLE\<rparr>)),
        release PtableLock])))))"

definition growproc :: "cint \<Rightarrow> ('a vm_state_scheme, cint) K" where
  "growproc n =
     bindK myproc (\<lambda>p. deref p (\<lambda>p.
     bindK (gets (\<lambda>s. (p_sz (ptable s ! p), p_pgdir (ptable s ! p)))) (\<lambda>(sz, d).
     bindK (if 0 < sint n then bindK (allocuvm d sz (sz + n)) (\<lambda>sz. ret (sz, sz = 0))
            else if sint n < 0 then bindK (deallocuvm d sz (sz + n)) (\<lambda>sz. ret (sz, sz = 0))
            else ret (sz, False)) (\<lambda>(sz, failed).
       if failed then ret (-1) else
       thenK (block
         [modify (set_proc p (\<lambda>x. x\<lparr>p_sz := sz\<rparr>)),
          switchuvm (Some p)]) (ret 0)))))"

section \<open>Creating processes\<close>

text \<open>The part \<open>fork\<close> and \<open>clone\<close> have in common: open files, directory, name, and the start.\<close>

definition inherit :: "nat \<Rightarrow> nat \<Rightarrow> ('a file_state_scheme, cint) K" where
  "inherit me np =
     thenK (block
       [forK [0..<NOFILE] (\<lambda>i.
          bindK (gets (\<lambda>s. p_ofile (ptable s ! me) ! i)) (\<lambda>f. case f of
            None \<Rightarrow> ret ()
          | Some f \<Rightarrow> bindK (filedup f) (\<lambda>f. modify (set_proc np (\<lambda>x. x\<lparr>p_ofile := (p_ofile x)[i := Some f]\<rparr>))))),
        bindK (gets (\<lambda>s. p_cwd (ptable s ! me))) (\<lambda>d. deref d (\<lambda>d.
          bindK (idup d) (\<lambda>d. modify (set_proc np (\<lambda>x. x\<lparr>p_cwd := Some d\<rparr>))))),
        modify (\<lambda>s. set_proc np (\<lambda>x. x\<lparr>p_name := safestrcpy (p_name x) (view (p_name (ptable s ! me))) 16\<rparr>) s)]) (
     bindK (gets (\<lambda>s. p_pid (ptable s ! np))) (\<lambda>pid.
     thenK (block
       [acquire PtableLock,
        modify (set_proc np (\<lambda>x. x\<lparr>p_state := RUNNABLE\<rparr>)),
        release PtableLock]) (ret pid)))"

definition copy_tf :: "nat \<Rightarrow> nat \<Rightarrow> 'a proc_state_scheme \<Rightarrow> 'a proc_state_scheme" where
  "copy_tf me np s = s\<lparr>mem := memmove (mem s) (p_tf (ptable s ! np)) (p_tf (ptable s ! me)) 76\<rparr>"

definition fork :: "('a file_state_scheme, cint) K" where
  "fork =
     bindK myproc (\<lambda>me.
     bindK allocproc (\<lambda>np. case np of None \<Rightarrow> ret (-1) | Some np \<Rightarrow> deref me (\<lambda>me.
     bindK (gets (\<lambda>s. (p_pgdir (ptable s ! me), p_sz (ptable s ! me)))) (\<lambda>(d, sz).
     bindK (copyuvm d sz) (\<lambda>d.
     thenK (modify (set_proc np (\<lambda>x. x\<lparr>p_pgdir := d\<rparr>))) (
     if d = 0 then
       thenK (block
         [bindK (gets (\<lambda>s. p_kstack (ptable s ! np))) kfree,
          modify (set_proc np (\<lambda>x. x\<lparr>p_kstack := 0\<rparr>)),
          modify (set_proc np (\<lambda>x. x\<lparr>p_state := UNUSED\<rparr>))]) (ret (-1))
     else
       thenK (block
         [modify (\<lambda>s. set_proc np (\<lambda>x. x\<lparr>p_sz := p_sz (ptable s ! me)\<rparr>) s),
          modify (set_proc np (\<lambda>x. x\<lparr>p_parent := Some me\<rparr>)),
          modify (copy_tf me np),
          modify (set_tf np 28 0)]) (inherit me np)))))))"

definition clone :: "uint \<Rightarrow> uint \<Rightarrow> uint \<Rightarrow> ('a file_state_scheme, cint) K" where
  "clone func arg stack =
     bindK myproc (\<lambda>me.
     bindK allocproc (\<lambda>np. case np of None \<Rightarrow> ret (-1) | Some np \<Rightarrow> deref me (\<lambda>me.
     thenK (block
       [modify (\<lambda>s. set_proc np (\<lambda>x. x\<lparr>p_pgdir := p_pgdir (ptable s ! me)\<rparr>) s),
        modify (\<lambda>s. set_proc np (\<lambda>x. x\<lparr>p_sz := p_sz (ptable s ! me)\<rparr>) s),
        modify (set_proc np (\<lambda>x. x\<lparr>p_parent := Some me\<rparr>)),
        modify (copy_tf me np),
        modify (set_proc np (\<lambda>x. x\<lparr>p_stack := stack\<rparr>)),
        modify (set_tf np 28 0),
        modify (set_tf np 56 func),
        ustore32 (stack + 4096 - 8) 0xFFFFFFFF,
        ustore32 (stack + 4096 - 4) arg,
        modify (set_tf np 68 (stack + PGSIZE - 8)),
        modify (\<lambda>s. set_tf np 8 (load32 (mem s) (p_tf (ptable s ! np) + 68)) s),
        modify (set_proc np (\<lambda>x. x\<lparr>p_isthread := 1\<rparr>))]) (inherit me np))))"

section \<open>Ending processes\<close>

text \<open>A null pointer is no sleep channel: nobody sleeps on it.\<close>

definition wakeup1_proc :: "nat option \<Rightarrow> ('a proc_state_scheme, unit) K" where
  "wakeup1_proc p = (case p of None \<Rightarrow> ret () | Some p \<Rightarrow> wakeup1 (ChanProc p))"

definition close_files :: "nat \<Rightarrow> ('a file_state_scheme, unit) K" where
  "close_files me = forK [0..<NOFILE] (\<lambda>fd.
     bindK (gets (\<lambda>s. p_ofile (ptable s ! me) ! fd)) (\<lambda>f. case f of
       None \<Rightarrow> ret ()
     | Some f \<Rightarrow> block [fileclose f, modify (set_proc me (\<lambda>x. x\<lparr>p_ofile := (p_ofile x)[fd := None]\<rparr>))]))"

definition reparent :: "nat \<Rightarrow> ('a proc_state_scheme, unit) K" where
  "reparent me = forK [0..<NPROC] (\<lambda>q.
     bindK (gets (\<lambda>s. p_parent (ptable s ! q) = Some me)) (\<lambda>child. whenK child (
       bindK (gets initproc) (\<lambda>init.
       thenK (modify (set_proc q (\<lambda>x. x\<lparr>p_parent := init\<rparr>))) (
       bindK (gets (\<lambda>s. p_state (ptable s ! q))) (\<lambda>st.
       whenK (st = ZOMBIE) (wakeup1_proc init)))))))"

definition exit_proc :: "('a file_state_scheme, unit) K" where
  "exit_proc =
     bindK myproc (\<lambda>me.
     bindK (gets initproc) (\<lambda>init.
     if me = init then panic ''init exiting'' else
     deref me (\<lambda>me. block
       [close_files me,
        begin_op,
        bindK (gets (\<lambda>s. p_cwd (ptable s ! me))) (\<lambda>d. deref d iput),
        end_op,
        modify (set_proc me (\<lambda>x. x\<lparr>p_cwd := None\<rparr>)),
        acquire PtableLock,
        bindK (gets (\<lambda>s. p_parent (ptable s ! me))) wakeup1_proc,
        reparent me,
        modify (set_proc me (\<lambda>x. x\<lparr>p_state := ZOMBIE\<rparr>)),
        sched,
        panic ''zombie exit''])))"

section \<open>Waiting for children\<close>

text \<open>
  One scan of the table by \<open>wait\<close>, \<open>wait2\<close> and \<open>join\<close>: the first zombie among the caller's
  children that satisfy \<open>sel\<close> is reaped; with none left to wait for, or killed, -1; else sleep.
\<close>

definition wait_scan :: "(proc \<Rightarrow> bool) \<Rightarrow> (nat \<Rightarrow> ('a proc_state_scheme, cint) K) \<Rightarrow> nat option \<Rightarrow>
    ('a proc_state_scheme, cint option) K" where
  "wait_scan sel reap me =
     bindK (gets (\<lambda>s. first_index (\<lambda>p. p_parent p = me \<and> sel p \<and> p_state p = ZOMBIE) (ptable s))) (\<lambda>z.
     case z of
       Some p \<Rightarrow> bindK (reap p) (\<lambda>pid. thenK (release PtableLock) (ret (Some pid)))
     | None \<Rightarrow>
         bindK (gets (\<lambda>s. \<exists>p\<in>set (ptable s). p_parent p = me \<and> sel p)) (\<lambda>havekids.
         bindK (if \<not> havekids then ret True else deref me (\<lambda>c. gets (\<lambda>s. p_killed (ptable s ! c) \<noteq> 0))) (\<lambda>stop.
           if stop then thenK (release PtableLock) (ret (Some (-1)))
           else deref me (\<lambda>c. thenK (sleep (ChanProc c) (Some PtableLock)) (ret None)))))"

definition wait_reap :: "nat \<Rightarrow> ('a proc_state_scheme, cint) K" where
  "wait_reap p =
     bindK (gets (\<lambda>s. ptable s ! p)) (\<lambda>z.
     thenK (block
       [kfree (p_kstack z),
        modify (set_proc p (\<lambda>x. x\<lparr>p_kstack := 0\<rparr>)),
        freevm (p_pgdir z),
        modify (set_proc p (\<lambda>x. x\<lparr>p_pid := 0, p_parent := None, p_name := (p_name x)[0 := 0], p_killed := 0,
          p_state := UNUSED\<rparr>))]) (ret (p_pid z)))"

definition wait :: "('a proc_state_scheme, cint) K" where
  "wait = bindK myproc (\<lambda>me. thenK (acquire PtableLock) (loopK (wait_scan (\<lambda>_. True) wait_reap me)))"

text \<open>\<open>retime\<close>, \<open>rutime\<close> and \<open>stime\<close> are user addresses.\<close>

definition wait2_reap :: "uint \<Rightarrow> uint \<Rightarrow> uint \<Rightarrow> nat \<Rightarrow> ('a vm_state_scheme, cint) K" where
  "wait2_reap retime rutime stime p =
     bindK (gets (\<lambda>s. ptable s ! p)) (\<lambda>z.
     thenK (block
       [ustore32 retime (p_retime z),
        ustore32 rutime (p_rutime z),
        ustore32 stime (p_stime z),
        kfree (p_kstack z),
        modify (set_proc p (\<lambda>x. x\<lparr>p_kstack := 0\<rparr>)),
        freevm (p_pgdir z),
        modify (set_proc p (\<lambda>x. x\<lparr>p_state := UNUSED, p_pid := 0, p_parent := None, p_name := (p_name x)[0 := 0],
          p_killed := 0, p_ctime := 0, p_retime := 0, p_rutime := 0, p_stime := 0, p_priority := 0\<rparr>))])
     (ret (p_pid z)))"

definition wait2 :: "uint \<Rightarrow> uint \<Rightarrow> uint \<Rightarrow> ('a vm_state_scheme, cint) K" where
  "wait2 retime rutime stime = thenK (acquire PtableLock) (
     loopK (bindK myproc (wait_scan (\<lambda>_. True) (wait2_reap retime rutime stime))))"

definition join_reap :: "uint \<Rightarrow> nat \<Rightarrow> ('a vm_state_scheme, cint) K" where
  "join_reap stack p =
     bindK (gets (\<lambda>s. ptable s ! p)) (\<lambda>z.
     thenK (block
       [kfree (p_kstack z),
        modify (set_proc p (\<lambda>x. x\<lparr>p_kstack := 0, p_state := UNUSED, p_pid := 0, p_parent := None,
          p_name := (p_name x)[0 := 0], p_killed := 0\<rparr>)),
        ustore32 stack (p_stack z)]) (ret (p_pid z)))"

definition join :: "uint \<Rightarrow> ('a vm_state_scheme, cint) K" where
  "join stack = bindK myproc (\<lambda>me. thenK (acquire PtableLock) (
     loopK (wait_scan (\<lambda>p. p_isthread p = 1) (join_reap stack) me)))"

section \<open>The first return to user space\<close>

definition forkret :: "('a life_state_scheme, unit) K" where
  "forkret =
     thenK (release PtableLock) (
     bindK (gets forkret_first) (\<lambda>first. whenK (first \<noteq> 0) (block
       [modify (\<lambda>s. s\<lparr>forkret_first := 0\<rparr>),
        iinit ROOTDEV,
        initlog ROOTDEV])))"

end
