(* ===== verification/Exec.thy ===== *)
theory Exec
  imports Life
begin

text \<open>
  Program loading: \<open>exec.c\<close>, \<open>elf.h\<close> and \<open>loaduvm\<close> of \<open>vm.c\<close>.  The path and the argument
  strings are lists of bytes without the NUL.  The message \<open>exec\<close> prints when the file is
  missing is left out.
\<close>

unbundle bit_operations_syntax

section \<open>ELF headers\<close>

definition ELF_MAGIC :: uint where "ELF_MAGIC = 0x464C457F"
definition ELF_PROG_LOAD :: uint where "ELF_PROG_LOAD = 1"
definition MAXARG :: nat where "MAXARG = 32"

record elfhdr =
  e_magic :: uint
  e_entry :: uint
  e_phoff :: uint
  e_phnum :: "16 word"

record proghdr =
  ph_type :: uint
  ph_off :: uint
  ph_vaddr :: uint
  ph_filesz :: uint
  ph_memsz :: uint

definition elfhdr_of :: "byte list \<Rightarrow> elfhdr" where
  "elfhdr_of b = \<lparr>e_magic = get32 b 0, e_entry = get32 b 24, e_phoff = get32 b 28, e_phnum = get16 b 44\<rparr>"

definition proghdr_of :: "byte list \<Rightarrow> proghdr" where
  "proghdr_of b = \<lparr>ph_type = get32 b 0, ph_off = get32 b 4, ph_vaddr = get32 b 8, ph_filesz = get32 b 16, ph_memsz = get32 b 20\<rparr>"

section \<open>Loading segments\<close>

function loaduvm_loop :: "('a file_state_scheme) devsw \<Rightarrow> uint \<Rightarrow> uint \<Rightarrow> nat \<Rightarrow> uint \<Rightarrow> uint \<Rightarrow> nat \<Rightarrow>
    ('a file_state_scheme, cint) K" where
  "loaduvm_loop dv pgdir addr ip offset sz i =
     (if i < unat sz then
        bindK (walkpgdir pgdir (addr + of_nat i) False) (\<lambda>pte.
        if pte = 0 then panic ''loaduvm: address should exist'' else
        bindK (gets (\<lambda>s. PTE_ADDR (load32 (mem s) pte))) (\<lambda>pa.
        bindK (ret (if sz - of_nat i < PGSIZE then sz - of_nat i else PGSIZE)) (\<lambda>n.
        bindK (readi dv ip (offset + of_nat i) n) (\<lambda>(r, bytes).
        thenK (modify (\<lambda>s. s\<lparr>mem := store_bytes (mem s) (P2V pa) bytes\<rparr>)) (
        if r \<noteq> n then ret (-1) else loaduvm_loop dv pgdir addr ip offset sz (i + 4096))))))
      else ret 0)"
  by pat_completeness auto

termination loaduvm_loop
  by (relation "measure (\<lambda>(dv, pgdir, addr, ip, offset, sz, i). unat sz - i)") auto

declare loaduvm_loop.simps [simp del]

definition loaduvm :: "('a file_state_scheme) devsw \<Rightarrow> uint \<Rightarrow> uint \<Rightarrow> nat \<Rightarrow> uint \<Rightarrow> uint \<Rightarrow>
    ('a file_state_scheme, cint) K" where
  "loaduvm dv pgdir addr ip offset sz =
     (if addr mod PGSIZE \<noteq> 0 then panic ''loaduvm: addr must be page aligned''
      else loaduvm_loop dv pgdir addr ip offset sz 0)"

text \<open>The loop over the program headers: the size reached, or \<open>None\<close> for \<open>goto bad\<close>.\<close>

fun exec_load :: "('a file_state_scheme) devsw \<Rightarrow> nat \<Rightarrow> uint \<Rightarrow> nat \<Rightarrow> uint \<Rightarrow> uint \<Rightarrow>
    ('a file_state_scheme, uint option) K" where
  "exec_load dv ip pgdir 0 off sz = ret (Some sz)"
| "exec_load dv ip pgdir (Suc n) off sz =
     bindK (readi dv ip off 32) (\<lambda>(r, bytes).
     if r \<noteq> 32 then ret None else
     let ph = proghdr_of bytes in
     if ph_type ph \<noteq> ELF_PROG_LOAD then exec_load dv ip pgdir n (off + 32) sz
     else if ph_memsz ph < ph_filesz ph then ret None
     else if ph_vaddr ph + ph_memsz ph < ph_vaddr ph then ret None
     else bindK (allocuvm pgdir sz (ph_vaddr ph + ph_memsz ph)) (\<lambda>sz.
       if sz = 0 then ret None
       else if ph_vaddr ph mod PGSIZE \<noteq> 0 then ret None
       else bindK (loaduvm dv pgdir (ph_vaddr ph) ip (ph_off ph) (ph_filesz ph)) (\<lambda>r.
         if sint r < 0 then ret None else exec_load dv ip pgdir n (off + 32) sz)))"

section \<open>The user stack\<close>

text \<open>The argument strings pushed, with their addresses.\<close>

fun push_args :: "uint \<Rightarrow> byte list list \<Rightarrow> nat \<Rightarrow> uint \<Rightarrow> uint list \<Rightarrow> ('a kmem_state_scheme, (uint \<times> uint list) option) K" where
  "push_args pgdir [] argc sp addrs = ret (Some (sp, addrs))"
| "push_args pgdir (arg # args) argc sp addrs =
     (if MAXARG \<le> argc then ret None else
      let sp = (sp - (of_nat (length arg) + 1)) AND NOT 3 in
      bindK (copyout pgdir sp (arg @ [0])) (\<lambda>r.
        if sint r < 0 then ret None else push_args pgdir args (argc + 1) sp (addrs @ [sp])))"

definition ustack :: "uint \<Rightarrow> uint list \<Rightarrow> byte list" where
  "ustack sp addrs = concat (map bytes32
     ([0xFFFFFFFF, of_nat (length addrs), sp - (of_nat (length addrs) + 1) * 4] @ addrs @ [0]))"

definition exec_stack :: "uint \<Rightarrow> uint \<Rightarrow> byte list list \<Rightarrow> ('a kmem_state_scheme, uint option) K" where
  "exec_stack pgdir sz argv =
     bindK (push_args pgdir argv 0 sz []) (\<lambda>pushed. case pushed of
       None \<Rightarrow> ret None
     | Some (sp, addrs) \<Rightarrow>
         let top = sp - (3 + of_nat (length addrs) + 1) * 4 in
         bindK (copyout pgdir top (ustack sp addrs)) (\<lambda>r.
           if sint r < 0 then ret None else ret (Some top)))"

text \<open>The part of the path after its last slash.\<close>

fun last_elem :: "byte list \<Rightarrow> byte list \<Rightarrow> byte list" where
  "last_elem [] l = l"
| "last_elem (c # s) l = last_elem s (if c = slash then s else l)"

section \<open>exec\<close>

definition exec_bad :: "uint \<Rightarrow> nat option \<Rightarrow> ('a file_state_scheme, cint) K" where
  "exec_bad pgdir ip = thenK (block
     [whenK (pgdir \<noteq> 0) (freevm pgdir),
      case ip of None \<Rightarrow> ret () | Some ip \<Rightarrow> block [iunlockput ip, end_op]]) (ret (-1))"

definition exec_commit :: "nat \<Rightarrow> byte list \<Rightarrow> uint \<Rightarrow> uint \<Rightarrow> uint \<Rightarrow> uint \<Rightarrow> ('a file_state_scheme, cint) K" where
  "exec_commit p path pgdir sz entry sp =
     thenK (modify (set_proc p (\<lambda>x. x\<lparr>p_name := safestrcpy (p_name x) (view (last_elem path path)) 16\<rparr>))) (
     bindK (gets (\<lambda>s. p_pgdir (ptable s ! p))) (\<lambda>old.
     thenK (block
       [modify (set_proc p (\<lambda>x. x\<lparr>p_pgdir := pgdir\<rparr>)),
        modify (set_proc p (\<lambda>x. x\<lparr>p_sz := sz\<rparr>)),
        modify (set_tf p 56 entry),
        modify (set_tf p 68 sp),
        switchuvm (Some p),
        freevm old]) (ret 0)))"

definition exec :: "('a file_state_scheme) devsw \<Rightarrow> byte list \<Rightarrow> byte list list \<Rightarrow> ('a file_state_scheme, cint) K" where
  "exec dv path argv =
     bindK myproc (\<lambda>cur.
     thenK begin_op (
     bindK (namei dv path) (\<lambda>found. case found of None \<Rightarrow> thenK end_op (ret (-1)) | Some ip \<Rightarrow>
     thenK (ilock (Some ip)) (
     bindK (readi dv ip 0 52) (\<lambda>(r, hdr).
     if r \<noteq> 52 \<or> e_magic (elfhdr_of hdr) \<noteq> ELF_MAGIC then exec_bad 0 (Some ip) else
     bindK setupkvm (\<lambda>pgdir. if pgdir = 0 then exec_bad 0 (Some ip) else
     bindK (exec_load dv ip pgdir (unat (e_phnum (elfhdr_of hdr))) (e_phoff (elfhdr_of hdr)) 0) (\<lambda>loaded.
     case loaded of None \<Rightarrow> exec_bad pgdir (Some ip) | Some sz \<Rightarrow>
     thenK (block [iunlockput ip, end_op]) (
     bindK (allocuvm pgdir (PGROUNDUP sz) (PGROUNDUP sz + 2 * PGSIZE)) (\<lambda>sz.
     if sz = 0 then exec_bad pgdir None else
     thenK (clearpteu pgdir (sz - 2 * PGSIZE)) (
     bindK (exec_stack pgdir sz argv) (\<lambda>sp. case sp of None \<Rightarrow> exec_bad pgdir None | Some sp \<Rightarrow>
     deref cur (\<lambda>p. exec_commit p path pgdir sz (e_entry (elfhdr_of hdr)) sp))))))))))))"

end
