(* ===== verification/Sysargs.thy ===== *)
theory Sysargs
  imports Exec
begin

text \<open>
  System call arguments, the first half of \<open>syscall.c\<close>.  A routine that returns -1 for an
  argument outside the process gives \<open>None\<close>; one that sets a pointer to a string gives the
  bytes of the string before its NUL.
\<close>

definition or_fail :: "('s, 'a option) K \<Rightarrow> ('a \<Rightarrow> ('s, cint) K) \<Rightarrow> ('s, cint) K" where
  "or_fail m f = bindK m (\<lambda>r. case r of None \<Rightarrow> ret (-1) | Some x \<Rightarrow> f x)"

definition with_proc :: "(nat \<Rightarrow> ('a kctx_scheme, 'b) K) \<Rightarrow> ('a kctx_scheme, 'b) K" where
  "with_proc f = bindK myproc (\<lambda>p. deref p f)"

definition fetchint :: "uint \<Rightarrow> ('a vm_state_scheme, cint option) K" where
  "fetchint addr = with_proc (\<lambda>p.
     bindK (gets (\<lambda>s. p_sz (ptable s ! p))) (\<lambda>sz.
       if sz \<le> addr \<or> sz < addr + 4 then ret None
       else bindK (uload32 addr) (\<lambda>v. ret (Some v))))"

text \<open>The scan for the NUL: \<open>n\<close> bytes are left before the end of the process.\<close>

fun fetchstr_loop :: "uint \<Rightarrow> nat \<Rightarrow> ('a vm_state_scheme, byte list option) K" where
  "fetchstr_loop va 0 = ret None"
| "fetchstr_loop va (Suc n) =
     bindK (uload8 va) (\<lambda>c.
       if c = 0 then ret (Some [])
       else bindK (fetchstr_loop (va + 1) n) (\<lambda>cs. ret (map_option (Cons c) cs)))"

definition fetchstr :: "uint \<Rightarrow> ('a vm_state_scheme, byte list option) K" where
  "fetchstr addr = with_proc (\<lambda>p.
     bindK (gets (\<lambda>s. p_sz (ptable s ! p))) (\<lambda>sz.
       if sz \<le> addr then ret None else fetchstr_loop addr (unat sz - unat addr)))"

definition argint :: "nat \<Rightarrow> ('a vm_state_scheme, cint option) K" where
  "argint n = with_proc (\<lambda>p.
     bindK (gets (\<lambda>s. load32 (mem s) (p_tf (ptable s ! p) + 68))) (\<lambda>esp.
     fetchint (esp + 4 + 4 * of_nat n)))"

definition argptr :: "nat \<Rightarrow> cint \<Rightarrow> ('a vm_state_scheme, uint option) K" where
  "argptr n len = with_proc (\<lambda>p.
     bindK (argint n) (\<lambda>i. case i of None \<Rightarrow> ret None | Some i \<Rightarrow>
     bindK (gets (\<lambda>s. p_sz (ptable s ! p))) (\<lambda>sz.
       ret (if sint len < 0 \<or> sz \<le> i \<or> sz < i + len then None else Some i))))"

definition argstr :: "nat \<Rightarrow> ('a vm_state_scheme, byte list option) K" where
  "argstr n = bindK (argint n) (\<lambda>addr. case addr of None \<Rightarrow> ret None | Some addr \<Rightarrow> fetchstr addr)"

section \<open>User memory\<close>

text \<open>The byte at a user address, and the addresses below \<open>sz\<close> all being mapped.\<close>

definition ubyte :: "'a vm_state_scheme \<Rightarrow> uint \<Rightarrow> byte" where
  "ubyte s va = mem s (the (translate False s va))"

definition mapped :: "'a vm_state_scheme \<Rightarrow> uint \<Rightarrow> bool" where
  "mapped s sz \<longleftrightarrow> (\<forall>va. va < sz \<longrightarrow> translate False s va \<noteq> None)"

lemma translate_noted [simp]: "translate w (noted s) va = translate w s va"
  by (simp add: translate_def)

lemma ubyte_noted [simp]: "ubyte (noted s) va = ubyte s va" "mapped (noted s) sz = mapped s sz"
  by (simp_all add: ubyte_def mapped_def)

lemma uload8_eval: "mapped s sz \<Longrightarrow> va < sz \<Longrightarrow> uload8 va s env = Ok (ubyte s va) s env"
  by (auto simp: uload8_def kmonad deref_def mapped_def ubyte_def)

lemma uload_eval:
  "mapped s sz \<Longrightarrow> unat va + n \<le> unat sz \<Longrightarrow>
   uload va n s env = Ok (map (\<lambda>i. ubyte s (va + of_nat i)) [0..<n]) s env"
proof (induction n arbitrary: va)
  case 0
  then show ?case by (simp add: kmonad)
next
  case (Suc n)
  have lt: "va < sz" using Suc.prems by (simp add: word_less_nat_alt)
  have "unat va + 1 < 4294967296" using Suc.prems(2) unat_lt32 [of sz] by linarith
  then have "uload (va + 1) n s env = Ok (map (\<lambda>i. ubyte s (va + 1 + of_nat i)) [0..<n]) s env"
    using Suc.prems by (intro Suc.IH) (simp_all add: unat_word_ariths)
  then show ?case using lt Suc.prems(1)
    by (simp add: kmonad uload8_eval [of s sz] upt_conv_Cons map_Suc_upt [symmetric] comp_def add.assoc del: upt_Suc)
qed

definition uword :: "'a vm_state_scheme \<Rightarrow> uint \<Rightarrow> uint" where
  "uword s va = of_bytes32 (map (\<lambda>i. ubyte s (va + of_nat i)) [0..<4])"

text \<open>A running process whose memory is mapped and lies below the kernel.\<close>

definition user_ctx :: "nat \<Rightarrow> 'a vm_state_scheme \<Rightarrow> bool" where
  "user_ctx p s \<longleftrightarrow> proc_ctx p s \<and> p_sz (ptable s ! p) \<le> KERNBASE \<and> mapped s (p_sz (ptable s ! p))"

lemma user_ctx_noted [simp]: "user_ctx p s \<Longrightarrow> user_ctx p (noted s)"
  by (simp add: user_ctx_def proc_ctx_noted)

lemma with_proc_eval: "proc_ctx p s \<Longrightarrow> with_proc f s env = f p (noted s) env"
  by (simp add: with_proc_def kmonad deref_def proc_ctx_def)

lemma nonneg_unat:
  assumes "0 \<le> sint (n :: cint)"
  shows "unat n = nat (sint n)" "nat (sint n) < 2147483648"
proof -
  have lt: "sint n < 2147483648" using sint_lt [of n] by simp
  with assms show "nat (sint n) < 2147483648" by linarith
  then have "unat (of_nat (nat (sint n)) :: uint) = nat (sint n)" by (simp add: word32_of_nat_unat)
  moreover have "of_nat (nat (sint n)) = (of_int (sint n) :: uint)"
    using assms of_int_of_nat_eq [of "nat (sint n)", where 'a = uint] by simp
  ultimately show "unat n = nat (sint n)" by simp
qed

lemma below_kernel:
  assumes "sz \<le> (KERNBASE :: uint)"
  shows "0 \<le> sint n \<Longrightarrow> sz \<le> addr \<or> sz < addr + n \<longleftrightarrow> unat sz \<le> unat addr \<or> unat sz < unat addr + nat (sint n)"
proof -
  assume n: "0 \<le> sint n"
  note u = nonneg_unat [OF n]
  have k: "unat sz \<le> 2147483648" using assms by (simp add: word_le_nat_alt)
  show "sz \<le> addr \<or> sz < addr + n \<longleftrightarrow> unat sz \<le> unat addr \<or> unat sz < unat addr + nat (sint n)"
  proof (cases "unat sz \<le> unat addr")
    case False
    then have "unat addr + unat n < 2 ^ 32" using u k by simp
    then have "unat (addr + n) = unat addr + unat n" by (simp add: unat_word_ariths)
    with u(1) show ?thesis by (simp add: word_le_nat_alt word_less_nat_alt)
  qed (simp add: word_le_nat_alt)
qed

lemma fetchint_eval:
  assumes "user_ctx p s"
  shows "fetchint addr s env =
    Ok (if unat addr + 4 \<le> unat (p_sz (ptable s ! p)) then Some (uword s addr) else None) (noted s) env"
proof -
  have p: "proc_ctx p s" and m: "mapped (noted s) (p_sz (ptable s ! p))" and k: "p_sz (ptable s ! p) \<le> KERNBASE"
    using assms by (simp_all add: user_ctx_def)
  show ?thesis
    using below_kernel [OF k, of 4 addr] uload_eval [OF m, of addr 4 env]
    by (simp add: fetchint_def with_proc_eval [OF p] kmonad uload32_def uword_def not_less)
qed

text \<open>\<open>cs\<close> is the string at \<open>va\<close>, its NUL among the next \<open>n\<close> bytes; \<open>None\<close> when none of them is NUL.\<close>

definition ustring :: "'a vm_state_scheme \<Rightarrow> uint \<Rightarrow> nat \<Rightarrow> byte list option \<Rightarrow> bool" where
  "ustring s va n r \<longleftrightarrow> (case r of
       None \<Rightarrow> \<forall>i<n. ubyte s (va + of_nat i) \<noteq> 0
     | Some cs \<Rightarrow> length cs < n \<and> (\<forall>i<length cs. cs ! i = ubyte s (va + of_nat i) \<and> cs ! i \<noteq> 0) \<and>
         ubyte s (va + of_nat (length cs)) = 0)"

lemma ustring_Cons:
  assumes "ustring s (va + 1) n r" "ubyte s va \<noteq> 0"
  shows "ustring s va (Suc n) (map_option (Cons (ubyte s va)) r)"
  using assms by (auto simp: ustring_def All_less_Suc2 add.assoc less_Suc_eq_0_disj nth_Cons' split: option.splits)

lemma fetchstr_loop_eval:
  "mapped s sz \<Longrightarrow> unat va + n \<le> unat sz \<Longrightarrow> \<exists>r. fetchstr_loop va n s env = Ok r s env \<and> ustring s va n r"
proof (induction n arbitrary: va)
  case 0
  then show ?case by (simp add: kmonad ustring_def)
next
  case (Suc n)
  have lt: "va < sz" using Suc.prems by (simp add: word_less_nat_alt)
  show ?case
  proof (cases "ubyte s va = 0")
    case True
    then show ?thesis using lt Suc.prems(1) by (simp add: kmonad uload8_eval [of s sz] ustring_def)
  next
    case False
    have "unat va + 1 < 4294967296" using Suc.prems(2) unat_lt32 [of sz] by linarith
    then have "\<exists>r. fetchstr_loop (va + 1) n s env = Ok r s env \<and> ustring s (va + 1) n r"
      using Suc.prems by (intro Suc.IH) (simp_all add: unat_word_ariths)
    then show ?thesis using False lt Suc.prems(1) ustring_Cons [of s va n]
      by (auto simp: kmonad uload8_eval [of s sz])
  qed
qed

section \<open>Properties\<close>

text \<open>
  C10.  The kernel takes nothing from a process that lies outside of its memory.  \<open>fetchint\<close> returns
  the word at an address exactly when its four bytes are below the size of the process; \<open>argptr\<close> returns
  a pointer exactly when the block of \<open>n\<close> bytes it points to starts inside the process and ends in it,
  whatever the numbers passed; \<open>fetchstr\<close> returns the bytes before a NUL that is inside the
  process, and fails when there is none.  None of them faults.
\<close>

theorem args_inside:
  assumes "user_ctx p s"
  shows "fetchint addr s env =
      Ok (if unat addr + 4 \<le> unat (p_sz (ptable s ! p)) then Some (uword s addr) else None) (noted s) env \<and>
    (\<exists>i. argint k s env = Ok i (noted s) env \<and>
      argptr k n s env = Ok (case i of None \<Rightarrow> None | Some a \<Rightarrow>
        if 0 \<le> sint n \<and> unat a < unat (p_sz (ptable s ! p)) \<and> unat a + nat (sint n) \<le> unat (p_sz (ptable s ! p))
        then Some a else None) (noted s) env) \<and>
    (\<exists>r. fetchstr addr s env = Ok r (noted s) env \<and>
      ustring s addr (unat (p_sz (ptable s ! p)) - unat addr) r)"
proof (intro conjI)
  have p: "proc_ctx p s" and m: "mapped s (p_sz (ptable s ! p))" and k: "p_sz (ptable s ! p) \<le> KERNBASE"
    using assms by (simp_all add: user_ctx_def)
  have p': "proc_ctx p (noted s)" using p by (simp add: proc_ctx_noted)
  show "fetchint addr s env =
      Ok (if unat addr + 4 \<le> unat (p_sz (ptable s ! p)) then Some (uword s addr) else None) (noted s) env"
    by (rule fetchint_eval [OF assms])
  let ?a = "load32 (mem s) (p_tf (ptable s ! p) + 68) + 4 + 4 * of_nat k"
  let ?i = "if unat ?a + 4 \<le> unat (p_sz (ptable s ! p)) then Some (uword s ?a) else None"
  have i: "argint k s env = Ok ?i (noted s) env"
    "argint k (noted s) env = Ok ?i (noted s) env"
    using fetchint_eval [OF user_ctx_noted [OF assms]] p
    by (simp_all add: argint_def with_proc_eval [OF p] with_proc_eval [OF p'] kmonad uword_def proc_ctx_def)
  have "argptr k n s env = Ok (case ?i of None \<Rightarrow> None | Some a \<Rightarrow>
        if 0 \<le> sint n \<and> unat a < unat (p_sz (ptable s ! p)) \<and> unat a + nat (sint n) \<le> unat (p_sz (ptable s ! p))
        then Some a else None) (noted s) env"
    using below_kernel [OF k, of n]
    by (cases "0 \<le> sint n") (simp_all add: argptr_def with_proc_eval [OF p] kmonad i(2) not_le not_less)
  with i(1) show "\<exists>i. argint k s env = Ok i (noted s) env \<and>
      argptr k n s env = Ok (case i of None \<Rightarrow> None | Some a \<Rightarrow>
        if 0 \<le> sint n \<and> unat a < unat (p_sz (ptable s ! p)) \<and> unat a + nat (sint n) \<le> unat (p_sz (ptable s ! p))
        then Some a else None) (noted s) env" by blast
  show "\<exists>r. fetchstr addr s env = Ok r (noted s) env \<and> ustring s addr (unat (p_sz (ptable s ! p)) - unat addr) r"
  proof (cases "p_sz (ptable s ! p) \<le> addr")
    case True
    then show ?thesis by (simp add: fetchstr_def with_proc_eval [OF p] kmonad ustring_def word_le_nat_alt)
  next
    case False
    then show ?thesis
      using fetchstr_loop_eval [of "noted s" "p_sz (ptable s ! p)" addr "unat (p_sz (ptable s ! p)) - unat addr" env] m
      by (simp add: fetchstr_def with_proc_eval [OF p] kmonad ustring_def word_le_nat_alt cong: option.case_cong)
  qed
qed

text \<open>Witness: the process 1 with one page, at physical address \<open>0x3000\<close>, that starts with \<open>hi\<close>.\<close>

definition user_mem :: memory where
  "user_mem = (\<lambda>_. 0)(0x80001000 := 7, 0x80001001 := 0x20, 0x80002000 := 7, 0x80002001 := 0x30,
     0x80003000 := 104, 0x80003001 := 105)"

definition user_machine :: file_state where
  "user_machine = file_machine\<lparr>mem := user_mem, cr3 := 0x1000,
     ptable := (ptable file_machine)[1 := (ptable file_machine ! 1)\<lparr>p_sz := 4096, p_tf := 0x80004000\<rparr>]\<rparr>"

lemma low_page: "va < 4096 \<Longrightarrow> PDX va = 0" "va < 4096 \<Longrightarrow> PTX va = 0"
proof -
  assume "va < 4096"
  then have "unat va < 4096" by (simp add: word_less_nat_alt)
  then have "drop_bit 22 va = 0" "drop_bit 12 va = 0"
    by (simp_all add: word_unat_eq_iff drop_bit_eq_div unat_div)
  then show "PDX va = 0" "PTX va = 0" by (simp_all add: PDX_def PTX_def)
qed

lemma user_machine_ptable: "Suc 0 < length (ptable file_machine)"
  using file_machine_ctx(4) by (simp add: proc_ctx_def)

lemma user_machine_ctx: "user_ctx 1 user_machine"
proof -
  have "lookup user_mem (P2V 0x1000) va = Some 0x3007" if "va < 4096" for va
    using low_page [OF that]
    by (simp add: lookup_def dir_entry_def table_of_def present_def PTE_ADDR_def P2V_def load32_def user_mem_def Let_def)
  then have "mapped user_machine 4096"
    by (simp add: mapped_def translate_def user_machine_def)
  then show ?thesis
    using file_machine_ctx(4) user_machine_ptable
    by (simp add: user_ctx_def proc_ctx_def user_machine_def curproc_def)
qed

theorem args_inside_witness:
  "(\<exists>v. fetchint 4 user_machine [] = Ok (Some v) (noted user_machine) []) \<and>
   fetchint 4094 user_machine [] = Ok None (noted user_machine) []"
  using args_inside [OF user_machine_ctx, of 4 "[]"] args_inside [OF user_machine_ctx, of 4094 "[]"] user_machine_ptable
  by (simp add: user_machine_def)

end
