(* ===== verification/Sysproc.thy ===== *)
theory Sysproc
  imports Sysargs Sema
begin

text \<open>
  The system calls of \<open>sysproc.c\<close>: processes, time, the process table, semaphores, threads and
  scheduling policies.
\<close>

definition sys_fork :: "('a file_state_scheme, cint) K" where
  "sys_fork = fork"

definition sys_exit :: "('a file_state_scheme, cint) K" where
  "sys_exit = thenK exit_proc (ret 0)"

definition sys_wait :: "('a proc_state_scheme, cint) K" where
  "sys_wait = wait"

definition sys_kill :: "('a vm_state_scheme, cint) K" where
  "sys_kill = or_fail (argint 0) kill"

definition sys_getpid :: "('a proc_state_scheme, cint) K" where
  "sys_getpid = with_proc (\<lambda>p. gets (\<lambda>s. p_pid (ptable s ! p)))"

definition sys_sbrk :: "('a vm_state_scheme, cint) K" where
  "sys_sbrk = or_fail (argint 0) (\<lambda>n. with_proc (\<lambda>p.
     bindK (gets (\<lambda>s. p_sz (ptable s ! p))) (\<lambda>addr.
     bindK (growproc n) (\<lambda>r. ret (if sint r < 0 then -1 else addr)))))"

definition sys_sleep :: "('a vm_state_scheme, cint) K" where
  "sys_sleep = or_fail (argint 0) (\<lambda>n.
     thenK (acquire TickLock) (
     bindK (gets ticks) (\<lambda>ticks0.
     loopK (bindK (gets (\<lambda>s. ticks s - ticks0 < n)) (\<lambda>early.
       if \<not> early then thenK (release TickLock) (ret (Some 0)) else
       with_proc (\<lambda>p. bindK (gets (\<lambda>s. p_killed (ptable s ! p) \<noteq> 0)) (\<lambda>killed.
         if killed then thenK (release TickLock) (ret (Some (-1)))
         else thenK (sleep ChanTicks (Some TickLock)) (ret None))))))))"

definition sys_uptime :: "('a proc_state_scheme, cint) K" where
  "sys_uptime =
     thenK (acquire TickLock) (
     bindK (gets ticks) (\<lambda>xticks.
     thenK (release TickLock) (ret xticks)))"

text \<open>
  \<open>getptable\<close> works on the user's array.  It stores only entries whose state is not
  \<open>UNUSED\<close>; the array it is given here starts out with \<open>UNUSED\<close> entries, and the entries
  it stored are the ones written to user memory, 52 bytes each.
\<close>

definition enum_state :: "procstate \<Rightarrow> uint" where
  "enum_state st = (case st of UNUSED \<Rightarrow> 0 | EMBRYO \<Rightarrow> 1 | SLEEPING \<Rightarrow> 2 | RUNNABLE \<Rightarrow> 3 | RUNNING \<Rightarrow> 4 | ZOMBIE \<Rightarrow> 5)"

definition proc_us_bytes :: "proc_us \<Rightarrow> byte list" where
  "proc_us_bytes u = bytes32 (u_sz u) @ bytes32 (enum_state (u_state u)) @ bytes32 (u_pid u) @ bytes32 (u_ppid u) @
     bytes32 (u_priority u) @ take 16 (u_name u) @ bytes32 (u_ctime u) @ bytes32 (u_stime u) @
     bytes32 (u_retime u) @ bytes32 (u_rutime u)"

definition untouched :: proc_us where
  "untouched = \<lparr>u_sz = 0, u_state = UNUSED, u_pid = 0, u_ppid = 0, u_priority = 0, u_name = [],
     u_ctime = 0, u_stime = 0, u_retime = 0, u_rutime = 0\<rparr>"

definition sys_getptable :: "('a vm_state_scheme, cint) K" where
  "sys_getptable =
     or_fail (argint 0) (\<lambda>nproc.
     or_fail (argint 1) (\<lambda>size.
     or_fail (argptr 2 size) (\<lambda>buffer.
     if size \<noteq> nproc * 52 then ret (-1) else
     bindK (getptable nproc size
       (if buffer = 0 then None else Some (replicate (nat (sint nproc)) untouched))) (\<lambda>(r, buf).
     thenK (case buf of None \<Rightarrow> ret ()
            | Some us \<Rightarrow> forK [0..<length us] (\<lambda>i. whenK (u_state (us ! i) \<noteq> UNUSED)
                (ustore (buffer + 52 * of_nat i) (proc_us_bytes (us ! i))))) (ret r)))))"

definition sys_getppid :: "('a proc_state_scheme, cint) K" where
  "sys_getppid = with_proc (\<lambda>p.
     bindK (gets (\<lambda>s. p_parent (ptable s ! p))) (\<lambda>q. deref q (\<lambda>q. gets (\<lambda>s. p_pid (ptable s ! q)))))"

definition sys_setpriority :: "('a vm_state_scheme, cint) K" where
  "sys_setpriority = or_fail (argint 0) (\<lambda>pid. or_fail (argint 1) (\<lambda>priority. setpriority pid priority))"

definition sys_sem_init :: "('a sema_state_scheme, cint) K" where
  "sys_sem_init = or_fail (argint 0) (\<lambda>sem. or_fail (argint 1) (\<lambda>value. sem_init sem value))"

definition sys_sem_destroy :: "('a sema_state_scheme, cint) K" where
  "sys_sem_destroy = or_fail (argint 0) sem_destroy"

definition sys_sem_wait :: "('a sema_state_scheme, cint) K" where
  "sys_sem_wait = or_fail (argint 0) (\<lambda>sem. or_fail (argint 1) (\<lambda>count. sem_wait sem count))"

definition sys_sem_signal :: "('a sema_state_scheme, cint) K" where
  "sys_sem_signal = or_fail (argint 0) (\<lambda>sem. or_fail (argint 1) (\<lambda>count. sem_signal sem count))"

definition sys_clone :: "('a file_state_scheme, cint) K" where
  "sys_clone = or_fail (argint 0) (\<lambda>func_add. or_fail (argint 1) (\<lambda>arg. or_fail (argint 2) (\<lambda>stack_add.
     clone func_add arg stack_add)))"

definition sys_join :: "('a vm_state_scheme, cint) K" where
  "sys_join = or_fail (argint 0) join"

definition sys_getscheduler :: "('a sched_state_scheme, cint) K" where
  "sys_getscheduler = getscheduler"

definition sys_setscheduler :: "('a sched_state_scheme, cint) K" where
  "sys_setscheduler = or_fail (argint 0) setscheduler"

definition sys_yield :: "('a proc_state_scheme, cint) K" where
  "sys_yield = thenK yield (ret 0)"

definition sys_wait2 :: "('a vm_state_scheme, cint) K" where
  "sys_wait2 = or_fail (argptr 0 4) (\<lambda>retime. or_fail (argptr 1 4) (\<lambda>rutime. or_fail (argptr 2 4) (\<lambda>stime.
     wait2 retime rutime stime)))"

end
