(* ===== verification/Sysfile.thy ===== *)
theory Sysfile
  imports Sysargs
begin

text \<open>
  The file system calls, \<open>sysfile.c\<close> and \<open>fcntl.h\<close>.  The labels \<open>bad\<close> of the code are
  definitions of their own; the buffers of \<open>read\<close>, \<open>write\<close> and \<open>fstat\<close> are moved between user
  memory and values here.
\<close>

unbundle bit_operations_syntax

definition O_WRONLY :: cint where "O_WRONLY = 1"
definition O_RDWR :: cint where "O_RDWR = 2"
definition O_CREATE :: cint where "O_CREATE = 0x200"

section \<open>Descriptors\<close>

definition argfd :: "nat \<Rightarrow> ('a vm_state_scheme, (nat \<times> nat) option) K" where
  "argfd n = bindK (argint n) (\<lambda>fd. case fd of None \<Rightarrow> ret None | Some fd \<Rightarrow>
     if sint fd < 0 \<or> int NOFILE \<le> sint fd then ret None else with_proc (\<lambda>p.
     bindK (gets (\<lambda>s. p_ofile (ptable s ! p) ! nat (sint fd))) (\<lambda>f.
     ret (map_option (Pair (nat (sint fd))) f))))"

definition set_fd :: "nat \<Rightarrow> nat option \<Rightarrow> ('a proc_state_scheme, unit) K" where
  "set_fd fd f = with_proc (\<lambda>p. modify (set_proc p (\<lambda>x. x\<lparr>p_ofile := (p_ofile x)[fd := f]\<rparr>)))"

definition fdalloc :: "nat \<Rightarrow> ('a proc_state_scheme, nat option) K" where
  "fdalloc f = with_proc (\<lambda>p.
     bindK (gets (\<lambda>s. first_index (\<lambda>x. x = None) (take NOFILE (p_ofile (ptable s ! p))))) (\<lambda>fd. case fd of
       Some fd \<Rightarrow> thenK (modify (set_proc p (\<lambda>x. x\<lparr>p_ofile := (p_ofile x)[fd := Some f]\<rparr>))) (ret (Some fd))
     | None \<Rightarrow> ret None))"

definition sys_dup :: "('a file_state_scheme, cint) K" where
  "sys_dup = or_fail (argfd 0) (\<lambda>(_, f). or_fail (fdalloc f) (\<lambda>fd.
     bindK (filedup f) (\<lambda>_. ret (of_nat fd))))"

definition sys_read :: "('a file_state_scheme) devsw \<Rightarrow> ('a file_state_scheme, cint) K" where
  "sys_read dv = or_fail (argfd 0) (\<lambda>(_, f). or_fail (argint 2) (\<lambda>n. or_fail (argptr 1 n) (\<lambda>p.
     bindK (fileread dv f n) (\<lambda>(r, bytes). thenK (ustore p bytes) (ret r)))))"

definition sys_write :: "('a file_state_scheme) devsw \<Rightarrow> ('a file_state_scheme, cint) K" where
  "sys_write dv = or_fail (argfd 0) (\<lambda>(_, f). or_fail (argint 2) (\<lambda>n. or_fail (argptr 1 n) (\<lambda>p.
     bindK (uload p (nat (sint n))) (filewrite dv f))))"

definition sys_close :: "('a file_state_scheme, cint) K" where
  "sys_close = or_fail (argfd 0) (\<lambda>(fd, f). thenK (block [set_fd fd None, fileclose f]) (ret 0))"

text \<open>\<open>struct stat\<close>: \<open>type\<close> at 0, \<open>dev\<close> at 4, \<open>ino\<close> at 8, \<open>nlink\<close> at 12, \<open>size\<close> at 16; 20 bytes.\<close>

definition bytes16 :: "16 word \<Rightarrow> byte list" where
  "bytes16 w = [ucast w, ucast (drop_bit 8 w)]"

definition ustore_stat :: "uint \<Rightarrow> stat \<Rightarrow> ('a vm_state_scheme, unit) K" where
  "ustore_stat p st = block
     [ustore (p + 4) (bytes32 (st_dev st)),
      ustore (p + 8) (bytes32 (st_ino st)),
      ustore p (bytes16 (st_type st)),
      ustore (p + 12) (bytes16 (st_nlink st)),
      ustore (p + 16) (bytes32 (st_size st))]"

definition sys_fstat :: "('a file_state_scheme, cint) K" where
  "sys_fstat = or_fail (argfd 0) (\<lambda>(_, f). or_fail (argptr 1 20) (\<lambda>p.
     bindK (filestat f) (\<lambda>(r, st).
     thenK (case st of None \<Rightarrow> ret () | Some st \<Rightarrow> ustore_stat p st) (ret r))))"

section \<open>Links\<close>

definition fail_op :: "('a log_state_scheme, cint) K" where
  "fail_op = thenK end_op (ret (-1))"

definition add_nlink :: "nat \<Rightarrow> 16 word \<Rightarrow> ('a fs_state_scheme, unit) K" where
  "add_nlink ip d = block [modify (set_inode ip (i_nlink_update (\<lambda>n. n + d))), iupdate ip]"

definition link_bad :: "nat \<Rightarrow> ('a fs_state_scheme, cint) K" where
  "link_bad ip = thenK (block [ilock (Some ip), add_nlink ip (-1), iunlockput ip]) fail_op"

definition sys_link :: "('a file_state_scheme) devsw \<Rightarrow> ('a file_state_scheme, cint) K" where
  "sys_link dv = or_fail (argstr 0) (\<lambda>old. or_fail (argstr 1) (\<lambda>new.
     thenK begin_op (
     bindK (namei dv old) (\<lambda>found. case found of None \<Rightarrow> fail_op | Some ip \<Rightarrow>
     thenK (ilock (Some ip)) (
     bindK (getsI ip i_type) (\<lambda>t.
     if t = T_DIR then thenK (iunlockput ip) fail_op else
     thenK (block [add_nlink ip 1, iunlock (Some ip)]) (
     bindK (nameiparent dv new (replicate DIRSIZ 0)) (\<lambda>(parent, name). case parent of None \<Rightarrow> link_bad ip | Some dp \<Rightarrow>
     thenK (ilock (Some dp)) (
     bindK (gets (\<lambda>s. (i_dev (icache s ! dp) \<noteq> i_dev (icache s ! ip), i_inum (icache s ! ip)))) (\<lambda>(other, inum).
     bindK (if other then ret True else bindK (dirlink dv dp (view name) inum) (\<lambda>r. ret (sint r < 0))) (\<lambda>failed.
     if failed then thenK (iunlockput dp) (link_bad ip)
     else thenK (block [iunlockput dp, iput ip, end_op]) (ret 0))))))))))))"

function isdirempty_loop :: "('a fs_state_scheme) devsw \<Rightarrow> nat \<Rightarrow> nat \<Rightarrow> ('a fs_state_scheme, bool) K" where
  "isdirempty_loop dv dp off =
     bindK (getsI dp i_size) (\<lambda>sz.
       if off < unat sz then
         bindK (readi dv dp (of_nat off) 16) (\<lambda>(n, de).
           if n \<noteq> 16 then panic ''isdirempty: readi''
           else if de_inum de \<noteq> 0 then ret False
           else isdirempty_loop dv dp (off + 16))
       else ret True)"
  by pat_completeness auto

termination isdirempty_loop
  by (relation "measure (\<lambda>(dv, dp, off). 2 ^ 32 - off)") (auto dest: below_word)

declare isdirempty_loop.simps [simp del]

definition isdirempty :: "('a fs_state_scheme) devsw \<Rightarrow> nat \<Rightarrow> ('a fs_state_scheme, bool) K" where
  "isdirempty dv dp = isdirempty_loop dv dp 32"

definition unlink_bad :: "nat \<Rightarrow> ('a fs_state_scheme, cint) K" where
  "unlink_bad dp = thenK (iunlockput dp) fail_op"

definition unlink_entry :: "('a fs_state_scheme) devsw \<Rightarrow> nat \<Rightarrow> nat \<Rightarrow> nat \<Rightarrow> ('a fs_state_scheme, cint) K" where
  "unlink_entry dv dp ip off =
     bindK (writei dv dp (replicate 16 0) (of_nat off)) (\<lambda>n.
     if n \<noteq> 16 then panic ''unlink: writei'' else
     thenK (block
       [bindK (getsI ip i_type) (\<lambda>t. whenK (t = T_DIR) (add_nlink dp (-1))),
        iunlockput dp,
        add_nlink ip (-1),
        iunlockput ip,
        end_op]) (ret 0))"

definition sys_unlink :: "('a file_state_scheme) devsw \<Rightarrow> ('a file_state_scheme, cint) K" where
  "sys_unlink dv = or_fail (argstr 0) (\<lambda>path.
     thenK begin_op (
     bindK (nameiparent dv path (replicate DIRSIZ 0)) (\<lambda>(parent, name). case parent of None \<Rightarrow> fail_op | Some dp \<Rightarrow>
     thenK (ilock (Some dp)) (
     if namecmp (view name) (view (lit ''.'')) = 0 \<or> namecmp (view name) (view (lit ''..'')) = 0 then unlink_bad dp else
     bindK (dirlookup dv dp (view name)) (\<lambda>hit. case hit of None \<Rightarrow> unlink_bad dp | Some (ip, off) \<Rightarrow>
     thenK (ilock (Some ip)) (
     bindK (getsI ip (\<lambda>x. (i_nlink x, i_type x))) (\<lambda>(nlink, t).
     if sint nlink < 1 then panic ''unlink: nlink < 1'' else
     bindK (if t = T_DIR then isdirempty dv ip else ret True) (\<lambda>empty.
     if \<not> empty then thenK (iunlockput ip) (unlink_bad dp)
     else unlink_entry dv dp ip off))))))))"

section \<open>Creating files\<close>

definition create_new :: "('a fs_state_scheme) devsw \<Rightarrow> nat \<Rightarrow> byte list \<Rightarrow> 16 word \<Rightarrow> 16 word \<Rightarrow> 16 word \<Rightarrow>
    ('a fs_state_scheme, nat option) K" where
  "create_new dv dp name type major minor =
     bindK (getsI dp i_dev) (\<lambda>dev.
     bindK (ialloc dev type) (\<lambda>ip.
     thenK (block
       [ilock (Some ip),
        modify (set_inode ip (\<lambda>x. x\<lparr>i_major := major, i_minor := minor, i_nlink := 1\<rparr>)),
        iupdate ip,
        whenK (type = T_DIR) (block
          [add_nlink dp 1,
           bindK (getsI ip i_inum) (\<lambda>inum.
           bindK (dirlink dv ip (view (lit ''.'')) inum) (\<lambda>r.
           bindK (if sint r < 0 then ret True else
             bindK (getsI dp i_inum) (\<lambda>pinum.
             bindK (dirlink dv ip (view (lit ''..'')) pinum) (\<lambda>r. ret (sint r < 0)))) (\<lambda>failed.
           whenK failed (panic ''create dots''))))]),
        bindK (getsI ip i_inum) (\<lambda>inum.
        bindK (dirlink dv dp (view name) inum) (\<lambda>r. whenK (sint r < 0) (panic ''create: dirlink''))),
        iunlockput dp]) (ret (Some ip))))"

definition create :: "('a fs_state_scheme) devsw \<Rightarrow> byte list \<Rightarrow> 16 word \<Rightarrow> 16 word \<Rightarrow> 16 word \<Rightarrow>
    ('a fs_state_scheme, nat option) K" where
  "create dv path type major minor =
     bindK (nameiparent dv path (replicate DIRSIZ 0)) (\<lambda>(parent, name). case parent of None \<Rightarrow> ret None | Some dp \<Rightarrow>
     thenK (ilock (Some dp)) (
     bindK (dirlookup dv dp (view name)) (\<lambda>hit. case hit of
       Some (ip, _) \<Rightarrow>
         thenK (block [iunlockput dp, ilock (Some ip)]) (
         bindK (getsI ip i_type) (\<lambda>t.
           if type = T_FILE \<and> t = T_FILE then ret (Some ip)
           else thenK (iunlockput ip) (ret None)))
     | None \<Rightarrow> create_new dv dp name type major minor)))"

definition open_ip :: "('a file_state_scheme) devsw \<Rightarrow> byte list \<Rightarrow> cint \<Rightarrow> ('a file_state_scheme, nat option) K" where
  "open_ip dv path omode =
     (if omode AND O_CREATE \<noteq> 0 then create dv path T_FILE 0 0
      else bindK (namei dv path) (\<lambda>found. case found of None \<Rightarrow> ret None | Some ip \<Rightarrow>
        thenK (ilock (Some ip)) (
        bindK (getsI ip i_type) (\<lambda>t.
          if t = T_DIR \<and> omode \<noteq> 0 then thenK (iunlockput ip) (ret None) else ret (Some ip)))))"

definition open_file :: "nat \<Rightarrow> cint \<Rightarrow> filep \<Rightarrow> filep" where
  "open_file ip omode f = f\<lparr>f_type := FD_INODE, f_ip := Some ip, f_off := 0,
     f_readable := (if omode AND O_WRONLY = 0 then 1 else 0),
     f_writable := (if omode AND O_WRONLY \<noteq> 0 \<or> omode AND O_RDWR \<noteq> 0 then 1 else 0)\<rparr>"

definition open_bad :: "nat option \<Rightarrow> nat \<Rightarrow> ('a file_state_scheme, cint) K" where
  "open_bad f ip = thenK (block
     [case f of None \<Rightarrow> ret () | Some f \<Rightarrow> fileclose f,
      iunlockput ip]) fail_op"

definition sys_open :: "('a file_state_scheme) devsw \<Rightarrow> ('a file_state_scheme, cint) K" where
  "sys_open dv = or_fail (argstr 0) (\<lambda>path. or_fail (argint 1) (\<lambda>omode.
     thenK begin_op (
     bindK (open_ip dv path omode) (\<lambda>found. case found of None \<Rightarrow> fail_op | Some ip \<Rightarrow>
     bindK filealloc (\<lambda>f. case f of None \<Rightarrow> open_bad None ip | Some f \<Rightarrow>
     bindK (fdalloc f) (\<lambda>fd. case fd of None \<Rightarrow> open_bad (Some f) ip | Some fd \<Rightarrow>
     thenK (block
       [iunlock (Some ip),
        end_op,
        modify (set_file f (open_file ip omode))]) (ret (of_nat fd))))))))"

definition sys_mkdir :: "('a file_state_scheme) devsw \<Rightarrow> ('a file_state_scheme, cint) K" where
  "sys_mkdir dv =
     thenK begin_op (
     bindK (argstr 0) (\<lambda>path. case path of None \<Rightarrow> fail_op | Some path \<Rightarrow>
     bindK (create dv path T_DIR 0 0) (\<lambda>made. case made of None \<Rightarrow> fail_op | Some ip \<Rightarrow>
     thenK (block [iunlockput ip, end_op]) (ret 0))))"

definition sys_mknod :: "('a file_state_scheme) devsw \<Rightarrow> ('a file_state_scheme, cint) K" where
  "sys_mknod dv =
     thenK begin_op (
     bindK (argstr 0) (\<lambda>path. case path of None \<Rightarrow> fail_op | Some path \<Rightarrow>
     bindK (argint 1) (\<lambda>major. case major of None \<Rightarrow> fail_op | Some major \<Rightarrow>
     bindK (argint 2) (\<lambda>minor. case minor of None \<Rightarrow> fail_op | Some minor \<Rightarrow>
     bindK (create dv path T_DEV (ucast major) (ucast minor)) (\<lambda>made. case made of None \<Rightarrow> fail_op | Some ip \<Rightarrow>
     thenK (block [iunlockput ip, end_op]) (ret 0))))))"

definition sys_chdir :: "('a file_state_scheme) devsw \<Rightarrow> ('a file_state_scheme, cint) K" where
  "sys_chdir dv =
     bindK myproc (\<lambda>curproc.
     thenK begin_op (
     bindK (argstr 0) (\<lambda>path. case path of None \<Rightarrow> fail_op | Some path \<Rightarrow>
     bindK (namei dv path) (\<lambda>found. case found of None \<Rightarrow> fail_op | Some ip \<Rightarrow>
     thenK (ilock (Some ip)) (
     bindK (getsI ip i_type) (\<lambda>t.
     if t \<noteq> T_DIR then thenK (iunlockput ip) fail_op else
     thenK (iunlock (Some ip)) (deref curproc (\<lambda>p.
     bindK (gets (\<lambda>s. p_cwd (ptable s ! p))) (\<lambda>cwd. deref cwd (\<lambda>cwd.
     thenK (block
       [iput cwd,
        end_op,
        modify (set_proc p (\<lambda>x. x\<lparr>p_cwd := Some ip\<rparr>))]) (ret 0)))))))))))"

section \<open>Programs and pipes\<close>

text \<open>The argument vector: \<open>k\<close> of the \<open>MAXARG\<close> slots are left, the next one is slot \<open>i\<close>.\<close>

fun sys_exec_args :: "uint \<Rightarrow> nat \<Rightarrow> nat \<Rightarrow> ('a vm_state_scheme, byte list list option) K" where
  "sys_exec_args uargv 0 i = ret None"
| "sys_exec_args uargv (Suc k) i =
     bindK (fetchint (uargv + 4 * of_nat i)) (\<lambda>uarg. case uarg of None \<Rightarrow> ret None | Some uarg \<Rightarrow>
     if uarg = 0 then ret (Some []) else
     bindK (fetchstr uarg) (\<lambda>arg. case arg of None \<Rightarrow> ret None | Some arg \<Rightarrow>
     bindK (sys_exec_args uargv k (i + 1)) (\<lambda>args. ret (map_option (Cons arg) args))))"

definition sys_exec :: "('a file_state_scheme) devsw \<Rightarrow> ('a file_state_scheme, cint) K" where
  "sys_exec dv = or_fail (argstr 0) (\<lambda>path. or_fail (argint 1) (\<lambda>uargv.
     or_fail (sys_exec_args uargv MAXARG 0) (\<lambda>argv. exec dv path argv)))"

definition pipe_bad :: "nat option \<Rightarrow> nat \<Rightarrow> nat \<Rightarrow> ('a file_state_scheme, cint) K" where
  "pipe_bad fd0 rf wrf = thenK (block
     [case fd0 of None \<Rightarrow> ret () | Some fd \<Rightarrow> set_fd fd None,
      fileclose rf,
      fileclose wrf]) (ret (-1))"

definition sys_pipe :: "('a file_state_scheme, cint) K" where
  "sys_pipe = or_fail (argptr 0 8) (\<lambda>fd. or_fail pipealloc (\<lambda>(rf, wrf).
     bindK (fdalloc rf) (\<lambda>fd0. case fd0 of None \<Rightarrow> pipe_bad None rf wrf | Some fd0 \<Rightarrow>
     bindK (fdalloc wrf) (\<lambda>fd1. case fd1 of None \<Rightarrow> pipe_bad (Some fd0) rf wrf | Some fd1 \<Rightarrow>
     thenK (block [ustore32 fd (of_nat fd0), ustore32 (fd + 4) (of_nat fd1)]) (ret 0)))))"

end
