(* ===== verification/Console.thy ===== *)
theory Console
  imports Sysproc Sysfile
begin

text \<open>
  The console, \<open>console.c\<close>.  Hardware state: the 80 by 25 characters of the CGA memory, the
  cursor register behind \<open>CRTPORT\<close>, and what went out on the serial line.  The characters
  \<open>getc\<close> delivers until it returns a negative number are an argument of \<open>consoleintr\<close>.
  \<open>procdump\<close>, called for control-P, and the trace \<open>panic\<close> prints are left out.
\<close>

unbundle bit_operations_syntax

section \<open>State\<close>

definition INPUT_BUF :: nat where "INPUT_BUF = 128"
definition BACKSPACE :: cint where "BACKSPACE = 0x100"
definition CONSOLE :: int where "CONSOLE = 1"

text \<open>\<open>C(x)\<close> and the characters the code names.\<close>

definition ctrl :: "char \<Rightarrow> cint" where "ctrl x = of_char x - of_char CHR ''@''"
definition newline :: cint where "newline = 10"

record input_t =
  in_buf :: "byte list"
  in_r :: uint
  in_w :: uint
  in_e :: uint

record cons_state = life_state +
  cons_locking :: cint
  panicked :: cint
  input :: input_t
  crt :: "16 word list" \<comment> \<open>hardware: CGA memory\<close>
  crt_pos :: "16 word" \<comment> \<open>hardware: cursor register\<close>
  serial :: "byte list" \<comment> \<open>hardware: bytes sent by \<open>uartputc\<close>\<close>

section \<open>Output\<close>

text \<open>\<open>memmove\<close> of 23 lines one line up and \<open>memset\<close> of the characters from \<open>pos\<close> on.\<close>

definition scroll :: "nat \<Rightarrow> 16 word list \<Rightarrow> 16 word list" where
  "scroll pos c = (let d = take (23 * 80) (drop 80 c) @ drop (23 * 80) c
     in take pos d @ replicate (24 * 80 - pos) 0 @ drop (24 * 80) d)"

definition cga_move :: "cint \<Rightarrow> nat \<Rightarrow> nat" where
  "cga_move c pos = (if c = newline then pos + (80 - pos mod 80)
     else if c = BACKSPACE then pos - 1
     else pos + 1)"

definition cgaputc :: "cint \<Rightarrow> ('a cons_state_scheme, unit) K" where
  "cgaputc c =
     bindK (gets (\<lambda>s. unat (crt_pos s))) (\<lambda>old.
     thenK (whenK (c \<noteq> newline \<and> c \<noteq> BACKSPACE)
       (modify (\<lambda>s. s\<lparr>crt := (crt s)[old := ucast (c AND 0xFF) OR 0x0700]\<rparr>))) (
     bindK (ret (cga_move c old)) (\<lambda>pos.
     if 25 * 80 < pos then panic ''pos under/overflow'' else
     bindK (if 24 \<le> pos div 80 then
              thenK (modify (\<lambda>s. s\<lparr>crt := scroll (pos - 80) (crt s)\<rparr>)) (ret (pos - 80))
            else ret pos) (\<lambda>pos. block
       [modify (\<lambda>s. s\<lparr>crt_pos := of_nat pos\<rparr>),
        modify (\<lambda>s. s\<lparr>crt := (crt s)[pos := 0x0720]\<rparr>)]))))"

definition uartputc :: "byte \<Rightarrow> ('a cons_state_scheme, unit) K" where
  "uartputc c = modify (\<lambda>s. s\<lparr>serial := serial s @ [c]\<rparr>)"

definition consputc :: "cint \<Rightarrow> ('a cons_state_scheme, unit) K" where
  "consputc c =
     bindK (gets panicked) (\<lambda>p.
     if p \<noteq> 0 then (\<lambda>s env. Spin) else block
       [if c = BACKSPACE then block [uartputc 8, uartputc 32, uartputc 8] else uartputc (ucast c),
        cgaputc c])"

text \<open>The digits of \<open>printint\<close>, least significant first.\<close>

definition digit :: "nat \<Rightarrow> char" where
  "digit d = ''0123456789abcdef'' ! d"

function digits_rev :: "nat \<Rightarrow> nat \<Rightarrow> char list" where
  "digits_rev base x = digit (x mod base) # (if base < 2 \<or> x div base = 0 then [] else digits_rev base (x div base))"
  by pat_completeness auto

termination digits_rev
  by (relation "measure (\<lambda>(base, x). x)") (auto intro: div_less_dividend simp: div_eq_0_iff not_less)

declare digits_rev.simps [simp del]

definition print_number :: "cint \<Rightarrow> nat \<Rightarrow> bool \<Rightarrow> char list" where
  "print_number xx base sign =
     (let neg = sign \<and> sint xx < 0; x = unat (if neg then - xx else xx);
          buf = digits_rev base x @ (if neg then ''-'' else [])
      in rev buf)"

definition printint :: "cint \<Rightarrow> nat \<Rightarrow> bool \<Rightarrow> ('a cons_state_scheme, unit) K" where
  "printint xx base sign = forK (print_number xx base sign) (\<lambda>c. consputc (of_char c))"

text \<open>The words \<open>argp\<close> walks over: an integer, or a pointer to a string.\<close>

datatype cparg = CInt cint | CStr "byte list option"

definition arg_int :: "cparg \<Rightarrow> cint" where
  "arg_int a = (case a of CInt w \<Rightarrow> w | CStr _ \<Rightarrow> 0)"

definition arg_str :: "cparg \<Rightarrow> byte list" where
  "arg_str a = (case a of CStr (Some cs) \<Rightarrow> cs | CStr None \<Rightarrow> lit ''(null)'' | CInt _ \<Rightarrow> [])"

fun cprintf_loop :: "byte list \<Rightarrow> cparg list \<Rightarrow> ('a cons_state_scheme, unit) K" where
  "cprintf_loop [] args = ret ()"
| "cprintf_loop (c # fmt) args =
     (if c \<noteq> of_char CHR ''%'' then thenK (consputc (ucast c)) (cprintf_loop fmt args)
      else case fmt of [] \<Rightarrow> ret ()
      | d # fmt \<Rightarrow>
          if d = of_char CHR ''d'' then thenK (printint (arg_int (hd args)) 10 True) (cprintf_loop fmt (tl args))
          else if d = of_char CHR ''x'' \<or> d = of_char CHR ''p'' then
            thenK (printint (arg_int (hd args)) 16 False) (cprintf_loop fmt (tl args))
          else if d = of_char CHR ''s'' then
            thenK (forK (arg_str (hd args)) (\<lambda>c. consputc (ucast c))) (cprintf_loop fmt (tl args))
          else if d = of_char CHR ''%'' then thenK (consputc (ucast d)) (cprintf_loop fmt args)
          else thenK (block [consputc (of_char CHR ''%''), consputc (ucast d)]) (cprintf_loop fmt args))"

definition cprintf :: "byte list option \<Rightarrow> cparg list \<Rightarrow> ('a cons_state_scheme, unit) K" where
  "cprintf fmt args =
     bindK (gets cons_locking) (\<lambda>locking. block
       [whenK (locking \<noteq> 0) (acquire ConsLock),
        case fmt of None \<Rightarrow> panic ''null fmt'' | Some fmt \<Rightarrow> cprintf_loop fmt args,
        whenK (locking \<noteq> 0) (release ConsLock)])"

section \<open>Input\<close>

definition set_input :: "(input_t \<Rightarrow> input_t) \<Rightarrow> 'a cons_state_scheme \<Rightarrow> 'a cons_state_scheme" where
  "set_input f s = s\<lparr>input := f (input s)\<rparr>"

definition in_at :: "input_t \<Rightarrow> uint \<Rightarrow> byte" where
  "in_at i k = in_buf i ! (unat k mod INPUT_BUF)"

text \<open>Control-U: the characters typed since the last newline; \<open>n\<close> of them are left at most.\<close>

fun kill_line :: "nat \<Rightarrow> ('a cons_state_scheme, unit) K" where
  "kill_line 0 = ret ()"
| "kill_line (Suc n) =
     bindK (gets input) (\<lambda>i.
       whenK (in_e i \<noteq> in_w i \<and> in_at i (in_e i - 1) \<noteq> 10) (block
         [modify (set_input (in_e_update (\<lambda>e. e - 1))), consputc BACKSPACE, kill_line n]))"

definition put_input :: "cint \<Rightarrow> ('a cons_state_scheme, unit) K" where
  "put_input c =
     bindK (gets input) (\<lambda>i. whenK (c \<noteq> 0 \<and> in_e i - in_r i < of_nat INPUT_BUF) (
       bindK (ret (if c = 13 then newline else c)) (\<lambda>c. block
         [modify (set_input (\<lambda>i. i\<lparr>in_buf := (in_buf i)[unat (in_e i) mod INPUT_BUF := ucast c], in_e := in_e i + 1\<rparr>)),
          consputc c,
          bindK (gets input) (\<lambda>i.
            whenK (c = newline \<or> c = ctrl CHR ''D'' \<or> in_e i = in_r i + of_nat INPUT_BUF) (block
              [modify (set_input (\<lambda>i. i\<lparr>in_w := in_e i\<rparr>)), wakeup ChanInput]))])))"

definition console_char :: "cint \<Rightarrow> ('a cons_state_scheme, unit) K" where
  "console_char c =
     (if c = ctrl CHR ''P'' then ret ()
      else if c = ctrl CHR ''U'' then bindK (gets input) (\<lambda>i. kill_line (unat (in_e i - in_w i)))
      else if c = ctrl CHR ''H'' \<or> c = 0x7F then
        bindK (gets input) (\<lambda>i. whenK (in_e i \<noteq> in_w i) (block
          [modify (set_input (in_e_update (\<lambda>e. e - 1))), consputc BACKSPACE]))
      else put_input c)"

definition consoleintr :: "cint list \<Rightarrow> ('a cons_state_scheme, unit) K" where
  "consoleintr cs = block [acquire ConsLock, forK cs console_char, release ConsLock]"

text \<open>Waiting for a line: False when the caller was killed, with the lock released.\<close>

definition consoleread_wait :: "('a cons_state_scheme, bool) K" where
  "consoleread_wait = loopK (
     bindK (gets (\<lambda>s. in_r (input s) = in_w (input s))) (\<lambda>empty.
       if \<not> empty then ret (Some True) else
       bindK Pipe.killed (\<lambda>stop.
         if stop then thenK (release ConsLock) (ret (Some False))
         else thenK (sleep ChanInput (Some ConsLock)) (ret None))))"

text \<open>\<open>n\<close> bytes are still wanted, \<open>target\<close> were asked for; \<open>None\<close> when killed.\<close>

fun consoleread_loop :: "nat \<Rightarrow> nat \<Rightarrow> ('a cons_state_scheme, byte list option) K" where
  "consoleread_loop target 0 = ret (Some [])"
| "consoleread_loop target (Suc n) =
     bindK consoleread_wait (\<lambda>ok. if \<not> ok then ret None else
     bindK (gets (\<lambda>s. in_at (input s) (in_r (input s)))) (\<lambda>c.
     thenK (modify (set_input (in_r_update (\<lambda>r. r + 1)))) (
     if ucast c = ctrl CHR ''D'' then
       thenK (whenK (Suc n < target) (modify (set_input (in_r_update (\<lambda>r. r - 1))))) (ret (Some []))
     else if c = 10 then ret (Some [c])
     else bindK (consoleread_loop target n) (\<lambda>cs. ret (map_option (Cons c) cs)))))"

definition consoleread :: "nat \<Rightarrow> cint \<Rightarrow> ('a cons_state_scheme, cint \<times> byte list) K" where
  "consoleread ip n =
     thenK (block [iunlock (Some ip), acquire ConsLock]) (
     bindK (consoleread_loop (nat (sint n)) (nat (sint n))) (\<lambda>r. case r of
       None \<Rightarrow> thenK (ilock (Some ip)) (ret (-1, []))
     | Some cs \<Rightarrow> thenK (block [release ConsLock, ilock (Some ip)]) (ret (of_nat (length cs), cs))))"

definition consolewrite :: "nat \<Rightarrow> byte list \<Rightarrow> ('a cons_state_scheme, cint) K" where
  "consolewrite ip buf =
     thenK (block
       [iunlock (Some ip),
        acquire ConsLock,
        forK buf (\<lambda>c. consputc (ucast c)),
        release ConsLock,
        ilock (Some ip)]) (ret (of_nat (length buf)))"

text \<open>The device switch \<open>consoleinit\<close> leaves behind.\<close>

definition console_devsw :: "('a cons_state_scheme) devsw" where
  "console_devsw = (\<lambda>major. if major = CONSOLE then (Some consoleread, Some consolewrite) else (None, None))"

definition consoleinit :: "('a cons_state_scheme, unit) K" where
  "consoleinit = block [initlock ConsLock ''console'', modify (\<lambda>s. s\<lparr>cons_locking := 1\<rparr>)]"

section \<open>Numbers\<close>

text \<open>What a printed number means.\<close>

definition digit_value :: "char \<Rightarrow> nat" where
  "digit_value c = the (first_index ((=) c) ''0123456789abcdef'')"

definition num_value :: "nat \<Rightarrow> char list \<Rightarrow> nat" where
  "num_value base ds = fold (\<lambda>c n. n * base + digit_value c) ds 0"

definition signed_value :: "nat \<Rightarrow> char list \<Rightarrow> int" where
  "signed_value base cs = (case cs of [] \<Rightarrow> 0
     | c # ds \<Rightarrow> if c = CHR ''-'' then - int (num_value base ds) else int (num_value base cs))"

lemma digit_checked: "list_all (\<lambda>d. digit_value (digit d) = d \<and> digit d \<noteq> CHR ''-'') [0..<16]"
  by code_simp

lemma digit_value_digit: "d < 16 \<Longrightarrow> digit_value (digit d) = d"
  and digit_not_minus: "d < 16 \<Longrightarrow> digit d \<noteq> CHR ''-''"
  using digit_checked unfolding list_all_iff by (auto simp del: upt_Suc)

lemma num_value_digits:
  "2 \<le> base \<Longrightarrow> base \<le> 16 \<Longrightarrow> num_value base (rev (digits_rev base x)) = x"
proof (induction base x rule: digits_rev.induct)
  case (1 base x)
  have d: "digit_value (digit (x mod base)) = x mod base"
    using 1(2,3) by (intro digit_value_digit) (simp add: order.strict_trans2 [OF mod_less_divisor])
  show ?case
  proof (cases "x div base = 0")
    case True
    then have "x mod base = x" using 1(2) by (simp add: div_eq_0_iff)
    with True d show ?thesis by (subst digits_rev.simps) (simp add: num_value_def)
  next
    case False
    then have ih: "num_value base (rev (digits_rev base (x div base))) = x div base" using 1 by simp
    have "digits_rev base x = digit (x mod base) # digits_rev base (x div base)"
      using False 1(2) by (subst digits_rev.simps) simp
    with ih d show ?thesis by (simp add: num_value_def)
  qed
qed

lemma length_digits: "x < base ^ Suc n \<Longrightarrow> 2 \<le> base \<Longrightarrow> length (digits_rev base x) \<le> Suc n"
proof (induction n arbitrary: x)
  case 0
  then show ?case by (subst digits_rev.simps) simp
next
  case (Suc n)
  then have "x div base < base ^ Suc n" by (simp add: div_less_iff_less_mult mult.commute)
  with Suc show ?case by (subst digits_rev.simps) simp
qed

lemma digits_hd: "2 \<le> base \<Longrightarrow> base \<le> 16 \<Longrightarrow> CHR ''-'' \<notin> set (digits_rev base x) \<and> digits_rev base x \<noteq> []"
proof (induction base x rule: digits_rev.induct)
  case (1 base x)
  have "digit (x mod base) \<noteq> CHR ''-''"
    using 1(2,3) by (intro digit_not_minus) (simp add: order.strict_trans2 [OF mod_less_divisor])
  then show ?case using 1 by (subst (1 2) digits_rev.simps) simp
qed

lemma neg_unat: "sint (x :: cint) < 0 \<Longrightarrow> - int (unat (- x)) = sint x"
proof -
  assume neg: "sint x < 0"
  let ?k = "nat (- sint x)"
  have "- 2147483648 \<le> sint x" using sint_ge [of x] by simp
  then have "unat (of_nat ?k :: uint) = ?k" by (simp add: word32_of_nat_unat)
  moreover have "(of_nat ?k :: uint) = - of_int (sint x)"
    using neg of_int_of_nat_eq [of ?k, where 'a = uint] by simp
  ultimately show "- int (unat (- x)) = sint x" using neg by simp
qed

text \<open>
  C33.  \<open>printint\<close> prints the number it is given.  In base 10 and 16 the printed characters denote the
  unsigned value, or with \<open>sign\<close> the signed value, the least integer included, and they fit
  in the 16 bytes of \<open>buf\<close>.
\<close>

theorem print_number_value:
  assumes "base = 10 \<or> base = 16"
  shows "signed_value base (print_number xx base sign) = (if sign then sint xx else int (unat xx)) \<and>
    length (print_number xx base sign) \<le> 16"
proof -
  let ?neg = "sign \<and> sint xx < 0" and ?x = "unat (if sign \<and> sint xx < 0 then - xx else xx)"
  have b: "2 \<le> base" "base \<le> 16" using assms by auto
  have cs: "print_number xx base sign = (if ?neg then ''-'' else []) @ rev (digits_rev base ?x)"
    by (simp add: print_number_def Let_def)
  obtain c ds where hd: "rev (digits_rev base ?x) = c # ds" "c \<noteq> CHR ''-''"
    using digits_hd [OF b, of ?x] by (metis list.exhaust list.set_intros(1) rev_is_Nil_conv set_rev)
  have v: "num_value base (c # ds) = ?x" using num_value_digits [OF b, of ?x] hd by simp
  have "signed_value base (print_number xx base sign) = (if ?neg then - int ?x else int ?x)"
    unfolding cs hd using v hd(2) by (simp add: signed_value_def)
  moreover have "- int (unat (- xx)) = sint xx" if "sint xx < 0" using neg_unat [OF that] .
  moreover have "int (unat xx) = sint xx" if "0 \<le> sint xx" using nonneg_unat(1) [OF that] that by simp
  moreover have "length (digits_rev base ?x) \<le> 10"
    using length_digits [of ?x base 9] assms unat_lt32 [of "if ?neg then - xx else xx"] by auto
  ultimately show ?thesis unfolding cs by auto
qed

theorem print_number_value_witness:
  "signed_value 10 (print_number 0x80000000 10 True) = - 2147483648 \<and>
   signed_value 16 (print_number 0xFF 16 False) = 255"
  using print_number_value [of 10 "0x80000000" True] print_number_value [of 16 "0xFF" False] by simp

section \<open>The screen\<close>

text \<open>The screen of 25 lines, the cursor in the first 24.\<close>

definition screen_ok :: "'a cons_state_scheme \<Rightarrow> bool" where
  "screen_ok s \<longleftrightarrow> length (crt s) = 25 * 80 \<and> unat (crt_pos s) < 24 * 80"

lemma length_scroll: "length c = 25 * 80 \<Longrightarrow> pos < 24 * 80 \<Longrightarrow> length (scroll pos c) = 25 * 80"
  by (simp add: scroll_def Let_def)

text \<open>The state after \<open>cgaputc\<close>.\<close>

definition cga_put :: "cint \<Rightarrow> 'a cons_state_scheme \<Rightarrow> 'a cons_state_scheme" where
  "cga_put c s =
     (let old = unat (crt_pos s); pos = cga_move c old;
          d = (if c \<noteq> newline \<and> c \<noteq> BACKSPACE then (crt s)[old := ucast (c AND 0xFF) OR 0x0700] else crt s);
          down = 24 \<le> pos div 80; pos' = (if down then pos - 80 else pos)
      in s\<lparr>crt := ((if down then scroll pos' d else d)[pos' := 0x0720]), crt_pos := of_nat pos'\<rparr>)"

lemma cga_move_bound: "pos < 24 * 80 \<Longrightarrow> cga_move c pos \<le> 24 * 80"
proof -
  assume "pos < 24 * 80"
  then have "pos div 80 < 24" by (rule less_mult_imp_div_less)
  then have "pos + (80 - pos mod 80) \<le> 24 * 80"
    using div_mult_mod_eq [of pos 80] mod_less_divisor [of 80 pos] by linarith
  with \<open>pos < 24 * 80\<close> show ?thesis by (auto simp: cga_move_def)
qed

lemma cgaputc_eval:
  assumes "screen_ok s"
  shows "cgaputc c s env = Ok () (cga_put c s) env" "screen_ok (cga_put c s)"
proof -
  let ?pos = "cga_move c (unat (crt_pos s))"
  have len: "length (crt s) = 25 * 80" and pos: "unat (crt_pos s) < 24 * 80" using assms by (auto simp: screen_ok_def)
  note b = cga_move_bound [OF pos, of c]
  then have "\<not> 25 * 80 < ?pos" by simp
  then show "cgaputc c s env = Ok () (cga_put c s) env"
    by (simp add: cgaputc_def kmonad cga_put_def Let_def)
  have "?pos < 24 * 80" if "\<not> 24 \<le> ?pos div 80"
    using that div_less_iff_less_mult [of 80 ?pos 24] by linarith
  with b have p: "(if 24 \<le> ?pos div 80 then ?pos - 80 else ?pos) < 24 * 80" by (simp, linarith)
  then have "unat (of_nat (if 24 \<le> ?pos div 80 then ?pos - 80 else ?pos) :: 16 word) < 24 * 80"
    by (simp add: unat_of_nat)
  with p len show "screen_ok (cga_put c s)"
    by (auto simp: screen_ok_def cga_put_def Let_def length_scroll)
qed

section \<open>Frame rules\<close>

lemma cons_frame [simp]:
  "panicked (acquired l s) = panicked s"
  "cons_locking (acquired l s) = cons_locking s"
  "input (acquired l s) = input s"
  "crt (acquired l s) = crt s"
  "crt_pos (acquired l s) = crt_pos s"
  "serial (acquired l s) = serial s"
  "panicked (noted s) = panicked s"
  "cons_locking (noted s) = cons_locking s"
  "input (noted s) = input s"
  "crt (noted s) = crt s"
  "crt_pos (noted s) = crt_pos s"
  "serial (noted s) = serial s"
  by (simp_all add: acquired_def pushed_def noted_def set_cpu_def set_lock_def)

lemma cons_commute [simp]:
  "panicked_update u0 (acquired l s) = acquired l (panicked_update u0 s)"
  "cons_locking_update u1 (acquired l s) = acquired l (cons_locking_update u1 s)"
  "input_update u2 (acquired l s) = acquired l (input_update u2 s)"
  "crt_update u3 (acquired l s) = acquired l (crt_update u3 s)"
  "crt_pos_update u4 (acquired l s) = acquired l (crt_pos_update u4 s)"
  "serial_update u5 (acquired l s) = acquired l (serial_update u5 s)"
  "panicked_update u0 (noted s) = noted (panicked_update u0 s)"
  "cons_locking_update u1 (noted s) = noted (cons_locking_update u1 s)"
  "input_update u2 (noted s) = noted (input_update u2 s)"
  "crt_update u3 (noted s) = noted (crt_update u3 s)"
  "crt_pos_update u4 (noted s) = noted (crt_pos_update u4 s)"
  "serial_update u5 (noted s) = noted (serial_update u5 s)"
  by (simp_all add: acquired_def pushed_def noted_def set_cpu_def set_lock_def cur_def)

lemma cons_context [simp]:
  "cur (panicked_update u0 s) = cur s"
  "cpu_ok (panicked_update u0 s) = cpu_ok s"
  "free_lock l (panicked_update u0 s) = free_lock l s"
  "held_here l (panicked_update u0 s) = held_here l s"
  "cur (cons_locking_update u1 s) = cur s"
  "cpu_ok (cons_locking_update u1 s) = cpu_ok s"
  "free_lock l (cons_locking_update u1 s) = free_lock l s"
  "held_here l (cons_locking_update u1 s) = held_here l s"
  "cur (input_update u2 s) = cur s"
  "cpu_ok (input_update u2 s) = cpu_ok s"
  "free_lock l (input_update u2 s) = free_lock l s"
  "held_here l (input_update u2 s) = held_here l s"
  "cur (crt_update u3 s) = cur s"
  "cpu_ok (crt_update u3 s) = cpu_ok s"
  "free_lock l (crt_update u3 s) = free_lock l s"
  "held_here l (crt_update u3 s) = held_here l s"
  "cur (crt_pos_update u4 s) = cur s"
  "cpu_ok (crt_pos_update u4 s) = cpu_ok s"
  "free_lock l (crt_pos_update u4 s) = free_lock l s"
  "held_here l (crt_pos_update u4 s) = held_here l s"
  "cur (serial_update u5 s) = cur s"
  "cpu_ok (serial_update u5 s) = cpu_ok s"
  "free_lock l (serial_update u5 s) = free_lock l s"
  "held_here l (serial_update u5 s) = held_here l s"
  by (simp_all add: cur_def cpu_ok_def free_lock_def held_here_def)

lemma cons_ops [simp]:
  "panicked (set_proc i g s) = panicked s"
  "panicked (slept p c s) = panicked s"
  "panicked (woken p s) = panicked s"
  "panicked (settled s) = panicked s"
  "panicked (kfreed a s) = panicked s"
  "panicked (kalloced s) = panicked s"
  "panicked (set_cpu i h s) = panicked s"
  "cons_locking (set_proc i g s) = cons_locking s"
  "cons_locking (slept p c s) = cons_locking s"
  "cons_locking (woken p s) = cons_locking s"
  "cons_locking (settled s) = cons_locking s"
  "cons_locking (kfreed a s) = cons_locking s"
  "cons_locking (kalloced s) = cons_locking s"
  "cons_locking (set_cpu i h s) = cons_locking s"
  "input (set_proc i g s) = input s"
  "input (slept p c s) = input s"
  "input (woken p s) = input s"
  "input (settled s) = input s"
  "input (kfreed a s) = input s"
  "input (kalloced s) = input s"
  "input (set_cpu i h s) = input s"
  "crt (set_proc i g s) = crt s"
  "crt (slept p c s) = crt s"
  "crt (woken p s) = crt s"
  "crt (settled s) = crt s"
  "crt (kfreed a s) = crt s"
  "crt (kalloced s) = crt s"
  "crt (set_cpu i h s) = crt s"
  "crt_pos (set_proc i g s) = crt_pos s"
  "crt_pos (slept p c s) = crt_pos s"
  "crt_pos (woken p s) = crt_pos s"
  "crt_pos (settled s) = crt_pos s"
  "crt_pos (kfreed a s) = crt_pos s"
  "crt_pos (kalloced s) = crt_pos s"
  "crt_pos (set_cpu i h s) = crt_pos s"
  "serial (set_proc i g s) = serial s"
  "serial (slept p c s) = serial s"
  "serial (woken p s) = serial s"
  "serial (settled s) = serial s"
  "serial (kfreed a s) = serial s"
  "serial (kalloced s) = serial s"
  "serial (set_cpu i h s) = serial s"
  by (simp_all add: set_proc_def slept_def woken_def settled_def kfreed_def kalloced_def set_cpu_def)

lemma cons_kept [simp]:
  "curproc (panicked_update u0 s) = curproc s"
  "proc_ctx p (panicked_update u0 s) = proc_ctx p s"
  "kmem_ready (panicked_update u0 s) = kmem_ready s"
  "kmem_inv (panicked_update u0 s) xs = kmem_inv s xs"
  "curproc (cons_locking_update u1 s) = curproc s"
  "proc_ctx p (cons_locking_update u1 s) = proc_ctx p s"
  "kmem_ready (cons_locking_update u1 s) = kmem_ready s"
  "kmem_inv (cons_locking_update u1 s) xs = kmem_inv s xs"
  "curproc (input_update u2 s) = curproc s"
  "proc_ctx p (input_update u2 s) = proc_ctx p s"
  "kmem_ready (input_update u2 s) = kmem_ready s"
  "kmem_inv (input_update u2 s) xs = kmem_inv s xs"
  "curproc (crt_update u3 s) = curproc s"
  "proc_ctx p (crt_update u3 s) = proc_ctx p s"
  "kmem_ready (crt_update u3 s) = kmem_ready s"
  "kmem_inv (crt_update u3 s) xs = kmem_inv s xs"
  "curproc (crt_pos_update u4 s) = curproc s"
  "proc_ctx p (crt_pos_update u4 s) = proc_ctx p s"
  "kmem_ready (crt_pos_update u4 s) = kmem_ready s"
  "kmem_inv (crt_pos_update u4 s) xs = kmem_inv s xs"
  "curproc (serial_update u5 s) = curproc s"
  "proc_ctx p (serial_update u5 s) = proc_ctx p s"
  "kmem_ready (serial_update u5 s) = kmem_ready s"
  "kmem_inv (serial_update u5 s) xs = kmem_inv s xs"
  by (simp_all add: curproc_def proc_ctx_def kmem_ready_def kmem_inv_def cur_def cpu_ok_def free_lock_def)

section \<open>Output keeps the cursor on the screen\<close>

definition cons_run :: "'a cons_state_scheme \<Rightarrow> bool" where
  "cons_run s \<longleftrightarrow> screen_ok s \<and> panicked s = 0"

text \<open>\<open>t\<close> is \<open>s\<close> with something more on the screen and sent out.\<close>

definition shown :: "'a cons_state_scheme \<Rightarrow> 'a cons_state_scheme \<Rightarrow> bool" where
  "shown s t \<longleftrightarrow> cons_run t \<and> (\<exists>x y z. t = s\<lparr>crt := x, crt_pos := y, serial := z\<rparr>)"

lemma shown_refl: "cons_run s \<Longrightarrow> shown s s"
  unfolding shown_def by (intro conjI exI [of _ "crt s"] exI [of _ "crt_pos s"] exI [of _ "serial s"]) simp_all

lemma shown_trans: "shown s t \<Longrightarrow> shown t u \<Longrightarrow> shown s u"
  unfolding shown_def by auto (intro exI, rule refl)

lemma shown_run: "shown s t \<Longrightarrow> cons_run t"
  by (simp add: shown_def)

lemma cons_run_acquired [simp]: "cons_run (acquired l s) = cons_run s" "cons_run (noted s) = cons_run s"
  by (simp_all add: cons_run_def screen_ok_def)

lemma shown_acquired: "shown (acquired l s) t \<Longrightarrow> \<exists>u. t = acquired l u \<and> shown s u"
  unfolding shown_def by fastforce

lemma cga_put_frame: "cga_put c s = s\<lparr>crt := crt (cga_put c s), crt_pos := crt_pos (cga_put c s)\<rparr>"
  by (simp add: cga_put_def Let_def)

lemma consputc_wp:
  assumes "cons_run s" and "\<And>t. shown s t \<Longrightarrow> Q () t"
  shows "wp (consputc c) Q s"
proof -
  let ?b = "if c = BACKSPACE then [8, 32, 8] else [ucast c]"
  let ?s = "s\<lparr>serial := serial s @ ?b\<rparr>"
  have ok: "screen_ok ?s" using assms(1) by (simp add: cons_run_def screen_ok_def)
  have run: "consputc c s env = Ok () (cga_put c ?s) env" for env
    using assms(1) cgaputc_eval(1) [OF ok]
    by (cases "c = BACKSPACE") (simp_all add: consputc_def kmonad cons_run_def uartputc_def)
  have "panicked (cga_put c ?s) = 0" using assms(1) by (simp add: cga_put_def Let_def cons_run_def)
  moreover have "cga_put c ?s = s\<lparr>crt := crt (cga_put c ?s), crt_pos := crt_pos (cga_put c ?s), serial := serial s @ ?b\<rparr>"
    by (subst cga_put_frame) simp
  then have "\<exists>x y z. cga_put c ?s = s\<lparr>crt := x, crt_pos := y, serial := z\<rparr>" by blast
  ultimately have "shown s (cga_put c ?s)"
    using cgaputc_eval(2) [OF ok] by (simp add: shown_def cons_run_def)
  with run assms(2) show ?thesis by (intro wp_eval)
qed

lemma consputc_all:
  assumes "cons_run s" and "\<And>t. shown s t \<Longrightarrow> Q () t"
  shows "wp (forK cs (\<lambda>c. consputc (f c))) Q s"
  by (rule wp_forK [where I = "\<lambda>_. shown s"])
    (auto intro: shown_refl assms consputc_wp elim: shown_trans dest: shown_run)

lemma consputc_two:
  assumes "cons_run s" and "\<And>t. shown s t \<Longrightarrow> Q () t"
  shows "wp (block [consputc a, consputc b]) Q s"
  by (auto intro!: wp_then consputc_wp assms elim: shown_trans dest: shown_run)

lemma cprintf_loop_wp:
  fixes s :: "'a cons_state_scheme"
  assumes "cons_run s" and "\<And>t. shown s t \<Longrightarrow> Q () t"
  shows "wp (cprintf_loop fmt args) Q s"
  using assms
proof (induction "length fmt" arbitrary: fmt args s Q rule: less_induct)
  case less
  have rest: "wp (cprintf_loop fmt' args') Q t" if "shown s t" "length fmt' < length fmt" for t fmt' args'
    by (rule less(1) [OF that(2) shown_run [OF that(1)]]) (rule less(3) [OF shown_trans [OF that(1)]])
  note out = wp_then [OF consputc_wp [OF less(2)]] wp_then [OF consputc_all [OF less(2)]]
    wp_then [OF consputc_two [OF less(2)]]
  show ?case
  proof (cases fmt)
    case Nil
    then show ?thesis using less(2,3) by (simp add: shown_refl)
  next
    case fmt: (Cons c cs)
    show ?thesis
    proof (cases cs)
      case Nil
      show ?thesis unfolding fmt Nil cprintf_loop.simps list.case
        by (intro wp_if out rest) (simp_all add: fmt Nil shown_refl less(2,3))
    next
      case (Cons d ds)
      show ?thesis unfolding fmt Cons
        by (subst cprintf_loop.simps(2), unfold list.case printint_def, intro wp_if out rest)
          (simp_all add: fmt Cons)
    qed
  qed
qed


section \<open>A machine with a console\<close>

definition cons_machine :: cons_state where
  "cons_machine = life_state.extend (file_state.extend file_machine (life_state.fields 1))
     (cons_state.fields 1 0 \<lparr>in_buf = replicate INPUT_BUF 0, in_r = 0xFFFFFFFE, in_w = 0xFFFFFFFF, in_e = 0\<rparr>
        (replicate 2000 0x0720) 1919 [])"

lemmas cons_machine_defs = cons_machine_def life_state.defs file_state.defs cons_state.defs

lemma cons_machine_kept:
  "cpus cons_machine = cpus file_machine" "ncpu cons_machine = ncpu file_machine"
  "lapicid cons_machine = lapicid file_machine" "FL_IF cons_machine = FL_IF file_machine"
  "locks cons_machine = locks file_machine" "ptable cons_machine = ptable file_machine"
  by (simp_all add: cons_machine_defs)

lemma cons_machine_ctx: "cpu_ok cons_machine" "free_lock l cons_machine" "proc_ctx 1 cons_machine"
  using file_machine_ctx unfolding cpu_ok_def cur_def curproc_def free_lock_def proc_ctx_def cons_machine_kept
  by blast+

lemma cons_machine_screen: "screen_ok cons_machine" "panicked cons_machine = 0" "cons_locking cons_machine = 1"
  by (simp_all add: screen_ok_def cons_machine_defs)


end
