(* ===== verification/Line.thy ===== *)
theory Line
  imports Console
begin

text \<open>
  The line discipline of the console: what \<open>consoleintr\<close> makes of the characters typed and what
  \<open>consoleread\<close> hands out.  The three counters of \<open>input\<close> cut the circular buffer into the complete lines
  nobody has read yet and the line being edited; \<open>consoleintr\<close> is shown to implement an editor on
  these two strings.
\<close>

section \<open>The input buffer\<close>

definition keys :: "input_t \<Rightarrow> byte list" where
  "keys i = ring_bytes INPUT_BUF (in_buf i) (in_r i) (in_e i)"

definition complete :: "input_t \<Rightarrow> nat" where
  "complete i = unat (in_w i - in_r i)"

definition full_lines :: "input_t \<Rightarrow> byte list" where
  "full_lines i = take (complete i) (keys i)"

definition edit_line :: "input_t \<Rightarrow> byte list" where
  "edit_line i = drop (complete i) (keys i)"

definition input_ok :: "input_t \<Rightarrow> bool" where
  "input_ok i \<longleftrightarrow> length (in_buf i) = INPUT_BUF \<and> complete i \<le> length (keys i) \<and> length (keys i) \<le> INPUT_BUF"

lemma ring_bytes_unpush:
  assumes "r \<noteq> w"
  shows "ring_bytes N d r (w - 1) = butlast (ring_bytes N d r w)"
    and "N dvd 2 ^ 32 \<Longrightarrow> last (ring_bytes N d r w) = d ! (unat (w - 1) mod N)"
proof -
  have ne: "w - r \<noteq> 0" using assms by simp
  have e: "w - 1 - r = w - r - 1" by simp
  have "unat (w - 1 - r) = unat (w - r) - 1" unfolding e by (rule unat_minus_one [OF ne])
  moreover have "0 < unat (w - r)" using ne unat_gt_0 by blast
  ultimately have n: "unat (w - r) = Suc (unat (w - 1 - r))" by linarith
  show "ring_bytes N d r (w - 1) = butlast (ring_bytes N d r w)"
    unfolding ring_bytes_def n by simp
  show "last (ring_bytes N d r w) = d ! (unat (w - 1) mod N)" if "N dvd 2 ^ 32"
    unfolding ring_bytes_def n using unat_plus_mod [OF that, of r "w - 1 - r"] by simp
qed

lemma input_buf_dvd: "INPUT_BUF dvd 2 ^ 32"
  by (simp add: INPUT_BUF_def)

lemma edit_line_empty: "input_ok i \<Longrightarrow> edit_line i = [] \<longleftrightarrow> in_e i = in_w i"
proof -
  assume ok: "input_ok i"
  then have "edit_line i = [] \<longleftrightarrow> unat (in_e i - in_r i) = unat (in_w i - in_r i)"
    by (auto simp: edit_line_def input_ok_def keys_def complete_def)
  also have "\<dots> \<longleftrightarrow> in_e i = in_w i" by (simp add: word_unat_eq_iff [symmetric])
  finally show ?thesis .
qed

text \<open>The three changes of the buffer: a character erased, a character added, the line finished.\<close>

lemma input_back:
  assumes ok: "input_ok i" and "in_e i \<noteq> in_w i"
  defines "j \<equiv> in_e_update (\<lambda>e. e - 1) i"
  shows "input_ok j" "full_lines j = full_lines i" "edit_line j = butlast (edit_line i)"
    "in_at i (in_e i - 1) = last (edit_line i)"
proof -
  have lt: "complete i < length (keys i)"
    using assms edit_line_empty [OF ok] by (auto simp: edit_line_def input_ok_def)
  then have ne: "in_r i \<noteq> in_e i" by (auto simp: keys_def)
  have k: "keys j = butlast (keys i)" and c: "complete j = complete i"
    using ring_bytes_unpush(1) [OF ne] by (simp_all add: keys_def complete_def j_def)
  show "input_ok j" using ok lt by (auto simp: input_ok_def k c) (simp add: j_def)
  show "full_lines j = full_lines i" using lt by (simp add: full_lines_def k c butlast_conv_take)
  show "edit_line j = butlast (edit_line i)" using lt by (simp add: edit_line_def k c butlast_drop)
  show "in_at i (in_e i - 1) = last (edit_line i)"
    using ring_bytes_unpush(2) [OF ne input_buf_dvd] lt
    by (simp add: in_at_def edit_line_def) (simp add: keys_def)
qed

lemma input_put:
  fixes c :: byte
  assumes ok: "input_ok i" and "length (keys i) < INPUT_BUF"
  defines "j \<equiv> i\<lparr>in_buf := (in_buf i)[unat (in_e i) mod INPUT_BUF := c], in_e := in_e i + 1\<rparr>"
  shows "input_ok j" "full_lines j = full_lines i" "edit_line j = edit_line i @ [c]"
proof -
  have k: "keys j = keys i @ [c]" and n: "complete j = complete i"
    using ring_bytes_push [OF input_buf_dvd, of "in_buf i" "in_e i" "in_r i" c] assms(1,2)
    by (simp_all add: keys_def complete_def j_def input_ok_def INPUT_BUF_def)
  show "input_ok j" "full_lines j = full_lines i" "edit_line j = edit_line i @ [c]"
    using assms(1,2) unfolding input_ok_def full_lines_def edit_line_def k n by (simp_all add: j_def)
qed

lemma input_finish:
  assumes "input_ok i"
  defines "j \<equiv> i\<lparr>in_w := in_e i\<rparr>"
  shows "input_ok j" "full_lines j = full_lines i @ edit_line i" "edit_line j = []"
  using assms by (simp_all add: input_ok_def full_lines_def edit_line_def keys_def complete_def)

lemma keys_lines: "input_ok i \<Longrightarrow> length (keys i) = length (full_lines i) + length (edit_line i)"
  by (simp add: full_lines_def edit_line_def input_ok_def)

section \<open>The editor\<close>

text \<open>
  The specification: the complete lines and the line being edited.  Control-U erases the line,
  back to a newline that is still in it; a newline, control-D or a full buffer complete it.
\<close>

definition erase_line :: "byte list \<Rightarrow> byte list" where
  "erase_line cs = rev (dropWhile (\<lambda>c. c \<noteq> 10) (rev cs))"

definition edit :: "cint \<Rightarrow> byte list \<times> byte list \<Rightarrow> byte list \<times> byte list" where
  "edit c = (\<lambda>(ls, line).
     if c = ctrl CHR ''P'' then (ls, line)
     else if c = ctrl CHR ''U'' then (ls, erase_line line)
     else if c = ctrl CHR ''H'' \<or> c = 0x7F then (ls, butlast line)
     else if c = 0 \<or> INPUT_BUF \<le> length ls + length line then (ls, line)
     else let d = (if c = 13 then newline else c); line' = line @ [ucast d] in
       if d = newline \<or> d = ctrl CHR ''D'' \<or> length ls + length line' = INPUT_BUF
       then (ls @ line', []) else (ls, line'))"

text \<open>The state inside \<open>consoleintr\<close>, without the lock it holds.\<close>

definition keyed :: "'a cons_state_scheme \<Rightarrow> byte list \<times> byte list \<Rightarrow> 'a cons_state_scheme \<Rightarrow> bool" where
  "keyed s v u \<longleftrightarrow> cpu_ok u \<and> free_lock ConsLock u \<and> free_lock PtableLock u \<and> cons_run u \<and>
     input_ok (input u) \<and> in_r (input u) = in_r (input s) \<and> v = (full_lines (input u), edit_line (input u)) \<and>
     length (full_lines (input s)) \<le> length (fst v) \<and>
     ptable u = (if length (fst v) = length (full_lines (input s)) then ptable s else map (wake ChanInput) (ptable s))"

lemma erase_line_step:
  "erase_line [] = []"
  "cs \<noteq> [] \<Longrightarrow> erase_line cs = (if last cs = 10 then cs else erase_line (butlast cs))"
  unfolding erase_line_def by (cases cs rule: rev_cases; simp)+

lemma keyed_consputc:
  assumes "keyed s v u" "\<And>x. keyed s v x \<Longrightarrow> Q () (acquired ConsLock x)"
  shows "wp (consputc c) Q (acquired ConsLock u)"
proof (rule consputc_wp)
  show "cons_run (acquired ConsLock u)" using assms(1) by (simp add: keyed_def)
  fix t assume "shown (acquired ConsLock u) t"
  then obtain x where x: "t = acquired ConsLock x" "shown u x" using shown_acquired by blast
  then have "keyed s v x" using assms(1) by (auto simp: keyed_def shown_def)
  with x(1) assms(2) show "Q () t" by blast
qed

declare thenK_ret_unit [simp]

lemma set_input_acquired [simp]: "set_input f (acquired l s) = acquired l (set_input f s)"
  by (simp add: set_input_def)

lemma keyed_input:
  assumes "keyed s (ls, line) u" "input_ok (f (input u))" "in_r (f (input u)) = in_r (input u)"
    and "full_lines (f (input u)) = ls" "edit_line (f (input u)) = line'"
  shows "keyed s (ls, line') (set_input f u)"
  using assms by (auto simp: keyed_def set_input_def cons_run_def screen_ok_def)

lemma keyed_back:
  assumes "keyed s (ls, line) u" "line \<noteq> []"
  shows "keyed s (ls, butlast line) (set_input (in_e_update (\<lambda>e. e - 1)) u)"
    and "in_at (input u) (in_e (input u) - 1) = last line"
proof -
  have u: "input_ok (input u)" "ls = full_lines (input u)" "line = edit_line (input u)"
    using assms(1) by (simp_all add: keyed_def)
  then have "in_e (input u) \<noteq> in_w (input u)" using assms(2) edit_line_empty by blast
  from input_back [OF u(1) this] u assms(1)
  show "keyed s (ls, butlast line) (set_input (in_e_update (\<lambda>e. e - 1)) u)"
    and "in_at (input u) (in_e (input u) - 1) = last line" by (auto intro: keyed_input)
qed

lemma keyed_empty: "keyed s (ls, line) u \<Longrightarrow> in_e (input u) = in_w (input u) \<longleftrightarrow> line = []"
  using edit_line_empty [of "input u"] by (auto simp: keyed_def)

lemma kill_line_wp:
  assumes "keyed s (ls, line) u" "length line = n"
    and "\<And>x. keyed s (ls, erase_line line) x \<Longrightarrow> Q () (acquired ConsLock x)"
  shows "wp (kill_line n) Q (acquired ConsLock u)"
  using assms
proof (induction n arbitrary: line u)
  case 0
  then show ?case by (simp add: erase_line_step)
next
  case (Suc n)
  then have ne: "line \<noteq> []" by auto
  show ?case
  proof (cases "last line = 10")
    case True
    then show ?thesis
      using Suc.prems keyed_empty [OF Suc.prems(1)] keyed_back [OF Suc.prems(1) ne] erase_line_step(2) [OF ne]
      by (simp add: whenK_def)
  next
    case False
    have "wp (kill_line n) Q (acquired ConsLock x)" if "keyed s (ls, butlast line) x" for x
      using Suc.prems(2,3) False erase_line_step(2) [OF ne] by (intro Suc.IH [OF that]) simp_all
    then have "wp (thenK (consputc BACKSPACE) (kill_line n)) Q
        (acquired ConsLock (set_input (in_e_update (\<lambda>e. e - 1)) u))"
      by (intro wp_then keyed_consputc [OF keyed_back(1) [OF Suc.prems(1) ne]]) simp
    then show ?thesis
      using False ne keyed_empty [OF Suc.prems(1)] keyed_back(2) [OF Suc.prems(1) ne] by (simp add: whenK_def)
  qed
qed

lemma wake_wake: "map (wake c) (map (wake c) ps) = map (wake c) ps"
  by (simp add: wake_def)

text \<open>A finished line: everything typed is readable, and the readers are awake.\<close>

lemma finish_wp:
  assumes "keyed s (ls, line) u" "line \<noteq> []"
    and "\<And>x. keyed s (ls @ line, []) x \<Longrightarrow> Q () (acquired ConsLock x)"
  shows "wp (block [modify (set_input (\<lambda>i. i\<lparr>in_w := in_e i\<rparr>)), wakeup ChanInput]) Q (acquired ConsLock u)"
proof -
  let ?u = "set_input (\<lambda>i. i\<lparr>in_w := in_e i\<rparr>) u"
  let ?x = "?u\<lparr>ptable := map (wake ChanInput) (ptable ?u)\<rparr>"
  have u: "cpu_ok u" "free_lock PtableLock u" "input_ok (input u)" using assms(1) by (simp_all add: keyed_def)
  have "keyed s (ls @ line, []) ?x"
    using assms(1,2) input_finish [OF u(3)] wake_wake
    by (auto simp: keyed_def set_input_def cons_run_def screen_ok_def)
  moreover have "wakeup ChanInput (acquired ConsLock ?u) env = Ok () (acquired ConsLock ?x) env" for env
    using u by (simp add: set_input_def)
  ultimately show ?thesis using assms(3) by (auto intro: wp_eval)
qed

lemma keyed_full:
  assumes "keyed s (ls, line) u"
  shows "in_e (input u) = in_r (input u) + of_nat INPUT_BUF \<longleftrightarrow> length ls + length line = INPUT_BUF"
    and "in_e (input u) - in_r (input u) < of_nat INPUT_BUF \<longleftrightarrow> length ls + length line < INPUT_BUF"
proof -
  have len: "length ls + length line = unat (in_e (input u) - in_r (input u))"
    using assms keys_lines [of "input u"] by (simp add: keyed_def keys_def)
  have "in_e (input u) = in_r (input u) + 128 \<longleftrightarrow> in_e (input u) - in_r (input u) = 128" by (auto simp: algebra_simps)
  then show "in_e (input u) = in_r (input u) + of_nat INPUT_BUF \<longleftrightarrow> length ls + length line = INPUT_BUF"
    unfolding len by (simp add: INPUT_BUF_def word_unat_eq_iff)
  show "in_e (input u) - in_r (input u) < of_nat INPUT_BUF \<longleftrightarrow> length ls + length line < INPUT_BUF"
    unfolding len by (simp add: INPUT_BUF_def word_less_nat_alt)
qed

lemma put_char_wp:
  fixes d :: cint
  assumes u: "keyed s (ls, line) u" "length ls + length line < INPUT_BUF"
    and post: "\<And>x. keyed s (if d = newline \<or> d = ctrl CHR ''D'' \<or> length ls + length (line @ [ucast d]) = INPUT_BUF
        then (ls @ line @ [ucast d], []) else (ls, line @ [ucast d])) x \<Longrightarrow> Q () (acquired ConsLock x)"
  shows "wp (block
     [modify (set_input (\<lambda>i. i\<lparr>in_buf := (in_buf i)[unat (in_e i) mod INPUT_BUF := ucast d], in_e := in_e i + 1\<rparr>)),
      consputc d,
      bindK (gets input) (\<lambda>i.
        whenK (d = newline \<or> d = ctrl CHR ''D'' \<or> in_e i = in_r i + of_nat INPUT_BUF) (block
          [modify (set_input (\<lambda>i. i\<lparr>in_w := in_e i\<rparr>)), wakeup ChanInput]))]) Q (acquired ConsLock u)"
proof -
  let ?f = "\<lambda>i. i\<lparr>in_buf := (in_buf i)[unat (in_e i) mod INPUT_BUF := ucast d], in_e := in_e i + 1\<rparr>"
  have ok: "input_ok (input u)" "length (keys (input u)) < INPUT_BUF"
    using u keys_lines [of "input u"] by (simp_all add: keyed_def)
  have put: "keyed s (ls, line @ [ucast d]) (set_input ?f u)"
    using u(1) input_put [OF ok] by (intro keyed_input [OF u(1)]) (simp_all add: keyed_def)
  have rest: "wp (bindK (gets input) (\<lambda>i.
        whenK (d = newline \<or> d = ctrl CHR ''D'' \<or> in_e i = in_r i + of_nat INPUT_BUF) (block
          [modify (set_input (\<lambda>i. i\<lparr>in_w := in_e i\<rparr>)), wakeup ChanInput]))) Q (acquired ConsLock x)"
    if x: "keyed s (ls, line @ [ucast d]) x" for x
    unfolding wp_bind_simps
  proof (rule wp_when)
    note cond = keyed_full(1) [OF x]
    { assume "d = newline \<or> d = ctrl CHR ''D'' \<or> in_e (input (acquired ConsLock x)) =
        in_r (input (acquired ConsLock x)) + of_nat INPUT_BUF"
      then show "wp (block [modify (set_input (\<lambda>i. i\<lparr>in_w := in_e i\<rparr>)), wakeup ChanInput]) Q (acquired ConsLock x)"
        using cond by (intro finish_wp [OF x]) (auto intro: post) }
    assume "\<not> (d = newline \<or> d = ctrl CHR ''D'' \<or> in_e (input (acquired ConsLock x)) =
        in_r (input (acquired ConsLock x)) + of_nat INPUT_BUF)"
    with cond x show "Q () (acquired ConsLock x)" by (intro post) simp
  qed
  show ?thesis
    by (simp only: block.simps thenK_ret_unit wp_bind_simps set_input_acquired)
      (intro wp_then keyed_consputc [OF put] rest [unfolded block.simps thenK_ret_unit])
qed

lemma keyed_length: "keyed s (ls, line) u \<Longrightarrow> unat (in_e (input u) - in_w (input u)) = length line"
proof -
  let ?i = "input u"
  assume "keyed s (ls, line) u"
  then have le: "unat (in_w ?i - in_r ?i) \<le> unat (in_e ?i - in_r ?i)"
    and len: "length line = unat (in_e ?i - in_r ?i) - unat (in_w ?i - in_r ?i)"
    by (auto simp: keyed_def input_ok_def edit_line_def complete_def keys_def)
  have e: "in_e ?i - in_w ?i = (in_e ?i - in_r ?i) - (in_w ?i - in_r ?i)" by simp
  show ?thesis unfolding e len using le by (intro unat_sub) (simp add: word_le_nat_alt)
qed

lemma console_char_wp:
  assumes "keyed s (ls, line) u"
    and "\<And>x. keyed s (edit c (ls, line)) x \<Longrightarrow> Q () (acquired ConsLock x)"
  shows "wp (console_char c) Q (acquired ConsLock u)"
proof -
  consider "c = ctrl CHR ''P''" | "c = ctrl CHR ''U''" "c \<noteq> ctrl CHR ''P''"
    | "c = ctrl CHR ''H'' \<or> c = 0x7F" "c \<noteq> ctrl CHR ''P''" "c \<noteq> ctrl CHR ''U''"
    | "c \<noteq> ctrl CHR ''P''" "c \<noteq> ctrl CHR ''U''" "\<not> (c = ctrl CHR ''H'' \<or> c = 0x7F)" by blast
  then show ?thesis
  proof cases
    case 1
    then show ?thesis using assms by (simp add: console_char_def edit_def)
  next
    case 2
    then have "edit c (ls, line) = (ls, erase_line line)" by (simp add: edit_def)
    with 2 keyed_length [OF assms(1)] assms(2) show ?thesis
      by (simp add: console_char_def kill_line_wp [OF assms(1)])
  next
    case 3
    then have e: "edit c (ls, line) = (ls, butlast line)" by (simp add: edit_def)
    show ?thesis
    proof (cases "line = []")
      case True
      with 3 e assms keyed_empty [OF assms(1)] show ?thesis by (simp add: console_char_def whenK_def)
    next
      case False
      have "wp (consputc BACKSPACE) Q (acquired ConsLock (set_input (in_e_update (\<lambda>e. e - 1)) u))"
        using assms(2) e by (intro keyed_consputc [OF keyed_back(1) [OF assms(1) False]]) simp
      with 3 False keyed_empty [OF assms(1)] show ?thesis by (simp add: console_char_def whenK_def)
    qed
  next
    case 4
    show ?thesis
    proof (cases "c \<noteq> 0 \<and> length ls + length line < INPUT_BUF")
      case True
      with 4 assms(2) have post: "Q () (acquired ConsLock x)"
        if "keyed s (let d = if c = 13 then newline else c in
          if d = newline \<or> d = ctrl CHR ''D'' \<or> length ls + length (line @ [ucast d]) = INPUT_BUF
          then (ls @ line @ [ucast d], []) else (ls, line @ [ucast d])) x" for x
        using that by (simp add: edit_def Let_def)
      have "wp (put_input c) Q (acquired ConsLock u)"
        unfolding put_input_def wp_bind_simps bindK_ret cons_frame using True keyed_full(2) [OF assms(1)]
        by (intro wp_when put_char_wp [OF assms(1)] post) (simp_all only: Let_def simp_thms)
      with 4 show ?thesis by (simp add: console_char_def)
    next
      case False
      with 4 have "edit c (ls, line) = (ls, line)" by (auto simp: edit_def)
      with False assms keyed_full(2) [OF assms(1)] have "wp (put_input c) Q (acquired ConsLock u)"
        unfolding put_input_def wp_bind_simps cons_frame by (intro wp_when) auto
      with 4 show ?thesis by (simp add: console_char_def)
    qed
  qed
qed

section \<open>Typing\<close>

lemma edit_grows: "\<exists>zs. fst (fold edit cs v) = fst v @ zs"
proof (induction cs arbitrary: v)
  case (Cons c cs)
  have "\<exists>xs. fst (edit c v) = fst v @ xs" by (cases v) (simp add: edit_def Let_def)
  with Cons [of "edit c v"] show ?case by auto
qed simp

text \<open>
  C34.  \<open>consoleintr\<close> implements the line editor.  Whatever characters arrive, it returns, the complete
  lines and the line being edited become what \<open>edit\<close> makes of them, character by character; the
  counters stay within the buffer, the reader's position does not move, output stays on the screen, and the
  processes waiting for input are awake exactly when a line was completed.
\<close>

theorem consoleintr_edits:
  fixes s :: "'a cons_state_scheme"
  assumes "cpu_ok s" "free_lock ConsLock s" "free_lock PtableLock s" "screen_ok s" "panicked s = 0"
    and "input_ok (input s)"
  shows "\<exists>t. consoleintr cs s env = Ok () t env \<and> input_ok (input t) \<and> in_r (input t) = in_r (input s) \<and>
    (full_lines (input t), edit_line (input t)) = fold edit cs (full_lines (input s), edit_line (input s)) \<and>
    ptable t = (if full_lines (input t) = full_lines (input s) then ptable s else map (wake ChanInput) (ptable s)) \<and>
    screen_ok t \<and> panicked t = 0 \<and> free_lock ConsLock t"
proof -
  let ?v = "(full_lines (input s), edit_line (input s))"
  define I where "I k t \<longleftrightarrow> (\<exists>u. t = acquired ConsLock u \<and> keyed s (fold edit (take k cs) ?v) u)" for k t
  have "keyed s ?v s" using assms by (simp add: keyed_def cons_run_def)
  then have I0: "I 0 (acquired ConsLock s)" by (auto simp: I_def)
  have "wp (forK cs console_char) (\<lambda>_. I (length cs)) (acquired ConsLock s)"
  proof (rule wp_forK [where I = I])
    fix k t assume k: "k < length cs" and "I k t"
    then obtain u where u: "t = acquired ConsLock u" "keyed s (fold edit (take k cs) ?v) u" by (auto simp: I_def)
    obtain ls line where v: "fold edit (take k cs) ?v = (ls, line)" by fastforce
    have "fold edit (take (Suc k) cs) ?v = edit (cs ! k) (ls, line)"
      using v k by (simp add: take_Suc_conv_app_nth)
    then show "wp (console_char (cs ! k)) (\<lambda>_. I (Suc k)) t"
      using u v by (auto intro!: console_char_wp simp: I_def)
  qed (use I0 in auto)
  then obtain u where run: "forK cs console_char (acquired ConsLock s) env = Ok () (acquired ConsLock u) env"
    and u: "keyed s (fold edit cs ?v) u"
    using wp_Ok [of "forK cs console_char" _ _ env] by (fastforce simp: I_def)
  obtain zs where grow: "fst (fold edit cs ?v) = full_lines (input s) @ zs" using edit_grows by fastforce
  have "consoleintr cs s env = Ok () (noted u) env"
    using run u assms by (simp add: consoleintr_def kmonad keyed_def)
  with u grow show ?thesis by (intro exI [of _ "noted u"]) (auto simp: keyed_def cons_run_def screen_ok_def)
qed

text \<open>Witness: a newline ends a line whose first character was typed before a wrong one was erased.\<close>

lemma cons_machine_input: "input_ok (input cons_machine)"
  by (simp add: input_ok_def keys_def complete_def cons_machine_defs INPUT_BUF_def)

theorem consoleintr_edits_witness:
  "\<exists>t. consoleintr [120, ctrl CHR ''H'', 121, 13] cons_machine [] = Ok () t [] \<and>
     full_lines (input t) = full_lines (input cons_machine) @ edit_line (input cons_machine) @ [121, 10] \<and>
     edit_line (input t) = []"
proof -
  have "length (full_lines (input cons_machine)) = 1" "length (edit_line (input cons_machine)) = 1"
    by (simp_all add: full_lines_def edit_line_def keys_def complete_def cons_machine_defs)
  then have "fold edit [120, ctrl CHR ''H'', 121, 13] (full_lines (input cons_machine), edit_line (input cons_machine))
    = (full_lines (input cons_machine) @ edit_line (input cons_machine) @ [121, 10], [])"
    by (simp add: edit_def ctrl_def newline_def INPUT_BUF_def)
  then show ?thesis
    using consoleintr_edits [OF cons_machine_ctx(1,2) cons_machine_ctx(2) cons_machine_screen(1,2) cons_machine_input,
        of "[120, ctrl CHR ''H'', 121, 13]" "[]"] by auto
qed

end
