(* ===== verification/Trap.thy ===== *)
theory Trap
  imports Line
begin

text \<open>
  Traps and the system call table: \<open>trap\<close> of \<open>trap.c\<close>, \<open>syscall\<close> of \<open>syscall.c\<close>, \<open>traps.h\<close> and
  \<open>syscall.h\<close>.  A trap frame lies in memory, with the offsets listed in \<open>Life\<close>.  The disk
  driver is the one of \<open>memide.c\<close>, whose interrupt handler does nothing; the characters an
  interrupt of the keyboard or of the serial line delivers are an argument, and acknowledging
  an interrupt (\<open>lapiceoi\<close>) has no effect on the modelled state.  The messages printed for
  spurious interrupts and faults are left out.
\<close>

unbundle bit_operations_syntax

definition T_SYSCALL :: uint where "T_SYSCALL = 64"
definition T_IRQ0 :: uint where "T_IRQ0 = 32"
definition IRQ_TIMER :: uint where "IRQ_TIMER = 0"
definition IRQ_KBD :: uint where "IRQ_KBD = 1"
definition IRQ_COM1 :: uint where "IRQ_COM1 = 4"
definition IRQ_IDE :: uint where "IRQ_IDE = 14"
definition IRQ_SPURIOUS :: uint where "IRQ_SPURIOUS = 31"

section \<open>System calls\<close>

definition syscalls :: "nat \<Rightarrow> ('a cons_state_scheme, cint) K option" where
  "syscalls num = (if num = 0 \<or> 34 < num then None else Some (
     [sys_fork, sys_exit, sys_wait, sys_pipe, sys_read console_devsw, sys_kill, sys_exec console_devsw,
      sys_fstat, sys_chdir console_devsw, sys_dup, sys_getpid, sys_sbrk, sys_sleep, sys_uptime,
      sys_open console_devsw, sys_write console_devsw, sys_mknod console_devsw, sys_unlink console_devsw,
      sys_link console_devsw, sys_mkdir console_devsw, sys_close, sys_getptable, sys_getppid,
      sys_setpriority, sys_sem_init, sys_sem_destroy, sys_sem_wait, sys_sem_signal, sys_clone, sys_join,
      sys_getscheduler, sys_setscheduler, sys_wait2, sys_yield] ! (num - 1)))"

definition set_eax :: "nat \<Rightarrow> uint \<Rightarrow> 'a proc_state_scheme \<Rightarrow> 'a proc_state_scheme" where
  "set_eax p w = set_tf p 28 w"

definition syscall :: "('a cons_state_scheme, unit) K" where
  "syscall = with_proc (\<lambda>p.
     bindK (gets (\<lambda>s. load32 (mem s) (p_tf (ptable s ! p) + 28))) (\<lambda>num.
     case (if 0 < sint num then syscalls (unat num) else None) of
       Some f \<Rightarrow> bindK f (\<lambda>r. modify (set_eax p r))
     | None \<Rightarrow>
         bindK (gets (\<lambda>s. (p_pid (ptable s ! p), p_name (ptable s ! p)))) (\<lambda>(pid, name). block
           [cprintf (Some (lit ''%d %s: unknown sys call %d'' @ [10]))
              [CInt pid, CStr (Some (takeWhile (\<lambda>c. c \<noteq> 0) name)), CInt num],
            modify (set_eax p (-1))])))"

section \<open>Traps\<close>

text \<open>\<open>myproc() && myproc()->killed && (tf->cs&3) == DPL_USER\<close>, then \<open>exit()\<close>.\<close>

definition tf_cs :: "'a kmem_state_scheme \<Rightarrow> uint \<Rightarrow> 16 word" where
  "tf_cs s tf = ucast (mem s (tf + 60)) OR push_bit 8 (ucast (mem s (tf + 61)))"

definition exit_if_killed :: "uint \<Rightarrow> ('a file_state_scheme, unit) K" where
  "exit_if_killed tf =
     bindK myproc (\<lambda>p. case p of None \<Rightarrow> ret () | Some p \<Rightarrow>
     bindK (gets (\<lambda>s. p_killed (ptable s ! p) \<noteq> 0 \<and> tf_cs s tf AND 3 = 3)) (\<lambda>die. whenK die exit_proc))"

definition tick :: "('a proc_state_scheme, unit) K" where
  "tick = bindK cpuid (\<lambda>c. whenK (c = 0) (block
     [acquire TickLock,
      modify (\<lambda>s. s\<lparr>ticks := ticks s + 1\<rparr>),
      update_statistics,
      wakeup ChanTicks,
      release TickLock]))"

definition trap_default :: "uint \<Rightarrow> ('a cons_state_scheme, unit) K" where
  "trap_default tf =
     bindK myproc (\<lambda>p. bindK (gets (\<lambda>s. tf_cs s tf)) (\<lambda>cs.
     if p = None \<or> cs AND 3 = 0 then panic ''trap''
     else deref p (\<lambda>p. modify (set_proc p (\<lambda>x. x\<lparr>p_killed := 1\<rparr>)))))"

text \<open>Preemption: not under the policies listed as non-preemptive, here only number 2.\<close>

definition NON_PREEMPTIVE_SCHED :: "cint list" where
  "NON_PREEMPTIVE_SCHED = [2]"

text \<open>The loop asks for the policy again in every round.\<close>

fun preemptive :: "cint list \<Rightarrow> ('a sched_state_scheme, bool) K" where
  "preemptive [] = ret True"
| "preemptive (k # ks) = bindK getscheduler (\<lambda>sid. if sid = k then ret False else preemptive ks)"

definition preempt :: "uint \<Rightarrow> ('a sched_state_scheme, unit) K" where
  "preempt trapno =
     bindK myproc (\<lambda>p. case p of None \<Rightarrow> ret () | Some p \<Rightarrow>
     bindK (gets (\<lambda>s. p_state (ptable s ! p) = RUNNING)) (\<lambda>running.
     whenK (running \<and> trapno = T_IRQ0 + IRQ_TIMER) (
       bindK (preemptive NON_PREEMPTIVE_SCHED) (\<lambda>flag. whenK flag yield))))"

definition killed_exit :: "('a file_state_scheme, unit) K" where
  "killed_exit = bindK Pipe.killed (\<lambda>k. whenK k exit_proc)"

definition trap :: "cint list \<Rightarrow> uint \<Rightarrow> ('a cons_state_scheme, unit) K" where
  "trap chars tf =
     bindK (gets (\<lambda>s. load32 (mem s) (tf + 48))) (\<lambda>trapno.
     if trapno = T_SYSCALL then block
       [killed_exit,
        with_proc (\<lambda>p. modify (set_proc p (\<lambda>x. x\<lparr>p_tf := tf\<rparr>))),
        syscall,
        killed_exit]
     else block
       [if trapno = T_IRQ0 + IRQ_TIMER then tick
        else if trapno = T_IRQ0 + IRQ_IDE then ret ()
        else if trapno = T_IRQ0 + IRQ_IDE + 1 then ret ()
        else if trapno = T_IRQ0 + IRQ_KBD then consoleintr chars
        else if trapno = T_IRQ0 + IRQ_COM1 then consoleintr chars
        else if trapno = T_IRQ0 + 7 \<or> trapno = T_IRQ0 + IRQ_SPURIOUS then ret ()
        else trap_default tf,
        exit_if_killed tf,
        preempt trapno,
        exit_if_killed tf])"

end
