(* ===== verification/Preempt.thy ===== *)
theory Preempt
  imports Trap
begin

text \<open>
  The clock: what a timer interrupt does to the tick counter, to the processes and to the running one,
  through \<open>trap\<close>, \<open>update_statistics\<close>, \<open>wakeup\<close>, \<open>getscheduler\<close> and \<open>yield\<close>.
\<close>

definition ticked :: "'a proc_state_scheme \<Rightarrow> 'a proc_state_scheme" where
  "ticked s = (if cur s = 0 then s\<lparr>ticks := ticks s + 1, ptable := map (wake ChanTicks) (map tick_proc (ptable s))\<rparr> else s)"

lemma tick_eval:
  assumes "cpu_ok s" "\<not> FL_IF s" "free_lock TickLock s" "free_lock PtableLock s"
  shows "tick s env = Ok () (if cur s = 0 then noted (ticked s) else s) env"
  using assms by (simp add: tick_def cpuid_def kmonad update_statistics_def ticked_def)

lemma yield_sleeps:
  assumes "proc_ctx p s"
  shows "yield s [] = Asleep (acquired PtableLock (set_proc p (\<lambda>x. x\<lparr>p_state := RUNNABLE\<rparr>) s))"
proof -
  let ?s = "set_proc p (\<lambda>x. x\<lparr>p_state := RUNNABLE\<rparr>) s"
  have "proc_ctx p ?s" "p_state (ptable ?s ! p) \<noteq> RUNNING" using assms by (simp_all add: proc_ctx_def)
  from sched_sleeps [OF this] assms show ?thesis
    by (simp add: yield_def kmonad deref_def proc_ctx_def)
qed

lemma curproc_ticks [simp]: "curproc (ticks_update f s) = curproc s"
  by (simp add: curproc_def)

lemma ticked_simps [simp]:
  "cpu_ok (ticked s) = cpu_ok s" "free_lock l (ticked s) = free_lock l s" "curproc (ticked s) = curproc s"
  "mem (ticked s) = mem s" "cur (ticked s) = cur s" "proc_ctx p (ticked s) = proc_ctx p s"
  by (simp_all add: ticked_def proc_ctx_def)

lemma schd_ticked [simp]: "schd (ticked s) = schd s"
  by (simp add: ticked_def)

lemma running_ticked:
  assumes "p < length (ptable s)" "p_state (ptable s ! p) = RUNNING"
  shows "p_state (ptable (ticked s) ! p) = RUNNING" "p_killed (ptable (ticked s) ! p) = p_killed (ptable s ! p)"
  using assms by (simp_all add: ticked_def wake_def tick_proc_def)

lemma preempt_timer:
  assumes p: "proc_ctx p s" "p_state (ptable s ! p) = RUNNING" and l: "free_lock SchedulerLock s"
  shows "schedSelected (schd s) = 2 \<Longrightarrow> preempt (T_IRQ0 + IRQ_TIMER) s env = Ok () (noted s) env"
    and "schedSelected (schd s) \<noteq> 2 \<Longrightarrow> preempt (T_IRQ0 + IRQ_TIMER) s [] =
      Asleep (acquired PtableLock (set_proc p (\<lambda>x. x\<lparr>p_state := RUNNABLE\<rparr>) (noted s)))"
proof -
  have c: "cpu_ok s" "curproc s = Some p" using p(1) by (simp_all add: proc_ctx_def)
  note e = preempt_def kmonad NON_PREEMPTIVE_SCHED_def getscheduler_def
  show "schedSelected (schd s) = 2 \<Longrightarrow> preempt (T_IRQ0 + IRQ_TIMER) s env = Ok () (noted s) env"
    using c p(2) l by (simp add: e)
  show "schedSelected (schd s) \<noteq> 2 \<Longrightarrow> preempt (T_IRQ0 + IRQ_TIMER) s [] =
      Asleep (acquired PtableLock (set_proc p (\<lambda>x. x\<lparr>p_state := RUNNABLE\<rparr>) (noted s)))"
    using c p(2) l yield_sleeps [OF proc_ctx_noted [OF p(1)]] by (simp add: e)
qed


text \<open>Witness: the second CPU of the machine with a console, at a timer interrupt.\<close>

definition timer_machine :: cons_state where
  "timer_machine = cons_machine\<lparr>FL_IF := False, mem := store32 (mem cons_machine) 48 32\<rparr>"

lemma timer_machine_kept: "ptable timer_machine = init_proc # shell_proc # replicate 62 blank_proc"
  "load32 (mem timer_machine) 48 = 32" "\<not> FL_IF timer_machine" "proc_ctx 1 timer_machine" "free_lock l timer_machine"
proof -
  have "ncli (cpus cons_machine ! cur cons_machine) = 0" using cons_machine_ctx(3) by (simp add: proc_ctx_def)
  then show "proc_ctx 1 timer_machine" "free_lock l timer_machine"
    using cons_machine_ctx(2,3) by (simp_all add: timer_machine_def proc_ctx_def FL_IF_context)
  have "ptable file_machine = init_proc # shell_proc # replicate 62 blank_proc"
    by (simp add: file_machine_defs del: upt_Suc)
  then show "ptable timer_machine = init_proc # shell_proc # replicate 62 blank_proc"
    by (simp add: timer_machine_def cons_machine_kept)
qed (simp_all add: timer_machine_def)

lemma timer_machine_policy: "schedSelected (schd timer_machine) = 0"
  by (simp add: timer_machine_def cons_machine_defs file_machine_defs del: upt_Suc)


end
