(* ===== verification/Tx.thy ===== *)
theory Tx
  imports Fs
begin

text \<open>
  Transactions.  Inside a file system call the routines of \<open>fs.c\<close> see the blocks as a map from block
  numbers to contents (\<open>blk\<close>), which they read and change one block at a time.  \<open>tx p H s\<close>: process
  \<open>p\<close> is inside an operation, holds the buffers of the blocks \<open>H\<close>, and the cache pins exactly the
  blocks that are in the log.  The rules below are those of \<open>bread\<close>, \<open>log_write\<close> and
  \<open>brelse\<close> in such a state; with them the allocator of blocks and the on-disk inodes are verified.
\<close>

section \<open>States inside an operation\<close>

definition tx :: "nat \<Rightarrow> nat set \<Rightarrow> 'a log_state_scheme \<Rightarrow> bool" where
  "tx p H s \<longleftrightarrow> fs_ctx p s \<and> bio_ok s \<and> log_ok (log s) (length (disk s)) \<and> lg_size (log s) = of_nat LOGSIZE \<and>
     0 < sint (lg_outstanding (log s)) \<and> v_held (bview s) = H \<and> v_pinned (bview s) = set (targets (log s))"

text \<open>What a transaction leaves alone.\<close>

definition same_tx :: "'a log_state_scheme \<Rightarrow> 'a log_state_scheme \<Rightarrow> bool" where
  "same_tx s t \<longleftrightarrow> log_rest t = log_rest s \<and> disk t = disk s \<and> lg_start (log t) = lg_start (log s)"

lemma same_tx_refl [simp]: "same_tx s s"
  by (simp add: same_tx_def)

lemma same_tx_trans: "same_tx s t \<Longrightarrow> same_tx t u \<Longrightarrow> same_tx s u"
  by (simp add: same_tx_def)

lemma bview_changed:
  assumes "bview t = w"
  shows "disk t = v_disk w" "blk t = v_blk w" "v_pinned (bview t) = v_pinned w" "v_held (bview t) = v_held w"
  by (simp_all flip: assms)

lemma tx_bread:
  assumes tx: "tx p H s" and bno: "unat bno < length (disk s)" "unat bno \<notin> H"
    and room: "finite H" "card H + nlogged (log s) < LOGSIZE"
    and Q: "\<And>b t. tx p (insert (unat bno) H) t \<Longrightarrow> same_tx s t \<Longrightarrow> log t = log s \<Longrightarrow> blk t = blk s \<Longrightarrow>
      buf_at t b (unat bno) \<Longrightarrow> (\<And>c m. buf_at s c m \<Longrightarrow> c \<noteq> b \<and> buf_at t c m) \<Longrightarrow> Q b t"
  shows "wp (bread 1 bno) Q s"
proof (rule bread_wp [where p = p])
  have lg: "log_ok (log s) (length (disk s))" using tx by (simp add: tx_def)
  have "card (H \<union> set (targets (log s))) \<le> card H + card (set (targets (log s)))" by (rule card_Un_le)
  also have "\<dots> < NBUF"
    using room card_length [of "targets (log s)"] log_okD(2) [OF lg] by (simp add: NBUF_def LOGSIZE_def)
  finally show "unat bno \<in> v_pinned (bview s) \<or> card (v_held (bview s) \<union> v_pinned (bview s)) < NBUF"
    using tx by (simp add: tx_def)
  fix b t assume t: "fs_ctx p t" "bio_ok t" "bio_rest t = bio_rest s" "buf_at t b (unat bno)"
    and v: "bview t = (bview s)\<lparr>v_held := insert (unat bno) (v_held (bview s))\<rparr>"
    and c: "\<And>c m. buf_at s c m \<Longrightarrow> c \<noteq> b \<and> buf_at t c m"
  note v' = bview_changed [OF v, unfolded bview.simps bview_simps]
  show "Q b t"
  proof (rule Q)
    show "tx p (insert (unat bno) H) t"
      using tx t v' rest_log [OF t(3)] by (simp add: tx_def)
    show "same_tx s t" using v' rest_log [OF t(3)] log_rest_bio [OF t(3)] by (simp add: same_tx_def)
  qed (use t v' c rest_log [OF t(3)] in auto)
qed (use assms in \<open>auto simp: tx_def\<close>)

lemma tx_put:
  assumes tx: "tx p H s" and at: "buf_at s b n" and len: "length (f (blk s n)) = BSIZE"
  shows "tx p H (put_data b f s)" "same_tx s (put_data b f s)" "log (put_data b f s) = log s"
    "blk (put_data b f s) = (blk s)(n := f (blk s n))" "buf_at s c m \<Longrightarrow> buf_at (put_data b f s) c m"
proof -
  let ?t = "put_data b f s"
  have ok: "bio_ok s" using tx by (simp add: tx_def)
  have d: "b_data (bufs s ! b) = blk s n" by (rule buf_at_data(1) [OF ok at])
  note P = put_view [OF ok at, of f, unfolded d, OF len]
  note v = bview_changed [OF P(2), unfolded bview.simps bview_simps]
  have r: "bio_rest ?t = bio_rest s" by simp
  have "fs_ctx p ?t" using tx rest_fs_ctx [OF r] by (simp add: tx_def)
  then show "tx p H ?t" using tx v P(1) rest_log [OF r] by (simp add: tx_def)
  show "same_tx s ?t" using v rest_log [OF r] log_rest_bio [OF r] by (simp add: same_tx_def)
  show "log ?t = log s" by (rule rest_log [OF r])
  show "blk ?t = (blk s)(n := f (blk s n))" using v by simp
  show "buf_at s c m \<Longrightarrow> buf_at ?t c m" by (rule P(3))
qed

lemma tx_log_write:
  assumes tx: "tx p H s" and at: "buf_at s b n" and room: "Suc (nlogged (log s)) < LOGSIZE" "outside (log s) n"
    and Q: "\<And>t. tx p H t \<Longrightarrow> same_tx s t \<Longrightarrow> blk t = blk s \<Longrightarrow> n \<in> set (targets (log t)) \<Longrightarrow>
      nlogged (log t) \<le> Suc (nlogged (log s)) \<Longrightarrow> (\<And>c m. buf_at s c m \<Longrightarrow> buf_at t c m) \<Longrightarrow> Q () t"
  shows "wp (log_write b) Q s"
proof (rule log_write_wp [where p = p and n = n])
  have ok: "bio_ok s" and lg: "log_ok (log s) (length (disk s))" using tx by (simp_all add: tx_def)
  have nd: "n < length (disk s)" "length (disk s) < 2 ^ 32"
    using buf_at_data(2) [OF ok at] ok by (simp_all add: bio_ok_def)
  then have n: "unat (of_nat n :: uint) = n" by (simp add: unat_of_nat)
  fix t assume t: "fs_ctx p t" "bio_ok t" "log_rest t = log_rest s" "log t = log_add (of_nat n) (log s)"
    "log_ok (log t) (length (disk s))"
    and v: "bview t = (bview s)\<lparr>v_pinned := insert n (v_pinned (bview s))\<rparr>"
    and c: "\<And>c m. buf_at s c m \<Longrightarrow> buf_at t c m"
  note v' = bview_changed [OF v, unfolded bview.simps bview_simps]
  have tg: "targets (log t) = (if n \<in> set (targets (log s)) then targets (log s) else targets (log s) @ [n])"
    using log_add_ok(2) [OF lg room(1), of "of_nat n"] n nd(1) room(2) t(4) by simp
  have k: "lg_size (log t) = lg_size (log s)" "lg_outstanding (log t) = lg_outstanding (log s)"
    "lg_start (log t) = lg_start (log s)" unfolding t(4) by (simp_all add: log_add_def)
  show "Q () t"
  proof (rule Q)
    show "tx p H t" using tx t v' k tg by (auto simp: tx_def)
    show "nlogged (log t) \<le> Suc (nlogged (log s))"
      using log_okD(2) [OF t(5)] log_okD(2) [OF lg] tg by (simp split: if_splits)
  qed (use t v' c tg k in \<open>auto simp: same_tx_def\<close>)
qed (use assms in \<open>auto simp: tx_def\<close>)

lemma tx_brelse:
  assumes tx: "tx p H s" and at: "buf_at s b n" and clean: "n \<in> set (targets (log s)) \<or> blk s n = disk s ! n"
    and Q: "\<And>t. tx p (H - {n}) t \<Longrightarrow> same_tx s t \<Longrightarrow> log t = log s \<Longrightarrow> blk t = blk s \<Longrightarrow>
      (\<And>c m. buf_at s c m \<Longrightarrow> c \<noteq> b \<Longrightarrow> buf_at t c m) \<Longrightarrow> Q () t"
  shows "wp (brelse b) Q s"
proof (rule brelse_wp [where p = p and n = n])
  fix t assume t: "fs_ctx p t" "bio_ok t" "bio_rest t = bio_rest s"
    and v: "bview t = (bview s)\<lparr>v_held := v_held (bview s) - {n}\<rparr>"
    and c: "\<And>c m. buf_at s c m \<Longrightarrow> c \<noteq> b \<Longrightarrow> buf_at t c m"
  note v' = bview_changed [OF v, unfolded bview.simps bview_simps]
  show "Q () t"
  proof (rule Q)
    show "tx p (H - {n}) t" using tx t v' rest_log [OF t(3)] by (simp add: tx_def)
    show "same_tx s t" using v' rest_log [OF t(3)] log_rest_bio [OF t(3)] by (simp add: same_tx_def)
  qed (use v' c rest_log [OF t(3)] in auto)
qed (use assms in \<open>auto simp: tx_def\<close>)

text \<open>A block nobody holds and the log does not have is as on the disk.\<close>

lemma tx_clean:
  assumes "tx p H s" "n < length (disk s)" "n \<notin> H" "n \<notin> set (targets (log s))"
  shows "blk s n = disk s ! n"
proof (rule blk_eqI [OF assms(2)])
  fix i assume i: "i < NBUF" "bvalid (bufs s ! i)" "unat (b_blockno (bufs s ! i)) = n"
  then have "\<not> blocked s i" "\<not> bdirty (bufs s ! i)"
    using assms by (auto simp: tx_def bview_def)
  then show "b_data (bufs s ! i) = disk s ! n"
    using assms(1) i by (auto simp: tx_def bio_ok_def Let_def)
qed simp

section \<open>Changing one block\<close>

lemma log_rest_fs:
  "log_rest t = log_rest s \<Longrightarrow> sb t = sb s" "log_rest t = log_rest s \<Longrightarrow> icache t = icache s"
  "log_rest t = log_rest s \<Longrightarrow> slocks t (InodeSl i) = slocks s (InodeSl i)"
  by (drule arg_cong [where f = sb] arg_cong [where f = icache] arg_cong [where f = "\<lambda>s. slocks s (InodeSl i)"],
      simp add: log_rest_def bio_rest_def)+

lemma same_tx_fs:
  assumes "same_tx s t"
  shows "sb t = sb s" "icache t = icache s" "slocks t (InodeSl i) = slocks s (InodeSl i)" "disk t = disk s"
  using assms by (auto simp: same_tx_def intro: log_rest_fs)

lemma same_tx_outside: "same_tx s t \<Longrightarrow> outside (log t) = outside (log s)"
  by (simp add: same_tx_def outside_def fun_eq_iff)

lemma tx_store:
  assumes tx: "tx p (insert n H) s" and n: "n \<notin> H" "buf_at s b n" "outside (log s) n"
    and room: "Suc (nlogged (log s)) < LOGSIZE" and len: "length (f (blk s n)) = BSIZE"
    and Q: "\<And>t. tx p H t \<Longrightarrow> same_tx s t \<Longrightarrow> blk t = (blk s)(n := f (blk s n)) \<Longrightarrow>
      nlogged (log t) \<le> Suc (nlogged (log s)) \<Longrightarrow> (\<And>c m. buf_at s c m \<Longrightarrow> c \<noteq> b \<Longrightarrow> buf_at t c m) \<Longrightarrow> Q () t"
  shows "wp (block [modify (put_data b f), log_write b, brelse b]) Q s"
proof -
  let ?u = "put_data b f s"
  note u = tx_put [where f = f, OF tx n(2) len]
  have "wp (thenK (log_write b) (brelse b)) Q ?u"
  proof (rule wp_then, rule tx_log_write [where p = p and H = "insert n H" and n = n])
    fix v assume v: "tx p (insert n H) v" "same_tx ?u v" "blk v = blk ?u" "n \<in> set (targets (log v))"
      "nlogged (log v) \<le> Suc (nlogged (log ?u))" "\<And>c m. buf_at ?u c m \<Longrightarrow> buf_at v c m"
    show "wp (brelse b) Q v"
    proof (rule tx_brelse [OF v(1) v(6) disjI1 [OF v(4)]])
      show "buf_at ?u b n" using u(5) n by simp
      fix w assume w: "tx p (insert n H - {n}) w" "same_tx v w" "log w = log v" "blk w = blk v"
        "\<And>c m. buf_at v c m \<Longrightarrow> c \<noteq> b \<Longrightarrow> buf_at w c m"
      show "Q () w"
      proof (rule Q)
        show "tx p H w" using w(1) n(1) by simp
        show "same_tx s w" using u(2) v(2) w(2) by (metis same_tx_trans)
      qed (use u v w in auto)
    qed
  qed (use u n room in auto)
  then show ?thesis by (simp add: thenK_ret_unit)
qed

lemma tx_update:
  assumes tx: "tx p H s" and n: "unat bno < length (disk s)" "unat bno \<notin> H" "outside (log s) (unat bno)"
    and room: "finite H" "Suc (card H + nlogged (log s)) < LOGSIZE"
    and g: "\<And>t. same_tx s t \<Longrightarrow> g t = f" and len: "length (f (blk s (unat bno))) = BSIZE"
    and Q: "\<And>t. tx p H t \<Longrightarrow> same_tx s t \<Longrightarrow> blk t = (blk s)(unat bno := f (blk s (unat bno))) \<Longrightarrow>
      nlogged (log t) \<le> Suc (nlogged (log s)) \<Longrightarrow> (\<And>c m. buf_at s c m \<Longrightarrow> buf_at t c m) \<Longrightarrow> Q () t"
  shows "wp (bindK (bread 1 bno) (\<lambda>b. block [modify (\<lambda>s. put_data b (g s) s), log_write b, brelse b])) Q s"
proof (rule wp_bind, rule tx_bread [OF tx n(1,2) room(1)])
  let ?n = "unat bno"
  show "card H + nlogged (log s) < LOGSIZE" using room by simp
  fix b t assume t: "tx p (insert ?n H) t" "same_tx s t" "log t = log s" "blk t = blk s" "buf_at t b ?n"
    and k: "\<And>c m. buf_at s c m \<Longrightarrow> c \<noteq> b \<and> buf_at t c m"
  have "wp (block [modify (put_data b f), log_write b, brelse b]) Q t"
    by (rule tx_store [OF t(1) n(2) t(5)]) (use t k n room len same_tx_trans [OF t(2)] in \<open>auto intro!: Q\<close>)
  then show "wp (block [modify (\<lambda>s. put_data b (g s) s), log_write b, brelse b]) Q t"
    using g [OF t(2)] by simp
qed

lemma bzero_wp:
  assumes "tx p H s" "unat bno < length (disk s)" "unat bno \<notin> H" "outside (log s) (unat bno)" "finite H"
    and "Suc (card H + nlogged (log s)) < LOGSIZE"
    and "\<And>t. tx p H t \<Longrightarrow> same_tx s t \<Longrightarrow> blk t = (blk s)(unat bno := replicate BSIZE 0) \<Longrightarrow>
      nlogged (log t) \<le> Suc (nlogged (log s)) \<Longrightarrow> (\<And>c m. buf_at s c m \<Longrightarrow> buf_at t c m) \<Longrightarrow> Q () t"
  shows "wp (bzero 1 bno) Q s"
  unfolding bzero_def by (rule tx_update [OF assms(1-6)]) (auto intro: assms(7))

end
