(* ===== verification/Balloc.thy ===== *)
theory Balloc
  imports Tx
begin

text \<open>
  The block allocator of \<open>fs.c\<close>: the free bitmap on the disk as a set of block numbers, and what
  \<open>balloc\<close> and \<open>bfree\<close> do to it and to the blocks.
\<close>

unbundle bit_operations_syntax

section \<open>The bitmap\<close>

definition bmap_block :: "'a fs_state_scheme \<Rightarrow> nat \<Rightarrow> nat" where
  "bmap_block s n = unat (BBLOCK (of_nat n) (sb s))"

definition used :: "'a fs_state_scheme \<Rightarrow> nat \<Rightarrow> bool" where
  "used s n \<longleftrightarrow> \<not> bit_clear (blk s (bmap_block s n)) (n mod BPB)"

lemma bit_clear_iff: "bit_clear d bi \<longleftrightarrow> \<not> bit (d ! (bi div 8)) (bi mod 8)"
  unfolding bit_clear_def push_bit_of_1 by (rule and_exp_eq_0_iff_not_bit)

lemma bit_clear_mark: "bi < 8 * length d \<Longrightarrow> bit_clear (mark_bit bi d) bj \<longleftrightarrow> bj \<noteq> bi \<and> bit_clear d bj"
proof (cases "bj div 8 = bi div 8")
  case True
  then have "bj = bi \<longleftrightarrow> bj mod 8 = bi mod 8" by (metis div_mult_mod_eq)
  moreover assume "bi < 8 * length d"
  ultimately show ?thesis using True
    by (auto simp: bit_clear_iff mark_bit_def bit_or_iff push_bit_of_1 bit_exp_iff less_mult_imp_div_less mult.commute)
next
  case False
  then show ?thesis by (auto simp: bit_clear_iff mark_bit_def)
qed

lemma bit_clear_clear: "bi < 8 * length d \<Longrightarrow> bit_clear (clear_bit bi d) bj \<longleftrightarrow> bj = bi \<or> bit_clear d bj"
proof (cases "bj div 8 = bi div 8")
  case True
  then have "bj = bi \<longleftrightarrow> bj mod 8 = bi mod 8" by (metis div_mult_mod_eq)
  moreover assume "bi < 8 * length d"
  ultimately show ?thesis using True
    by (auto simp: bit_clear_iff clear_bit_def bit_and_iff bit_not_iff push_bit_of_1 bit_exp_iff
        less_mult_imp_div_less mult.commute)
next
  case False
  then show ?thesis by (auto simp: bit_clear_iff clear_bit_def)
qed

lemma length_bits [simp]: "length (mark_bit bi d) = length d" "length (clear_bit bi d) = length d"
  by (simp_all add: mark_bit_def clear_bit_def)

lemma div_bound: "n < 2 ^ 32 \<Longrightarrow> n div k < (2 ^ 32 :: nat)"
  by (rule le_less_trans [OF div_le_dividend])

lemma unat_of_nat_div: "n < 2 ^ 32 \<Longrightarrow> unat (of_nat (n div k) :: uint) = n div k"
  using div_bound [of n k] by (simp add: unat_of_nat)

lemma of_nat_div_BPB: "n < 2 ^ 32 \<Longrightarrow> (of_nat n :: uint) div of_nat BPB = of_nat (n div BPB)"
  unfolding word_unat_eq_iff unat_div using unat_of_nat_div [of n BPB] by (simp add: unat_of_nat BPB_def)

lemma bmap_block_eq:
  assumes "m < 2 ^ 32" "n < 2 ^ 32"
  shows "bmap_block s m = bmap_block s n \<longleftrightarrow> m div BPB = n div BPB"
  using unat_of_nat_div [of _ BPB] assms
  by (simp add: bmap_block_def BBLOCK_def of_nat_div_BPB word_unat_eq_iff [symmetric]) metis

text \<open>
  The superblock fits the disk, the bitmap is outside of the log, and the blocks of the bitmap and of
  the log are marked as used.
\<close>

definition bitmap_ok :: "'a fs_state_scheme \<Rightarrow> bool" where
  "bitmap_ok s \<longleftrightarrow> unat (sb_size (sb s)) \<le> length (disk s) \<and>
     (\<forall>n<unat (sb_size (sb s)). bmap_block s n < length (disk s) \<and> outside (log s) (bmap_block s n)) \<and>
     (\<forall>n<unat (sb_size (sb s)). \<not> used s n \<longrightarrow> outside (log s) n \<and>
        (\<forall>m<unat (sb_size (sb s)). bmap_block s m \<noteq> n))"

definition allocated :: "'a fs_state_scheme \<Rightarrow> nat \<Rightarrow> nat \<Rightarrow> block" where
  "allocated s n = (blk s)(bmap_block s n := mark_bit (n mod BPB) (blk s (bmap_block s n)), n := replicate BSIZE 0)"

text \<open>The first free block, as \<open>balloc\<close> looks for it.\<close>

definition first_free :: "'a fs_state_scheme \<Rightarrow> nat \<Rightarrow> bool" where
  "first_free s n \<longleftrightarrow> n < unat (sb_size (sb s)) \<and> \<not> used s n \<and> (\<forall>m<n. used s m)"

lemma bitmap_bits:
  assumes b: "b mod BPB = 0" and i: "i < BPB" "b + i < unat (sb_size (sb s))"
  shows "bit_clear (blk s (unat (BBLOCK (of_nat b) (sb s)))) i \<longleftrightarrow> \<not> used s (b + i)"
    and "bmap_block s (b + i) = unat (BBLOCK (of_nat b) (sb s))" "(b + i) mod BPB = i"
proof -
  obtain q where "b = BPB * q" using b by (auto simp: mod_eq_0_iff_dvd elim: dvdE)
  then have part: "(b + i) div BPB = b div BPB" "(b + i) mod BPB = i" using i(1) by (simp_all add: BPB_def)
  then show "bmap_block s (b + i) = unat (BBLOCK (of_nat b) (sb s))" "(b + i) mod BPB = i"
    using bmap_block_eq [of "b + i" b s] i(2) unat_lt32 [of "sb_size (sb s)"] by (simp_all add: bmap_block_def)
  with part(2) show "bit_clear (blk s (unat (BBLOCK (of_nat b) (sb s)))) i \<longleftrightarrow> \<not> used s (b + i)"
    by (simp add: used_def)
qed

lemma bitmap_scan:
  assumes n: "first_free s n" and b: "b mod BPB = 0" "b \<le> n"
  defines "d \<equiv> blk s (unat (BBLOCK (of_nat b) (sb s)))"
  shows "first_index (bit_clear d) [0..<min BPB (unat (sb_size (sb s)) - b)] =
      (if n < b + BPB then Some (n - b) else None)"
    and "n < b + BPB \<Longrightarrow> bmap_block s n = unat (BBLOCK (of_nat b) (sb s))" "n < b + BPB \<Longrightarrow> n mod BPB = n - b"
proof -
  let ?N = "unat (sb_size (sb s))"
  note used = bitmap_bits(1) [OF b(1), of _ s, folded d_def]
  show "n < b + BPB \<Longrightarrow> bmap_block s n = unat (BBLOCK (of_nat b) (sb s))" "n < b + BPB \<Longrightarrow> n mod BPB = n - b"
    using bitmap_bits(2,3) [OF b(1), of "n - b" s] n b(2) by (simp_all add: first_free_def)
  show "first_index (bit_clear d) [0..<min BPB (?N - b)] = (if n < b + BPB then Some (n - b) else None)"
  proof (cases "n < b + BPB")
    case True
    have lim: "j < min BPB (?N - b)" if "j \<le> n - b" for j using that True n b by (auto simp: first_free_def)
    have "first_index (bit_clear d) [0..<min BPB (?N - b)] = Some (n - b)"
      unfolding first_index_Some
    proof (intro conjI allI impI)
      show "bit_clear d ([0..<min BPB (?N - b)] ! (n - b))"
        using lim [of "n - b"] used [of "n - b"] n b(2) by (simp add: first_free_def)
      fix j assume j: "j < n - b"
      then have "used s (b + j)" using n by (simp add: first_free_def)
      moreover have "j < BPB" "b + j < ?N" using lim [of j] j by auto
      ultimately show "\<not> bit_clear d ([0..<min BPB (?N - b)] ! j)" using lim [of j] j used [of j] by simp
    qed (use lim in simp)
    with True show ?thesis by simp
  next
    case False
    then have "first_index (bit_clear d) [0..<min BPB (?N - b)] = None"
      unfolding first_index_None using n b used by (auto simp: first_free_def)
    with False show ?thesis by simp
  qed
qed

lemma block_then: "block [a, b, c, d] = thenK (block [a, b, c]) d"
  unfolding block.simps thenK_ret_unit by (simp add: thenK_def bindK_assoc)

lemma bitmap_ok_same:
  assumes "same_tx s t" "blk t = blk s"
  shows "bitmap_ok t = bitmap_ok s" "first_free t n = first_free s n" "bmap_block t = bmap_block s" "used t = used s"
proof -
  show b: "bmap_block t = bmap_block s" using same_tx_fs [OF assms(1)] by (simp add: bmap_block_def fun_eq_iff)
  show u: "used t = used s" using assms(2) b by (simp add: used_def fun_eq_iff)
  show "bitmap_ok t = bitmap_ok s" "first_free t n = first_free s n"
    using same_tx_fs [OF assms(1)] same_tx_outside [OF assms(1)] by (simp_all add: bitmap_ok_def first_free_def b u)
qed

text \<open>Taking the free block \<open>n\<close>, with the buffer of its bitmap block in hand.\<close>

lemma balloc_take_wp:
  assumes tx: "tx p (insert m H) t" and m: "m \<notin> H" "m < length (disk t)" "outside (log t) m" "buf_at t b m" "m \<noteq> n"
    and room: "finite H" "Suc (Suc (card H + nlogged (log t))) < LOGSIZE"
    and n: "n \<notin> H" "n < length (disk t)" "outside (log t) n"
    and Q: "\<And>u. tx p H u \<Longrightarrow> same_tx t u \<Longrightarrow> blk u = (blk t)(m := mark_bit bi (blk t m), n := replicate BSIZE 0) \<Longrightarrow>
      nlogged (log u) \<le> Suc (Suc (nlogged (log t))) \<Longrightarrow> (\<And>c k. buf_at t c k \<Longrightarrow> c \<noteq> b \<Longrightarrow> buf_at u c k) \<Longrightarrow> Q (of_nat n) u"
  shows "wp (thenK (block [modify (put_data b (mark_bit bi)), log_write b, brelse b, bzero 1 (of_nat n)])
    (ret (of_nat n))) Q t"
proof -
  have "bio_ok t" using tx by (simp add: tx_def)
  then have len: "length (mark_bit bi (blk t m)) = BSIZE" and "length (disk t) < 2 ^ 32"
    using blk_length m(2) by (auto simp: bio_ok_def)
  with n(2) have nu: "unat (of_nat n :: uint) = n" by (simp add: unat_of_nat)
  have "wp (thenK (block [modify (put_data b (mark_bit bi)), log_write b, brelse b]) (bzero 1 (of_nat n)))
      (\<lambda>_. Q (of_nat n)) t"
  proof (rule wp_then, rule tx_store [where f = "mark_bit bi", OF tx m(1,4,3) _ len])
    fix u assume u: "tx p H u" "same_tx t u" "blk u = (blk t)(m := mark_bit bi (blk t m))"
      "nlogged (log u) \<le> Suc (nlogged (log t))" "\<And>c k. buf_at t c k \<Longrightarrow> c \<noteq> b \<Longrightarrow> buf_at u c k"
    show "wp (bzero 1 (of_nat n)) (\<lambda>_. Q (of_nat n)) u"
    proof (rule bzero_wp [OF u(1)], goal_cases)
      case (6 v)
      with u nu same_tx_trans [OF u(2)] show ?case by (intro Q) auto
    qed (use nu n u room same_tx_fs(4) [OF u(2)] same_tx_outside [OF u(2)] in auto)
  qed (use room in simp)
  then show ?thesis unfolding block_then by (intro wp_then [of "thenK _ _"]) (simp only: wp_ret_fun)
qed

text \<open>One round of the loop.\<close>

definition balloc_round :: "nat \<Rightarrow> nat \<Rightarrow> ('a fs_state_scheme, uint) K" where
  "balloc_round b bp =
     bindK (gets (\<lambda>s. first_index (bit_clear (bdata s bp)) [0..<min BPB (unat (sb_size (sb s)) - b)])) (\<lambda>free.
       case free of
         Some bi \<Rightarrow>
           thenK (block [modify (put_data bp (mark_bit bi)), log_write bp, brelse bp, bzero 1 (of_nat (b + bi))])
             (ret (of_nat (b + bi)))
       | None \<Rightarrow> thenK (brelse bp) (balloc_loop 1 (b + BPB)))"

lemma balloc_loop_round:
  "b < unat (sb_size (sb s)) \<Longrightarrow> wp (bread 1 (BBLOCK (of_nat b) (sb s))) (\<lambda>bp. wp (balloc_round b bp) Q) s \<Longrightarrow>
   wp (balloc_loop 1 b) Q s"
  by (subst balloc_loop.simps, simp only: wp_bind_simps if_True balloc_round_def [symmetric]) (rule wp_bind)

text \<open>
  The loop of \<open>balloc\<close> from a position not behind the first free block, with the blocks \<open>H\<close> held
  by the caller, none of them in the bitmap or free.
\<close>

lemma balloc_loop_wp:
  assumes "tx p H s" "bitmap_ok s" "first_free s n" "b mod BPB = 0" "b \<le> n"
    and "finite H" "Suc (Suc (card H + nlogged (log s))) < LOGSIZE" "n \<notin> H"
    and "\<forall>m<unat (sb_size (sb s)). bmap_block s m \<notin> H"
    and Q: "\<And>t. tx p H t \<Longrightarrow> same_tx s t \<Longrightarrow> blk t = allocated s n \<Longrightarrow>
      nlogged (log t) \<le> Suc (Suc (nlogged (log s))) \<Longrightarrow> (\<And>c m. buf_at s c m \<Longrightarrow> buf_at t c m) \<Longrightarrow> Q (of_nat n) t"
  shows "wp (balloc_loop 1 b) Q s"
  using assms
proof (induction "n - b" arbitrary: b s rule: less_induct)
  case less
  note tx = less.prems(1) and ok = less.prems(2) and free = less.prems(3) and room = less.prems(6,7)
  let ?N = "unat (sb_size (sb s))" and ?m = "BBLOCK (of_nat b) (sb s)"
  have n: "n < ?N" "\<not> used s n" "n < length (disk s)" "outside (log s) n"
    using free ok by (auto simp: first_free_def bitmap_ok_def)
  then have b: "b < ?N" using less.prems(5) by simp
  note scan = bitmap_scan [OF free less.prems(4,5)]
  have m: "unat ?m < length (disk s)" "outside (log s) (unat ?m)" "unat ?m \<notin> H" "unat ?m \<noteq> n"
    using ok less.prems(9) b n(1,2) unfolding bitmap_ok_def bmap_block_def by metis+
  show ?case
  proof (rule balloc_loop_round [OF b], rule tx_bread [OF tx m(1,3) room(1)])
    show "card H + nlogged (log s) < LOGSIZE" using room by simp
    fix bp t assume t: "tx p (insert (unat ?m) H) t" "same_tx s t" "log t = log s" "blk t = blk s" "buf_at t bp (unat ?m)"
      and k: "\<And>c m. buf_at s c m \<Longrightarrow> c \<noteq> bp \<and> buf_at t c m"
    note keep = bitmap_ok_same [OF t(2,4)] same_tx_fs [OF t(2)] same_tx_outside [OF t(2)]
    have d: "bdata t bp = blk s (unat ?m)" using buf_at_data(1) t(1,4,5) by (fastforce simp: tx_def)
    show "wp (balloc_round b bp) Q t"
    proof (cases "n < b + BPB")
      case True
      have e: "bmap_block s n = unat ?m" "n mod BPB = n - b" using scan(2,3) [OF True] by simp_all
      have "wp (thenK (block [modify (put_data bp (mark_bit (n - b))), log_write bp, brelse bp, bzero 1 (of_nat n)])
          (ret (of_nat n))) Q t"
      proof (rule balloc_take_wp [OF t(1) m(3) _ _ t(5) m(4)], goal_cases)
        case (8 u)
        with t k e same_tx_trans [OF t(2)] show ?case by (intro less.prems(10)) (auto simp: allocated_def)
      qed (use m n t room less.prems(8) keep in auto)
      then show ?thesis using scan(1) True less.prems(5) keep d by (simp add: balloc_round_def)
    next
      case False
      have clean: "unat ?m \<in> set (targets (log t)) \<or> blk t (unat ?m) = disk t ! unat ?m"
        using tx_clean [OF tx m(1,3)] t(3,4) keep by auto
      have "wp (thenK (brelse bp) (balloc_loop 1 (b + BPB))) Q t"
      proof (rule wp_then, rule tx_brelse [OF t(1,5) clean])
        fix u assume u: "tx p (insert (unat ?m) H - {unat ?m}) u" "same_tx t u" "log u = log t" "blk u = blk t"
          "\<And>c m. buf_at t c m \<Longrightarrow> c \<noteq> bp \<Longrightarrow> buf_at u c m"
        note su = same_tx_trans [OF t(2) u(2)]
        have bu: "blk u = blk s" using t(4) u(4) by simp
        note keep' = bitmap_ok_same [OF su bu] same_tx_fs [OF su]
        have "n - (b + BPB) < n - b" using False by (simp add: BPB_def)
        then show "wp (balloc_loop 1 (b + BPB)) Q u"
        proof (rule less.hyps, goal_cases)
          case (10 v)
          with t u k keep' bu same_tx_trans [OF su] show ?case by (intro less.prems(10)) (auto simp: allocated_def)
        qed (use u t m(3) less.prems keep' False in auto)
      qed
      with scan(1) False keep d show ?thesis by (simp add: balloc_round_def)
    qed
  qed
qed

text \<open>Reading a block and giving it back.\<close>

lemma tx_look:
  assumes tx: "tx p H s" and n: "unat bno < length (disk s)" "unat bno \<notin> H"
    and room: "finite H" "card H + nlogged (log s) < LOGSIZE"
  obtains b t u where "bread 1 bno s env = Ok b t env" "bdata t b = blk s (unat bno)" "sb t = sb s"
    "brelse b t env = Ok () u env" "tx p H u" "same_tx s u" "log u = log s" "blk u = blk s"
proof -
  have "wp (bread 1 bno) (\<lambda>b t. bdata t b = blk s (unat bno) \<and> sb t = sb s \<and>
      wp (brelse b) (\<lambda>_ u. tx p H u \<and> same_tx s u \<and> log u = log s \<and> blk u = blk s) t) s"
  proof (rule tx_bread [OF tx n room], intro conjI)
    fix b t assume t: "tx p (insert (unat bno) H) t" "same_tx s t" "log t = log s" "blk t = blk s" "buf_at t b (unat bno)"
    show "bdata t b = blk s (unat bno)" using buf_at_data(1) t(1,4,5) by (fastforce simp: tx_def)
    show "sb t = sb s" by (rule same_tx_fs [OF t(2)])
    have "unat bno \<in> set (targets (log t)) \<or> blk t (unat bno) = disk t ! unat bno"
      using tx_clean [OF tx n] t(3,4) same_tx_fs(4) [OF t(2)] by auto
    then show "wp (brelse b) (\<lambda>_ u. tx p H u \<and> same_tx s u \<and> log u = log s \<and> blk u = blk s) t"
      by (rule tx_brelse [OF t(1,5)]) (use t n same_tx_trans [OF t(2)] in auto)
  qed
  from wp_Ok [OF this, of env] show thesis by (auto intro: that dest!: wp_Ok [where env = env])
qed

lemma balloc_loop_full:
  assumes "tx p {} s" "bitmap_ok s" "\<forall>m<unat (sb_size (sb s)). used s m" "b mod BPB = 0"
  shows "balloc_loop 1 b s env = Panic ''balloc: out of blocks''"
  using assms
proof (induction "unat (sb_size (sb s)) - b" arbitrary: b s rule: less_induct)
  case less
  let ?N = "unat (sb_size (sb s))" and ?m = "BBLOCK (of_nat b) (sb s)"
  show ?case
  proof (cases "b < ?N")
    case False
    then show ?thesis by (subst balloc_loop.simps) (simp add: kmonad)
  next
    case True
    have "unat ?m < length (disk s)" using less.prems(2) True by (auto simp: bitmap_ok_def bmap_block_def)
    moreover have "nlogged (log s) < LOGSIZE" using less.prems(1) log_okD(7) by (auto simp: tx_def)
    ultimately obtain bp t u where t: "bread 1 ?m s env = Ok bp t env" "bdata t bp = blk s (unat ?m)" "sb t = sb s"
      and u: "brelse bp t env = Ok () u env" "tx p {} u" "same_tx s u" "log u = log s" "blk u = blk s"
      using tx_look [OF less.prems(1), of ?m env] by auto
    note keep = bitmap_ok_same [OF u(3,5)] same_tx_fs(1) [OF u(3)]
    have none: "first_index (bit_clear (blk s (unat ?m))) [0..<min BPB (?N - b)] = None"
      unfolding first_index_None using bitmap_bits [OF less.prems(4), of _ s] less.prems(3) by auto
    have "?N - (b + BPB) < ?N - b" using True by (simp add: BPB_def)
    then have "balloc_loop 1 (b + BPB) u env = Panic ''balloc: out of blocks''"
      using less.prems keep u(2) by (intro less.hyps) auto
    with t u none True show ?thesis by (subst balloc_loop.simps) (simp add: kmonad)
  qed
qed

section \<open>Allocating and freeing\<close>

text \<open>Changing one bit of the bitmap changes the state of one block.\<close>

lemma used_changed:
  assumes tx: "tx p H s" and ok: "bitmap_ok s" and n: "n < unat (sb_size (sb s))" and t: "same_tx s t"
    and d: "blk t (bmap_block s n) = f (blk s (bmap_block s n))"
    and f: "\<And>bj. bit_clear (f (blk s (bmap_block s n))) bj \<longleftrightarrow>
      (if bj = n mod BPB then c else bit_clear (blk s (bmap_block s n)) bj)"
    and other: "\<And>m. m < unat (sb_size (sb s)) \<Longrightarrow> bmap_block s m \<noteq> bmap_block s n \<Longrightarrow>
      blk t (bmap_block s m) = blk s (bmap_block s m)"
    and m: "m < unat (sb_size (sb s))"
  shows "used t m \<longleftrightarrow> (if m = n then \<not> c else used s m)"
proof -
  have b: "bmap_block t m = bmap_block s m" using same_tx_fs(1) [OF t] by (simp add: bmap_block_def)
  have e: "bmap_block s m = bmap_block s n \<longleftrightarrow> m div BPB = n div BPB"
    using m n unat_lt32 [of "sb_size (sb s)"] by (intro bmap_block_eq) auto
  show ?thesis
  proof (cases "m div BPB = n div BPB")
    case True
    then have "m = n \<longleftrightarrow> m mod BPB = n mod BPB" by (metis div_mult_mod_eq)
    with True e b d f show ?thesis by (simp add: used_def)
  next
    case False
    then have "m \<noteq> n" "blk t (bmap_block s m) = blk s (bmap_block s m)" using e other [OF m] by auto
    with b show ?thesis by (simp add: used_def)
  qed
qed

lemma bitmap_byte: "tx p H s \<Longrightarrow> bitmap_ok s \<Longrightarrow> n < unat (sb_size (sb s)) \<Longrightarrow> n mod BPB < 8 * length (blk s (bmap_block s n))"
  using blk_length [of s "bmap_block s n"] by (auto simp: tx_def bitmap_ok_def BPB_def BSIZE_def)

text \<open>
  C35.  \<open>balloc\<close> returns the first block whose bit in the bitmap is clear; afterwards the block is zeroed
  and marked as used, no other block changed its state, and no block but that one and its bitmap block
  changed at all.  When every block is in use it panics.
\<close>

theorem balloc_allocates:
  assumes "tx p {} s" "bitmap_ok s" "nlogged (log s) + 2 < LOGSIZE"
  shows "(\<forall>n. first_free s n \<longrightarrow> (\<exists>t. balloc 1 s env = Ok (of_nat n) t env \<and> tx p {} t \<and> same_tx s t \<and>
      blk t n = replicate BSIZE 0 \<and> (\<forall>m<unat (sb_size (sb s)). used t m \<longleftrightarrow> m = n \<or> used s m) \<and>
      (\<forall>m. m \<noteq> n \<and> m \<noteq> bmap_block s n \<longrightarrow> blk t m = blk s m))) \<and>
    ((\<forall>n<unat (sb_size (sb s)). used s n) \<longrightarrow> balloc 1 s env = Panic ''balloc: out of blocks'')"
proof (intro conjI allI impI)
  fix n assume n: "first_free s n"
  then have lt: "n < unat (sb_size (sb s))" "\<not> used s n" by (simp_all add: first_free_def)
  have "wp (balloc 1) (\<lambda>r t. r = of_nat n \<and> tx p {} t \<and> same_tx s t \<and> blk t = allocated s n) s"
    unfolding balloc_def by (rule balloc_loop_wp [OF assms(1,2) n]) (use assms(3) in auto)
  then obtain t where run: "balloc 1 s env = Ok (of_nat n) t env"
    and t: "tx p {} t" "same_tx s t" "blk t = allocated s n" using wp_Ok [of "balloc 1" _ s env] by auto
  have apart: "bmap_block s m \<noteq> n" if "m < unat (sb_size (sb s))" for m
    using assms(2) lt that by (auto simp: bitmap_ok_def)
  have "used t m \<longleftrightarrow> m = n \<or> used s m" if m: "m < unat (sb_size (sb s))" for m
    using used_changed [OF assms(1,2) lt(1) t(2), of "mark_bit (n mod BPB)" False m] apart [OF lt(1)] apart m
      bit_clear_mark [OF bitmap_byte [OF assms(1,2) lt(1)]] t(3) by (auto simp: allocated_def)
  with run t show "\<exists>t. balloc 1 s env = Ok (of_nat n) t env \<and> tx p {} t \<and> same_tx s t \<and>
      blk t n = replicate BSIZE 0 \<and> (\<forall>m<unat (sb_size (sb s)). used t m \<longleftrightarrow> m = n \<or> used s m) \<and>
      (\<forall>m. m \<noteq> n \<and> m \<noteq> bmap_block s n \<longrightarrow> blk t m = blk s m)"
    by (intro exI [of _ t]) (auto simp: allocated_def)
qed (use balloc_loop_full [OF assms(1,2)] in \<open>simp add: balloc_def\<close>)

lemma tx_read_store:
  assumes v: "tx p {} v" and m: "unat m < length (disk v)" "outside (log v) (unat m)"
    and room: "Suc (nlogged (log v)) < LOGSIZE" and len: "length (f (blk v (unat m))) = BSIZE"
  shows "wp (bread 1 m) (\<lambda>c w. bdata w c = blk v (unat m) \<and> wp (block [modify (put_data c f), log_write c, brelse c])
    (\<lambda>_ t. tx p {} t \<and> same_tx v t \<and> blk t = (blk v)(unat m := f (blk v (unat m)))) w) v"
proof (rule tx_bread [OF v], goal_cases)
  case (5 c w)
  have "bdata w c = blk v (unat m)" using buf_at_data(1) 5 by (fastforce simp: tx_def)
  moreover have len: "length (f (blk w (unat m))) = BSIZE" using 5 len by simp
  have "wp (block [modify (put_data c f), log_write c, brelse c])
      (\<lambda>_ t. tx p {} t \<and> same_tx v t \<and> blk t = (blk v)(unat m := f (blk v (unat m)))) w"
    by (rule tx_store [where f = f, OF 5(1) _ 5(5) _ _ len]) (use 5 m room same_tx_trans [OF 5(2)] in auto)
  ultimately show ?case by simp
qed (use m room in auto)

text \<open>
  C36.  \<open>bfree\<close> of a block in use clears its bit: that block becomes free, every other block keeps its
  state, and nothing but the bitmap block changes.  Freeing a free block is noticed: it panics.
\<close>

theorem bfree_frees:
  assumes "tx p {} s" "bitmap_ok s" "sb s = sb_of (blk s 1)" "1 < length (disk s)"
    and "n < unat (sb_size (sb s))" "Suc (nlogged (log s)) < LOGSIZE"
  shows "if used s n
    then \<exists>t. bfree 1 (of_nat n) s env = Ok () t env \<and> tx p {} t \<and> same_tx s t \<and>
      (\<forall>m<unat (sb_size (sb s)). used t m \<longleftrightarrow> m \<noteq> n \<and> used s m) \<and>
      (\<forall>m. m \<noteq> bmap_block s n \<longrightarrow> blk t m = blk s m)
    else bfree 1 (of_nat n) s env = Panic ''freeing free block''"
proof -
  let ?m = "BBLOCK (of_nat n) (sb s)" and ?k = "n mod BPB"
  have nu: "unat (of_nat n :: uint) = n" using assms(5) unat_lt32 [of "sb_size (sb s)"] by (simp add: unat_of_nat)
  obtain b u v where l: "bread 1 1 s env = Ok b u env" "bdata u b = blk s 1" "brelse b u env = Ok () v env"
    and v: "tx p {} v" "same_tx s v" "log v = log s" "blk v = blk s"
    by (rule tx_look [OF assms(1), of 1 env]) (use assms(4,6) in auto)
  have m: "unat ?m < length (disk s)" "outside (log s) (unat ?m)" "bmap_block s n = unat ?m"
    using assms(2,5) by (auto simp: bitmap_ok_def bmap_block_def)
  note keep = bitmap_ok_same [OF v(2,4)] same_tx_fs [OF v(2)] same_tx_outside [OF v(2)]
  have "length (clear_bit ?k (blk v (unat ?m))) = BSIZE"
    using blk_length [of v "unat ?m"] v(1) m(1) keep by (simp add: tx_def)
  then have "wp (bread 1 ?m) (\<lambda>c w. bdata w c = blk v (unat ?m) \<and>
      wp (block [modify (put_data c (clear_bit ?k)), log_write c, brelse c])
        (\<lambda>_ t. tx p {} t \<and> same_tx v t \<and> blk t = (blk v)(unat ?m := clear_bit ?k (blk v (unat ?m)))) w) v"
    by (intro tx_read_store [OF v(1)]) (use m v(3) keep assms(6) in auto)
  from wp_Ok [OF this, of env] obtain c w where w: "bread 1 ?m v env = Ok c w env" "bdata w c = blk s (unat ?m)"
    and store: "wp (block [modify (put_data c (clear_bit ?k)), log_write c, brelse c])
      (\<lambda>_ t. tx p {} t \<and> same_tx v t \<and> blk t = (blk s)(unat ?m := clear_bit ?k (blk s (unat ?m)))) w"
    unfolding v(4) by blast
  have rest: "\<exists>t. block [modify (put_data c (clear_bit ?k)), log_write c, brelse c] w env = Ok () t env \<and>
      tx p {} t \<and> same_tx s t \<and> blk t = (blk s)(unat ?m := clear_bit ?k (blk s (unat ?m)))"
    using wp_Ok [OF store, of env] same_tx_trans [OF v(2)] by auto
  have sbv: "v\<lparr>sb := sb_of (blk s 1)\<rparr> = v" using keep assms(3) by simp
  have run: "bfree 1 (of_nat n) s env = (if used s n
      then block [modify (put_data c (clear_bit ?k)), log_write c, brelse c] w env else Panic ''freeing free block'')"
    using l w sbv m(3) assms(3) by (simp add: bfree_def readsb_def kmonad nu used_def)
  have "used t k \<longleftrightarrow> k \<noteq> n \<and> used s k"
    if "same_tx s t" "blk t = (blk s)(unat ?m := clear_bit ?k (blk s (unat ?m)))" "k < unat (sb_size (sb s))" for t k
    using used_changed [OF assms(1,2,5) that(1), of "clear_bit ?k" True k] that m(3)
      bit_clear_clear [OF bitmap_byte [OF assms(1,2,5)]] by auto
  with run rest m(3) show ?thesis by (auto simp del: block.simps)
qed

section \<open>A small file system\<close>

text \<open>Two blocks, of which the first is in use, and the log and the metadata behind them.\<close>

definition fs_super :: block where
  "fs_super = put32 (put32 (put32 (replicate BSIZE 0) 0 2) 20 36) 24 35"

definition fs_machine :: fs_state where
  "fs_machine = log_state.extend (log_machine\<lparr>disk := (disk log_machine)[1 := fs_super],
     log := (log log_machine)\<lparr>lg_outstanding := 1\<rparr>\<rparr>)
     \<lparr>sb = sb_of fs_super, icache = replicate NINODE
        \<lparr>i_dev = 1, i_inum = 1, i_ref = 1, i_valid = 0, i_type = 2, i_major = 0, i_minor = 0, i_nlink = 1,
         i_size = 5, i_addrs = replicate 29 7\<rparr>\<rparr>"

lemmas fs_machine_defs = fs_machine_def log_state.defs

lemma fs_machine_fields:
  "bufs fs_machine = map log_cell [0..<31]" "disk fs_machine = (replicate 40 (replicate BSIZE 0))[1 := fs_super]"
  "log fs_machine = (log log_machine)\<lparr>lg_outstanding := 1\<rparr>" "sb fs_machine = sb_of fs_super"
  "\<not> blocked fs_machine i" "fs_ctx q fs_machine = fs_ctx q log_machine"
  using log_machine_fields(4) [of i]
  by (simp_all add: fs_machine_defs log_machine_fields(1,2) blocked_def fs_ctx_def proc_ctx_def cpu_ok_def cur_def
      curproc_def free_lock_def del: upt_Suc)

lemma fs_super_size: "sb_size (sb_of fs_super) = 2" "sb_bmapstart (sb_of fs_super) = 35"
  "sb_inodestart (sb_of fs_super) = 36" "length fs_super = BSIZE"
  by (simp_all add: fs_super_def sb_of_def BSIZE_def get32_put32_other)

lemma fs_machine_ok: "bio_ok fs_machine"
proof -
  have each: "let c = bufs fs_machine ! i in
        length (b_data c) = BSIZE \<and> b_refcnt c = (if blocked fs_machine i then 1 else 0) \<and>
        (blocked fs_machine i \<or> bdirty c \<longrightarrow> bvalid c) \<and>
        (bvalid c \<longrightarrow> b_dev c = 1 \<and> unat (b_blockno c) < length (disk fs_machine)) \<and>
        (bvalid c \<and> \<not> bdirty c \<and> \<not> blocked fs_machine i \<longrightarrow> b_data c = disk fs_machine ! unat (b_blockno c))"
    if "i < NBUF" for i
    using that by (simp add: fs_machine_fields NBUF_def log_cell_def bvalid_def bdirty_def Let_def del: upt_Suc)
  have "\<exists>xs. linked xs (bufs fs_machine)" using log_machine_linked by (auto simp: fs_machine_fields)
  moreover have "\<forall>d\<in>set (disk fs_machine). length d = BSIZE"
    using fs_super_size(4) set_update_subset_insert [of "replicate 40 (replicate BSIZE 0)" 1 fs_super]
    unfolding fs_machine_fields(2) by fastforce
  ultimately show ?thesis using each unfolding bio_ok_def
    by (auto simp: fs_machine_fields NBUF_def log_cell_def simp del: upt_Suc split: if_splits)
qed

lemma fs_machine_tx: "tx 1 {} fs_machine"
proof -
  have "bview fs_machine = (bview log_machine)\<lparr>v_blk := blk fs_machine, v_disk := disk fs_machine, v_writes := dwrites fs_machine\<rparr>"
    by (simp add: bview_def fs_machine_fields log_machine_fields)
  then show ?thesis
    using fs_machine_ok log_machine_ctx(1) log_machine_log log_machine_view
    by (simp add: tx_def fs_machine_fields log_ok_def targets_def nlogged_def log_machine_fields LOGSIZE_def)
qed

lemma fs_machine_blk: "blk fs_machine 35 = replicate BSIZE 9" "blk fs_machine 1 = fs_super"
proof -
  show "blk fs_machine 35 = replicate BSIZE 9"
    using blk_cached [OF fs_machine_ok, of 0]
    by (simp add: NBUF_def fs_machine_fields log_cell_def bvalid_def del: upt_Suc)
  show "blk fs_machine 1 = fs_super"
    using tx_clean [OF fs_machine_tx, of 1]
    by (simp add: fs_machine_fields log_machine_fields targets_def nlogged_def)
qed

lemma fs_machine_bitmap:
  "bitmap_ok fs_machine" "used fs_machine 0" "\<not> used fs_machine 1" "first_free fs_machine 1"
proof -
  have b: "bmap_block fs_machine n = 35" if "n < 2" for n
    using less_2_cases [OF that] by (auto simp: bmap_block_def BBLOCK_def fs_machine_fields fs_super_size BPB_def)
  then show u: "used fs_machine 0" "\<not> used fs_machine 1"
    by (simp_all add: used_def fs_machine_blk bit_clear_def BPB_def BSIZE_def)
  then show "first_free fs_machine 1" by (simp add: first_free_def fs_machine_fields fs_super_size)
  show "bitmap_ok fs_machine"
    using b u by (auto simp: bitmap_ok_def fs_machine_fields fs_super_size outside_def log_machine_fields LOGSIZE_def
        less_2_cases_iff)
qed

theorem balloc_allocates_witness:
  "\<exists>t. balloc 1 fs_machine [] = Ok 1 t [] \<and> blk t 1 = replicate BSIZE 0 \<and> used t 1"
  using balloc_allocates [OF fs_machine_tx fs_machine_bitmap(1), of "[]"] fs_machine_bitmap(4)
  by (auto simp: fs_machine_fields fs_super_size log_machine_fields nlogged_def LOGSIZE_def)

theorem bfree_frees_witness:
  "(\<exists>t. bfree 1 0 fs_machine [] = Ok () t [] \<and> \<not> used t 0) \<and>
   bfree 1 1 fs_machine [] = Panic ''freeing free block''"
  using bfree_frees [OF fs_machine_tx fs_machine_bitmap(1), of 0 "[]"]
    bfree_frees [OF fs_machine_tx fs_machine_bitmap(1), of 1 "[]"] fs_machine_bitmap fs_machine_blk(2)
  by (auto simp: fs_machine_fields fs_super_size log_machine_fields nlogged_def LOGSIZE_def)

end
