(* ===== verification/Inode.thy ===== *)
theory Inode
  imports Balloc
begin

text \<open>
  Inodes on the disk: what \<open>iupdate\<close> writes is what \<open>ilock\<close> reads back into a cache entry, and the
  other inodes of the block are not touched.
\<close>

unbundle bit_operations_syntax

section \<open>The layout of an inode\<close>

lemma put_addrs_upto:
  fixes as :: "uint list"
  assumes "at + 128 \<le> length d" "m \<le> 29"
  defines "e \<equiv> fold (\<lambda>k d. put32 d (at + 12 + 4 * k) (as ! k)) [0..<m] d"
  shows "length e = length d" "\<And>k. k < m \<Longrightarrow> get32 e (at + 12 + 4 * k) = as ! k"
    "\<And>j. j < at + 12 \<or> at + 12 + 4 * m \<le> j \<Longrightarrow> e ! j = d ! j"
proof -
  have "length (fold (\<lambda>k d. put32 d (at + 12 + 4 * k) (as ! k)) [0..<m] d) = length d \<and>
      (\<forall>k<m. get32 (fold (\<lambda>k d. put32 d (at + 12 + 4 * k) (as ! k)) [0..<m] d) (at + 12 + 4 * k) = as ! k) \<and>
      (\<forall>j. j < at + 12 \<or> at + 12 + 4 * m \<le> j \<longrightarrow>
        fold (\<lambda>k d. put32 d (at + 12 + 4 * k) (as ! k)) [0..<m] d ! j = d ! j)"
    using assms(2)
  proof (induction m)
    case (Suc m)
    let ?e = "fold (\<lambda>k d. put32 d (at + 12 + 4 * k) (as ! k)) [0..<m] d"
    have "get32 (put32 ?e (at + 12 + 4 * m) (as ! m)) (at + 12 + 4 * k) = as ! k" if "k < Suc m" for k
      using that Suc assms(1) by (cases "k = m") (simp_all add: get32_put32_other)
    with Suc show ?case by (simp add: nth_put32)
  qed simp
  then show "length e = length d" "\<And>k. k < m \<Longrightarrow> get32 e (at + 12 + 4 * k) = as ! k"
    "\<And>j. j < at + 12 \<or> at + 12 + 4 * m \<le> j \<Longrightarrow> e ! j = d ! j" unfolding e_def by auto
qed

lemma get_cong:
  "(\<And>k. i \<le> k \<Longrightarrow> k < i + 4 \<Longrightarrow> e ! k = d ! k) \<Longrightarrow> get32 e i = get32 d i"
  "(\<And>k. i \<le> k \<Longrightarrow> k < i + 2 \<Longrightarrow> e ! k = d ! k) \<Longrightarrow> get16 e i = get16 d i"
  by (simp_all add: get32_def get16_def)

lemma put_dinode_bytes:
  assumes "at + 128 \<le> length d" "k < at \<or> at + 128 \<le> k"
  shows "put_dinode at ip d ! k = d ! k"
  using assms put_addrs_upto(3) [of at _ 29 k]
  by (auto simp: put_dinode_def put_addrs_def NDIRECT_def nth_put32 nth_put16)

lemma length_put_dinode: "at + 128 \<le> length d \<Longrightarrow> length (put_dinode at ip d) = length d"
  using put_addrs_upto(1) [of at _ 29] by (simp add: put_dinode_def put_addrs_def NDIRECT_def)

lemma get_put_dinode:
  assumes "at + 128 \<le> length d" "length (i_addrs ip) = 29"
  shows "get_dinode (put_dinode at ip d) at x =
    ip\<lparr>i_dev := i_dev x, i_inum := i_inum x, i_ref := i_ref x, i_valid := i_valid x\<rparr>"
proof -
  let ?d = "put32 (put16 (put16 (put16 (put16 d at (i_type ip)) (at + 2) (i_major ip)) (at + 4) (i_minor ip))
      (at + 6) (i_nlink ip)) (at + 8) (i_size ip)"
  have len: "at + 128 \<le> length ?d" using assms(1) by simp
  note P = put_addrs_upto [where as = "i_addrs ip", OF len order.refl [of 29]]
  have e: "put_dinode at ip d = fold (\<lambda>k d. put32 d (at + 12 + 4 * k) (i_addrs ip ! k)) [0..<29] ?d"
    by (simp add: put_dinode_def put_addrs_def NDIRECT_def)
  have a: "dinode_addrs (put_dinode at ip d) at = i_addrs ip"
    unfolding e dinode_addrs_def using P(2) assms(2) by (intro nth_equalityI) (simp_all add: NDIRECT_def del: upt_Suc)
  have g: "get16 (put_dinode at ip d) j = get16 ?d j" if "j + 2 \<le> at + 12" for j
    unfolding e using that by (intro get_cong P(3)) auto
  have h: "get32 (put_dinode at ip d) (at + 8) = get32 ?d (at + 8)"
    unfolding e by (intro get_cong P(3)) auto
  show ?thesis
    using a assms(1) by (simp add: get_dinode_def g h get_put_other)
qed

lemma get_dinode_other:
  assumes "at + 128 \<le> length d" "at' + 128 \<le> at \<or> at + 128 \<le> at'"
  shows "get_dinode (put_dinode at ip d) at' x = get_dinode d at' x"
proof -
  have b: "put_dinode at ip d ! k = d ! k" if "at' \<le> k" "k < at' + 128" for k
    using that assms by (intro put_dinode_bytes) auto
  have "get32 (put_dinode at ip d) j = get32 d j" if "at' \<le> j" "j + 4 \<le> at' + 128" for j
    using that by (intro get_cong b) auto
  moreover have "get16 (put_dinode at ip d) j = get16 d j" if "at' \<le> j" "j + 2 \<le> at' + 128" for j
    using that by (intro get_cong b) auto
  ultimately show ?thesis by (simp add: get_dinode_def dinode_addrs_def NDIRECT_def del: upt_Suc)
qed

section \<open>Writing and reading back\<close>

lemma dinode_fits: "dinode_at inum + 128 \<le> BSIZE"
  using mod_less_divisor [of 4 "unat inum"] unfolding dinode_at_def IPB_def BSIZE_def by linarith

lemma dinode_apart:
  "unat a mod IPB \<noteq> unat b mod IPB \<Longrightarrow> dinode_at a + 128 \<le> dinode_at b \<or> dinode_at b + 128 \<le> dinode_at a"
  unfolding dinode_at_def by linarith

lemma tx_cong:
  assumes "fs_ctx p t = fs_ctx p s" "bufs t = bufs s" "disk t = disk s" "dwrites t = dwrites s" "log t = log s"
    and "\<And>b. slocks t (BufSl b) = slocks s (BufSl b)"
  shows "tx p H t = tx p H s" "blk t = blk s" "buf_at t = buf_at s"
proof -
  have bl: "blocked t = blocked s" using assms(6) by (simp add: blocked_def fun_eq_iff)
  show b: "blk t = blk s" "buf_at t = buf_at s"
    unfolding blk_def buf_at_def fun_eq_iff assms bl by simp_all
  moreover have "bio_ok t = bio_ok s" unfolding bio_ok_def assms bl by simp
  moreover have "bview t = bview s" unfolding bview_def b assms bl by simp
  ultimately show "tx p H t = tx p H s" using assms by (simp add: tx_def)
qed

lemma fs_ctx_set_inode [simp]: "fs_ctx p (set_inode i f s) = fs_ctx p s"
  by (simp add: set_inode_def fs_ctx_def proc_ctx_def cpu_ok_def cur_def curproc_def free_lock_def)

lemma set_inode_simps [simp]:
  "log (set_inode i f s) = log s" "disk (set_inode i f s) = disk s" "sb (set_inode i f s) = sb s"
  "bufs (set_inode i f s) = bufs s" "dwrites (set_inode i f s) = dwrites s" "slocks (set_inode i f s) = slocks s"
  "i < length (icache s) \<Longrightarrow> icache (set_inode i f s) ! i = f (icache s ! i)"
  "length (icache (set_inode i f s)) = length (icache s)"
  by (simp_all add: set_inode_def)

lemma tx_set_inode [simp]:
  "tx p H (set_inode i f s) = tx p H s" "blk (set_inode i f s) = blk s" "buf_at (set_inode i f s) = buf_at s"
  by (rule tx_cong; simp)+

lemma tx_sl_taken:
  assumes "tx p H s"
  shows "tx p H (noted (sl_taken (InodeSl j) q s))" "blk (noted (sl_taken (InodeSl j) q s)) = blk s"
proof -
  let ?t = "noted (sl_taken (InodeSl j) q s)"
  have c: "fs_ctx p s" using assms by (simp add: tx_def)
  then have "proc_ctx p ?t" using proc_ctx_noted [of p "sl_taken (InodeSl j) q s"] by (simp add: fs_ctx_def sl_taken_def)
  with c have "fs_ctx p ?t = fs_ctx p s" by (simp add: fs_ctx_def sl_taken_def)
  moreover have "log ?t = log s" by (simp add: sl_taken_def set_sl_def)
  ultimately have "tx p H ?t = tx p H s \<and> blk ?t = blk s"
    by (intro conjI tx_cong) (simp_all add: sl_taken_def)
  with assms show "tx p H ?t" "blk ?t = blk s" by simp_all
qed

lemma iupdate_wp:
  assumes "tx p {} s" "i_dev (icache s ! i) = 1" "bno = IBLOCK (i_inum (icache s ! i)) (sb s)"
    and "unat bno < length (disk s)" "outside (log s) (unat bno)" "Suc (nlogged (log s)) < LOGSIZE"
    and "\<And>t. tx p {} t \<Longrightarrow> same_tx s t \<Longrightarrow> nlogged (log t) \<le> Suc (nlogged (log s)) \<Longrightarrow> blk t = (blk s)(unat bno :=
      put_dinode (dinode_at (i_inum (icache s ! i))) (icache s ! i) (blk s (unat bno))) \<Longrightarrow> Q () t"
  shows "wp (iupdate i) Q s"
proof -
  let ?f = "put_dinode (dinode_at (i_inum (icache s ! i))) (icache s ! i)"
  have "length (blk s (unat bno)) = BSIZE" using blk_length [of s "unat bno"] assms(1,4) by (simp add: tx_def)
  then have len: "length (?f (blk s (unat bno))) = BSIZE" using length_put_dinode dinode_fits by metis
  have "wp (bindK (bread 1 bno) (\<lambda>bp. block
      [modify (\<lambda>s. put_data bp (put_dinode (dinode_at (i_inum (icache s ! i))) (icache s ! i)) s), log_write bp, brelse bp])) Q s"
  proof (rule tx_update [OF assms(1,4) _ assms(5), where f = ?f])
    show "put_dinode (dinode_at (i_inum (icache t ! i))) (icache t ! i) = ?f" if "same_tx s t" for t
      using same_tx_fs(2) [OF that] by simp
    show "Q () t" if "tx p {} t" "same_tx s t" "blk t = (blk s)(unat bno := ?f (blk s (unat bno)))"
      "nlogged (log t) \<le> Suc (nlogged (log s))" for t
      using that by (intro assms(7))
  qed (use assms(6) len in simp_all)
  then show ?thesis
    unfolding iupdate_def wp_bind_simps assms(2) split_conv assms(3) [symmetric] .
qed

lemma fs_frame [simp]: "icache (noted s) = icache s" "sb (noted s) = sb s"
  by (simp_all add: noted_def set_cpu_def)

text \<open>The part of \<open>ilock\<close> that fills the entry.\<close>

definition ilock_load :: "nat \<Rightarrow> uint \<Rightarrow> uint \<Rightarrow> ('a fs_state_scheme, unit) K" where
  "ilock_load j dev bno = bindK (bread dev bno) (\<lambda>bp. block
     [modify (\<lambda>s. set_inode j (get_dinode (bdata s bp) (dinode_at (i_inum (icache s ! j)))) s),
      brelse bp,
      modify (set_inode j (i_valid_update (\<lambda>_. 1))),
      bindK (getsI j i_type) (\<lambda>t. whenK (t = 0) (panic ''ilock: no type''))])"

lemma ilock_load_wp:
  assumes tx: "tx p {} s" and j: "j < length (icache s)" and bno: "unat bno < length (disk s)"
    and x: "x = get_dinode (blk s (unat bno)) (dinode_at (i_inum (icache s ! j))) (icache s ! j)" "i_type x \<noteq> 0"
    and Q: "\<And>t. tx p {} t \<Longrightarrow> blk t = blk s \<Longrightarrow> icache t ! j = x\<lparr>i_valid := 1\<rparr> \<Longrightarrow>
      slocks t (InodeSl j) = slocks s (InodeSl j) \<Longrightarrow> Q () t"
  shows "wp (ilock_load j 1 bno) Q s"
  unfolding ilock_load_def
proof (rule wp_bind, rule tx_bread [OF tx bno], goal_cases)
  case (4 b t)
  note kt = same_tx_fs [OF 4(2)]
  let ?t = "set_inode j (get_dinode (bdata t b) (dinode_at (i_inum (icache t ! j)))) t"
  have d: "bdata t b = blk s (unat bno)" using buf_at_data(1) 4 by (fastforce simp: tx_def)
  have xt: "icache ?t ! j = x" using j d kt x(1) by simp
  have clean: "unat bno \<in> set (targets (log ?t)) \<or> blk ?t (unat bno) = disk ?t ! unat bno"
    using tx_clean [OF tx bno] 4 kt by auto
  have "wp (brelse b) (\<lambda>_. wp (thenK (modify (set_inode j (i_valid_update (\<lambda>_. 1))))
      (bindK (getsI j i_type) (\<lambda>t. whenK (t = 0) (panic ''ilock: no type'')))) Q) ?t"
  proof (rule tx_brelse [where p = p and H = "{unat bno}", OF _ _ clean], goal_cases)
    case (3 u)
    note ku = same_tx_fs [OF 3(2)]
    have "icache u ! j = x" "j < length (icache u)" using xt ku j kt by simp_all
    with 3 4 x(2) ku kt show ?case by (simp add: getsI_def whenK_def) (intro Q; simp)
  qed (use 4 in auto)
  then show ?case by (simp add: thenK_ret_unit wp_then)
qed (use tx log_okD(7) in \<open>auto simp: tx_def\<close>)

lemma ilock_wp:
  assumes tx: "tx p {} s" and j: "j < length (icache s)" "0 < sint (i_ref (icache s ! j))" "i_valid (icache s ! j) = 0"
    and dev: "i_dev (icache s ! j) = 1" and bno: "bno = IBLOCK (i_inum (icache s ! j)) (sb s)" "unat bno < length (disk s)"
    and sl: "sl_locked (slocks s (InodeSl j)) = 0"
    and x: "x = get_dinode (blk s (unat bno)) (dinode_at (i_inum (icache s ! j))) (icache s ! j)" "i_type x \<noteq> 0"
    and Q: "\<And>t. tx p {} t \<Longrightarrow> blk t = blk s \<Longrightarrow> icache t ! j = x\<lparr>i_valid := 1\<rparr> \<Longrightarrow> sl_locked (slocks t (InodeSl j)) = 1 \<Longrightarrow> Q () t"
  shows "wp (ilock (Some j)) Q s"
proof -
  let ?s = "noted (sl_taken (InodeSl j) p s)"
  have c: "fs_ctx p s" using tx by (simp add: tx_def)
  note s = tx_sl_taken [OF tx, of j p]
  have k: "icache ?s = icache s" "sb ?s = sb s" "disk ?s = disk s" "sl_locked (slocks ?s (InodeSl j)) = 1"
    by (simp_all add: sl_taken_def set_sl_def)
  have run: "acquiresleep (InodeSl j) s env = Ok () ?s env" for env
    using fs_ctxD [OF c] sl by (intro acquiresleep_free) auto
  have "wp (ilock_load j 1 bno) Q ?s"
    by (rule ilock_load_wp [OF s(1), of j bno x]) (use j(1) bno x k s(2) Q in auto)
  then have "wp (bindK (gets (\<lambda>s. (icache s ! j, sb s)))
      (\<lambda>(ip, sbl). whenK (i_valid ip = 0) (ilock_load j (i_dev ip) (IBLOCK (i_inum ip) sbl)))) Q ?s"
    unfolding wp_bind_simps k split_conv using j(3) dev bno(1) by (simp add: whenK_def)
  with run have "wp (acquiresleep (InodeSl j)) (\<lambda>_. wp (bindK (gets (\<lambda>s. (icache s ! j, sb s)))
      (\<lambda>(ip, sbl). whenK (i_valid ip = 0) (ilock_load j (i_dev ip) (IBLOCK (i_inum ip) sbl)))) Q) s"
    by (rule wp_eval)
  from wp_then [OF this] j(2) show ?thesis
    unfolding ilock_def option.case ilock_load_def by (simp add: getsI_def del: block.simps)
qed

text \<open>
  C37.  What \<open>iupdate\<close> writes is what \<open>ilock\<close> reads.  After \<open>iupdate\<close> of a cached inode, locking any
  cache entry that stands for the same inode and is not yet valid fills it with the type, the device
  numbers, the link count, the size and all block addresses of the inode written; the other inodes on the
  disk, those in the same block included, are not touched, and neither is any other block.
\<close>

theorem iupdate_ilock:
  assumes "tx p {} s" "i_dev (icache s ! i) = 1" "bno = unat (IBLOCK (i_inum (icache s ! i)) (sb s))"
    and "bno < length (disk s)" "outside (log s) bno" "Suc (nlogged (log s)) < LOGSIZE"
    and "length (i_addrs (icache s ! i)) = NDIRECT + 1" "i_type (icache s ! i) \<noteq> 0"
    and "j < length (icache s)" "sl_locked (slocks s (InodeSl j)) = 0"
    and "i_dev e = 1" "i_inum e = i_inum (icache s ! i)" "i_valid e = 0" "0 < sint (i_ref e)"
  shows "\<exists>t u. iupdate i s env = Ok () t env \<and> ilock (Some j) (set_inode j (\<lambda>_. e) t) env = Ok () u env \<and>
    icache u ! j = (icache s ! i)\<lparr>i_ref := i_ref e, i_valid := 1\<rparr> \<and> sl_locked (slocks u (InodeSl j)) = 1 \<and>
    (\<forall>inum x. unat inum mod IPB \<noteq> unat (i_inum (icache s ! i)) mod IPB \<longrightarrow>
       get_dinode (blk t bno) (dinode_at inum) x = get_dinode (blk s bno) (dinode_at inum) x) \<and>
    (\<forall>m. m \<noteq> bno \<longrightarrow> blk t m = blk s m)"
proof -
  let ?ip = "icache s ! i" and ?b = "IBLOCK (i_inum (icache s ! i)) (sb s)"
  let ?at = "dinode_at (i_inum ?ip)"
  have "length (blk s bno) = BSIZE" using assms(1,4) blk_length by (auto simp: tx_def)
  then have fits: "?at + 128 \<le> length (blk s bno)" using dinode_fits by simp
  have "wp (iupdate i) (\<lambda>_ t. tx p {} t \<and> same_tx s t \<and> blk t = (blk s)(bno := put_dinode ?at ?ip (blk s bno))) s"
    using assms(1-6) by (intro iupdate_wp [where bno = ?b]) auto
  then obtain t where t: "iupdate i s env = Ok () t env" "tx p {} t" "same_tx s t"
    "blk t = (blk s)(bno := put_dinode ?at ?ip (blk s bno))" using wp_Ok [of "iupdate i" _ s env] by auto
  note k = same_tx_fs [OF t(3)]
  let ?t = "set_inode j (\<lambda>_. e) t" and ?x = "?ip\<lparr>i_ref := i_ref e, i_valid := i_valid e\<rparr>"
  have x: "get_dinode (blk ?t bno) ?at e = ?x"
    using get_put_dinode [OF fits, of ?ip e] assms(2,7,11,12) t(4) by (simp add: NDIRECT_def)
  have "wp (ilock (Some j)) (\<lambda>_ u. icache u ! j = ?x\<lparr>i_valid := 1\<rparr> \<and> sl_locked (slocks u (InodeSl j)) = 1) ?t"
    by (rule ilock_wp [where p = p and bno = ?b and x = ?x]) (use t k assms x in auto)
  then obtain u where "ilock (Some j) ?t env = Ok () u env" "icache u ! j = ?x\<lparr>i_valid := 1\<rparr>"
    "sl_locked (slocks u (InodeSl j)) = 1" using wp_Ok [of "ilock (Some j)" _ ?t env] by auto
  with t get_dinode_other [OF fits] dinode_apart show ?thesis by (intro exI [of _ t] exI [of _ u]) auto
qed

definition fs_inode :: inode where
  "fs_inode = \<lparr>i_dev = 1, i_inum = 1, i_ref = 1, i_valid = 0, i_type = 2, i_major = 0, i_minor = 0, i_nlink = 1,
     i_size = 5, i_addrs = replicate 29 7\<rparr>"

lemma fs_machine_inodes: "icache fs_machine = replicate 50 fs_inode" "sl_locked (slocks fs_machine (InodeSl j)) = 0"
  by (simp_all add: fs_machine_defs log_machine_defs fs_inode_def NINODE_def del: upt_Suc)

theorem iupdate_ilock_witness:
  "\<exists>t u. iupdate 0 fs_machine [] = Ok () t [] \<and> ilock (Some 1) (set_inode 1 (\<lambda>_. fs_inode) t) [] = Ok () u [] \<and>
     i_size (icache u ! 1) = 5"
proof -
  have b: "unat (IBLOCK (i_inum (icache fs_machine ! 0)) (sb fs_machine)) = 36"
    by (simp add: fs_machine_inodes fs_inode_def IBLOCK_def IPB_def fs_machine_fields fs_super_size)
  have "outside (log fs_machine) 36" "Suc (nlogged (log fs_machine)) < LOGSIZE"
    by (simp_all add: fs_machine_fields log_machine_fields outside_def nlogged_def LOGSIZE_def)
  with b show ?thesis
    using iupdate_ilock [OF fs_machine_tx _ b [symmetric], of 1 fs_inode "[]"]
    by (auto simp: fs_machine_inodes fs_machine_fields NDIRECT_def) (auto simp: fs_inode_def)
qed

end
