(* ===== verification/Path.thy ===== *)
theory Path
  imports Fs
begin

text \<open>
  Path names: the loop of \<open>namex\<close> over \<open>skipelem\<close> visits the components of the path between the
  slashes, one after the other, each cut to the \<open>DIRSIZ\<close> bytes a directory entry has room for.
\<close>

section \<open>The components of a path\<close>

fun path_split :: "byte list \<Rightarrow> byte list list" where
  "path_split [] = [[]]"
| "path_split (c # cs) = (if c = slash then [] # path_split cs
     else case path_split cs of [] \<Rightarrow> [[c]] | e # es \<Rightarrow> (c # e) # es)"

definition path_elems :: "byte list \<Rightarrow> byte list list" where
  "path_elems path = filter (\<lambda>e. e \<noteq> []) (path_split path)"

lemma path_split_ne: "path_split cs \<noteq> []"
  by (induction cs) (auto split: list.split)

lemma path_split_step:
  "path_split cs = takeWhile ((\<noteq>) slash) cs #
     (case dropWhile ((\<noteq>) slash) cs of [] \<Rightarrow> [] | _ # ds \<Rightarrow> path_split ds)"
proof (induction cs)
  case (Cons c cs)
  then show ?case by (cases "c = slash") auto
qed simp

lemma path_elems_slashes: "path_elems (dropWhile ((=) slash) path) = path_elems path"
  by (induction path) (auto simp: path_elems_def)

lemma path_elems_step:
  assumes "path \<noteq> []" "hd path \<noteq> slash"
  shows "path_elems path = takeWhile ((\<noteq>) slash) path # path_elems (dropWhile ((\<noteq>) slash) path)"
proof -
  have "takeWhile ((\<noteq>) slash) path \<noteq> []" using assms by (cases path) auto
  moreover have "path_elems (dropWhile ((\<noteq>) slash) path) =
      filter (\<lambda>e. e \<noteq> []) (case dropWhile ((\<noteq>) slash) path of [] \<Rightarrow> [] | _ # ds \<Rightarrow> path_split ds)"
  proof (cases "dropWhile ((\<noteq>) slash) path")
    case Nil
    show ?thesis unfolding Nil by (simp add: path_elems_def)
  next
    case (Cons d ds)
    then have "d = slash" using hd_dropWhile [of "(\<noteq>) slash" path] by auto
    with Cons show ?thesis by (simp add: path_elems_def)
  qed
  ultimately show ?thesis unfolding path_elems_def by (subst path_split_step) simp
qed

lemma skipelem_elems:
  assumes "skipelem path name = r"
  shows "case r of None \<Rightarrow> path_elems path = []
    | Some (name', path') \<Rightarrow> \<exists>e. path_elems path = e # path_elems path' \<and> set path' \<subseteq> set path \<and> set e \<subseteq> set path \<and>
        name' = (if DIRSIZ \<le> length e then take DIRSIZ e @ drop DIRSIZ name else e @ [0] @ drop (length e + 1) name)"
proof -
  let ?q = "dropWhile ((=) slash) path"
  show ?thesis
  proof (cases "?q = []")
    case True
    then have "path_elems path = []" using path_elems_slashes [of path] unfolding True by (simp add: path_elems_def)
    with True assms show ?thesis by (auto simp: skipelem_def)
  next
    case False
    then have "hd ?q \<noteq> slash" using hd_dropWhile [of "(=) slash" path] by auto
    then have e: "path_elems path = takeWhile ((\<noteq>) slash) ?q # path_elems (dropWhile ((\<noteq>) slash) ?q)"
      using path_elems_step [OF False] path_elems_slashes [of path] by simp
    have d: "drop (length (takeWhile ((\<noteq>) slash) ?q)) ?q = dropWhile ((\<noteq>) slash) ?q"
      by (simp add: dropWhile_eq_drop)
    show ?thesis using False assms e path_elems_slashes [of "dropWhile ((\<noteq>) slash) ?q"]
      by (auto simp: skipelem_def Let_def d dest!: set_takeWhileD set_dropWhileD)
  qed
qed

text \<open>The names \<open>namex\<close> looks up, in order.\<close>

function walk :: "byte list \<Rightarrow> byte list \<Rightarrow> byte list list" where
  "walk path name = (case skipelem path name of None \<Rightarrow> [] | Some (name', path') \<Rightarrow> name' # walk path' name')"
  by pat_completeness auto

termination walk
  by (relation "measure (\<lambda>(path, name). length path)") (auto dest: skipelem_shorter)

declare walk.simps [simp del]

definition c_string :: "byte list \<Rightarrow> byte list" where
  "c_string cs = takeWhile (\<lambda>c. c \<noteq> 0) cs"

lemma c_string_name:
  assumes "0 \<notin> set e" "length name = DIRSIZ"
  defines "n \<equiv> (if DIRSIZ \<le> length e then take DIRSIZ e @ drop DIRSIZ name else e @ [0] @ drop (length e + 1) name)"
  shows "c_string n = take DIRSIZ e" "length n = DIRSIZ"
  using assms by (auto simp: c_string_def takeWhile_eq_all_conv takeWhile_append dest: in_set_takeD)

text \<open>
  C38.  Walking a path with \<open>skipelem\<close> visits its components.  For every path without NUL bytes the
  names that arrive in \<open>name\<close>, one per call until it returns 0, are the non-empty pieces between the
  slashes, in order, each cut to 14 bytes; repeated, leading and trailing slashes do not matter, and
  the walk ends.
\<close>

theorem skipelem_walk:
  assumes "0 \<notin> set path" "length name = DIRSIZ"
  shows "map c_string (walk path name) = map (take DIRSIZ) (path_elems path)"
  using assms
proof (induction path name rule: walk.induct)
  case (1 path name)
  note s = skipelem_elems [of path name, OF refl]
  show ?case
  proof (cases "skipelem path name")
    case None
    with s show ?thesis by (subst walk.simps) simp
  next
    case (Some r)
    obtain name' path' where r: "r = (name', path')" by fastforce
    with s Some obtain e where e: "path_elems path = e # path_elems path'" "set path' \<subseteq> set path" "set e \<subseteq> set path"
      and n: "name' = (if DIRSIZ \<le> length e then take DIRSIZ e @ drop DIRSIZ name else e @ [0] @ drop (length e + 1) name)"
      by auto
    have "0 \<notin> set e" "0 \<notin> set path'" using e 1(2) by auto
    with c_string_name [of e name] 1(3) n have "c_string name' = take DIRSIZ e" "length name' = DIRSIZ" by auto
    with 1(1) [OF Some r [symmetric]] \<open>0 \<notin> set path'\<close> Some r e show ?thesis by (subst walk.simps) simp
  qed
qed

theorem skipelem_walk_witness:
  "map c_string (walk [47, 47, 97, 47, 47, 98, 98, 47] (replicate 14 0)) = [[97], [98, 98]]"
proof -
  have "path_elems [47, 47, 97, 47, 47, 98, 98, 47] = [[97], [98, 98]]"
    by (simp add: path_elems_def slash_def)
  then show ?thesis
    using skipelem_walk [of "[47, 47, 97, 47, 47, 98, 98, 47]" "replicate 14 0"] by (simp add: DIRSIZ_def)
qed

end
