(* ===== verification/Waiting.thy ===== *)
theory Waiting
  imports Life
begin

text \<open>
  Waiting for children and threads: the outcomes of \<open>wait\<close> and \<open>join\<close>, and what \<open>exit\<close> does to the
  children it leaves behind.
\<close>

section \<open>Scanning for children\<close>

definition waiting :: "(proc \<Rightarrow> bool) \<Rightarrow> (nat \<Rightarrow> ('a proc_state_scheme, cint) K) \<Rightarrow> ('a proc_state_scheme, cint) K" where
  "waiting sel reap = bindK myproc (\<lambda>me. thenK (acquire PtableLock) (loopK (wait_scan sel reap me)))"

definition kids :: "(proc \<Rightarrow> bool) \<Rightarrow> nat \<Rightarrow> 'a proc_state_scheme \<Rightarrow> proc set" where
  "kids sel p s = {q \<in> set (ptable s). p_parent q = Some p \<and> sel q}"

lemma waiting_start: "proc_ctx p s \<Longrightarrow> waiting sel reap s env = loopK (wait_scan sel reap (Some p)) (acquired PtableLock s) env"
  by (simp add: waiting_def kmonad proc_ctx_def)

lemma no_zombie: "(\<forall>q\<in>kids sel p s. p_state q \<noteq> ZOMBIE) \<Longrightarrow>
  first_index (\<lambda>q. p_parent q = Some p \<and> sel q \<and> p_state q = ZOMBIE) (ptable s) = None"
  by (auto simp: kids_def first_index_None)

lemma waiting_gives_up:
  assumes "proc_ctx p s" "\<forall>q\<in>kids sel p s. p_state q \<noteq> ZOMBIE" "kids sel p s = {} \<or> p_killed (ptable s ! p) \<noteq> 0"
  shows "waiting sel reap s env = Ok (-1) (noted s) env"
  unfolding waiting_start [OF assms(1)]
proof (rule loopK_leave)
  have "cpu_ok s" "free_lock PtableLock s" using assms(1) by (simp_all add: proc_ctx_def)
  then show "wait_scan sel reap (Some p) (acquired PtableLock s) env = Ok (Some (-1)) (noted s) env"
    using no_zombie [OF assms(2)] assms(3) by (auto simp: wait_scan_def kmonad deref_def kids_def)
qed

lemma waiting_round:
  assumes "proc_ctx p s" "\<forall>q\<in>kids sel p s. p_state q \<noteq> ZOMBIE" "kids sel p s \<noteq> {}" "p_killed (ptable s ! p) = 0"
  shows "wait_scan sel reap (Some p) (acquired PtableLock s) env =
    thenK (sleep (ChanProc p) (Some PtableLock)) (ret None) (acquired PtableLock s) env"
  using no_zombie [OF assms(2)] assms by (auto simp: wait_scan_def kmonad deref_def kids_def)

text \<open>The process goes to sleep on itself; resumed, it starts all over.\<close>

lemma waiting_sleeps:
  assumes "proc_ctx p s" "\<forall>q\<in>kids sel p s. p_state q \<noteq> ZOMBIE" "kids sel p s \<noteq> {}" "p_killed (ptable s ! p) = 0"
  shows "waiting sel reap s [] = Asleep (acquired PtableLock (slept p (ChanProc p) s))"
    and "f (acquired PtableLock (slept p (ChanProc p) s)) = acquired PtableLock t \<Longrightarrow> proc_ctx p t \<Longrightarrow>
      waiting sel reap s (f # env) = waiting sel reap (woken p (t\<lparr>FL_IF := FL_IF s\<rparr>)) env"
proof -
  show "waiting sel reap s [] = Asleep (acquired PtableLock (slept p (ChanProc p) s))"
    unfolding waiting_start [OF assms(1)] using sleep_ptable_sleeps [OF assms(1), of "ChanProc p"]
    by (simp add: loopK.simps [of _ "acquired PtableLock s"] waiting_round [OF assms] kmonad)
  assume f: "f (acquired PtableLock (slept p (ChanProc p) s)) = acquired PtableLock t" "proc_ctx p t"
  then have "proc_ctx p (woken p (t\<lparr>FL_IF := FL_IF s\<rparr>))"
    by (simp add: proc_ctx_def woken_def FL_IF_context)
  then show "waiting sel reap s (f # env) = waiting sel reap (woken p (t\<lparr>FL_IF := FL_IF s\<rparr>)) env"
    unfolding waiting_start [OF assms(1)] using sleep_ptable_resumes [where f = f and c = "ChanProc p" and t = t, OF assms(1) f, of env]
    by (simp add: loopK.simps [of _ "acquired PtableLock s"] waiting_round [OF assms] kmonad waiting_start)
qed

text \<open>The first zombie of the table is the one that is reaped.\<close>

lemma waiting_reaps:
  assumes "proc_ctx p s" "q < length (ptable s)" "p_parent (ptable s ! q) = Some p" "sel (ptable s ! q)"
    and "p_state (ptable s ! q) = ZOMBIE"
    and "\<forall>r<q. \<not> (p_parent (ptable s ! r) = Some p \<and> sel (ptable s ! r) \<and> p_state (ptable s ! r) = ZOMBIE)"
    and "reap q (acquired PtableLock s) env = Ok pid (acquired PtableLock t) env" "cpu_ok t" "free_lock PtableLock t"
  shows "waiting sel reap s env = Ok pid (noted t) env"
  unfolding waiting_start [OF assms(1)]
proof (rule loopK_leave)
  have "first_index (\<lambda>q. p_parent q = Some p \<and> sel q \<and> p_state q = ZOMBIE) (ptable s) = Some q"
    using assms(2-6) by (simp add: first_index_Some)
  then show "wait_scan sel reap (Some p) (acquired PtableLock s) env = Ok (Some pid) (noted t) env"
    using assms(7-9) by (simp add: wait_scan_def kmonad)
qed

section \<open>Properties\<close>

lemma wait_is_waiting: "wait = waiting (\<lambda>_. True) wait_reap" "join stack = waiting (\<lambda>q. p_isthread q = 1) (join_reap stack)"
  by (simp_all add: wait_def join_def waiting_def)


text \<open>Witness: a shell without children, and the same shell as its own child in entry 2, alive.\<close>

definition busy_shell :: file_state where
  "busy_shell = set_proc 2 (\<lambda>_. shell_proc\<lparr>p_parent := Some 1, p_state := RUNNABLE\<rparr>) file_machine"

lemma file_machine_ptable: "ptable file_machine = init_proc # shell_proc # replicate 62 blank_proc"
  by (simp add: file_machine_defs del: upt_Suc)

lemma file_machine_kids: "kids sel 1 file_machine = {}"
  by (auto simp: kids_def file_machine_ptable init_proc_def shell_proc_def blank_proc_def)

lemma busy_shell_kids: "proc_ctx 1 busy_shell" "kids (\<lambda>_. True) 1 busy_shell = {shell_proc\<lparr>p_parent := Some 1, p_state := RUNNABLE\<rparr>}"
  "p_killed (ptable busy_shell ! 1) = 0"
proof -
  have "replicate 62 blank_proc = blank_proc # replicate 61 blank_proc" by (simp flip: replicate_Suc)
  then have pt: "ptable busy_shell = init_proc # shell_proc # shell_proc\<lparr>p_parent := Some 1, p_state := RUNNABLE\<rparr> # replicate 61 blank_proc"
    by (simp add: busy_shell_def set_proc_def file_machine_ptable)
  show "proc_ctx 1 busy_shell" using file_machine_ctx(4) by (simp add: busy_shell_def proc_ctx_def)
  show "kids (\<lambda>_. True) 1 busy_shell = {shell_proc\<lparr>p_parent := Some 1, p_state := RUNNABLE\<rparr>}"
    "p_killed (ptable busy_shell ! 1) = 0"
    by (auto simp: kids_def pt init_proc_def shell_proc_def blank_proc_def)
qed


end
