(* ===== verification/Spec2Isabelle.thy ===== *)
theory Spec2Isabelle
  imports Preempt Inode Path Waiting
begin

text \<open>
  A verification library for the teaching operating system under \<open>src/Lab/code\<close>, a derivative of xv6
  for the x86: locks, memory management, processes and their scheduling policies, semaphores and
  threads, pipes, a buffer cache, a write-ahead log, a file system, program loading, the console, traps
  and system calls.

  \<^bold>\<open>How the code is modelled.\<close>  Every C function is a function of the same name in the kernel monad
  of \<open>Prelude\<close>: from a state and a list \<open>env\<close> of things the rest of the machine does, to an outcome.
  \<open>Ok a s env\<close> is a return with a result, \<open>Panic e\<close> a call of \<open>panic\<close> (with \<open>''trap''\<close> a fault of
  the kernel, such as a null dereference), \<open>Spin\<close> a loop that goes round for ever, and \<open>Asleep s\<close> a thread
  that gave its CPU to the scheduler and was not resumed.  Wherever the code spins or sleeps, the next
  element of \<open>env\<close> says what the other CPUs and processes made of the state meanwhile; statements about a
  function for every \<open>env\<close> are statements about every interleaving at those points.  A machine integer is
  a word of its width, so every wrap-around is that of the code; memory is a function from 32-bit addresses
  to bytes, and the structures the code keeps inside pages (the free list, page tables, trap frames,
  user stacks) are read from and written to it.  The other structures are records with the fields of
  the C structures, tables are lists, a pointer into a table is an index, a null pointer is \<open>None\<close>.

  The state grows along the theories, one record extension per component, and a function is polymorphic
  in the components that come later.  A buffer in user memory that a system call fills or reads is a list of
  bytes at the inner functions and a range of user addresses, translated through the page table of the
  process, at the system calls (\<open>Umem\<close>, \<open>Sysargs\<close>).

  \<^bold>\<open>The theories.\<close>
    \<^item> \<open>Prelude\<close>: the kernel monad, its loops, lists and words.
    \<^item> \<open>Spinlock\<close> (\<open>spinlock.c\<close>, \<open>mycpu\<close> of \<open>proc.c\<close>): locks and interrupt nesting; mutual exclusion for
      any number of CPUs by an inductive step relation over the atomic instructions of
      \<open>acquire\<close> and \<open>release\<close>, what \<open>acquire\<close> guarantees when it returns, and how a critical
      section evaluates (\<open>acquired\<close>, \<open>noted\<close>), which all later proofs use.
    \<^item> \<open>Memory\<close>, \<open>Kstring\<close> (\<open>string.c\<close>, \<open>memlayout.h\<close>, \<open>mmu.h\<close>): byte memory, \<open>memmove\<close> for every
      overlap, \<open>strncmp\<close> and \<open>strncpy\<close>, \<open>safestrcpy\<close>.
    \<^item> \<open>Kalloc\<close> (\<open>kalloc.c\<close>): the page allocator, with the free list threaded through the free pages.
    \<^item> \<open>Proc\<close>, \<open>Sched\<close>, \<open>Sema\<close>, \<open>Life\<close> (\<open>proc.c\<close>, \<open>proc.h\<close>, \<open>sdh.h\<close>): the process table, sleep and
      wakeup, the five policies and the scheduler round, semaphores, process creation, exit and waiting,
      threads; \<open>Waiting\<close> has the outcomes of \<open>wait\<close> and \<open>join\<close>.
    \<^item> \<open>Vm\<close> (\<open>vm.c\<close>): page tables in memory and the address translation they define; \<open>Umem\<close>: loads
      and stores of user memory through it.
    \<^item> \<open>Sleeplock\<close> (\<open>sleeplock.c\<close>), \<open>Ring\<close> and \<open>Bio\<close> (\<open>bio.c\<close>, \<open>memide.c\<close>), \<open>Log\<close> (\<open>log.c\<close>), \<open>Fs\<close>
      (\<open>fs.c\<close>): the storage stack.  \<open>Runs\<close> has the rules for undisturbed runs the proofs there use,
      \<open>Tx\<close> the ones for reading and changing blocks inside a transaction; on them stand \<open>Balloc\<close> (the free
      bitmap), \<open>Inode\<close> (inodes on the disk) and \<open>Path\<close> (the components of a path name).
    \<^item> \<open>Fifo\<close>, \<open>Pipe\<close> (\<open>pipe.c\<close>), \<open>File\<close> (\<open>file.c\<close>): bounded byte queues, pipes that implement them, open
      files and their reference counts.
    \<^item> \<open>Exec\<close> (\<open>exec.c\<close>), \<open>Sysargs\<close> (\<open>syscall.c\<close>), \<open>Sysproc\<close> (\<open>sysproc.c\<close>), \<open>Sysfile\<close> (\<open>sysfile.c\<close>),
      \<open>Console\<close> and \<open>Line\<close> (\<open>console.c\<close>), \<open>Trap\<close> (\<open>trap.c\<close> and the table of \<open>syscall.c\<close>): program loading,
      system calls, console output and the line editor of its input, and the trap dispatcher; \<open>Preempt\<close> follows a timer interrupt
      through them.

  \<^bold>\<open>Interfaces.\<close>  Locales state what one component promises another: critical sections
  (\<open>lock_section\<close> in \<open>Spinlock\<close>), a page allocator (\<open>page_allocator\<close> in \<open>Kalloc\<close>), a scheduling policy
  (\<open>sched_policy\<close> in \<open>Sched\<close>, interpreted on all five policies), a cache of blocks (\<open>block_cache\<close>
  in \<open>Bio\<close>, on which the log is verified) and a bounded queue (\<open>fifo\<close> in \<open>Fifo\<close>, implemented by pipes).
  Each is interpreted on the model's own functions.

  \<^bold>\<open>Bounds and fuel.\<close>  A waiting loop is \<open>loopK\<close>, which consumes \<open>env\<close> and so ends.  A loop over addresses
  carries a bound of more rounds than there are pages, \<open>2 ^ 20\<close>, and runs into \<open>Spin\<close> beyond it: a loop that
  goes round more often has wrapped around the address space.  Round robin scans at most \<open>NPROC\<close> entries.
  All other loops are recursions with a termination proof.  Theorems that say a routine returns state
  it as such, with \<open>Ok\<close> as the outcome.

  \<^bold>\<open>Undisturbed runs.\<close>  The proofs about \<open>Bio\<close>, \<open>Log\<close>, the file system and the console use \<open>wp m Q s\<close>: the routine
  returns without waiting, with \<open>Q\<close> of result and state.  They hold for the runs in which the locks
  needed are free; what happens while a lock is contended is the business of the theorems on
  \<open>acquire\<close>, \<open>sleep\<close> and \<open>acquiresleep\<close>.

  \<^bold>\<open>Not modelled.\<close>  Device programming (\<open>lapic.c\<close>, \<open>ioapic.c\<close>, \<open>picirq.c\<close>, \<open>uart.c\<close>, \<open>kbd.c\<close>,
  \<open>ide.c\<close>; the disk is the one of \<open>memide.c\<close>), the boot path and the assembly files, whose effects are
  outside of the state the C code computes with.  \<open>swtch\<close> appears as the step that gives the CPU to the
  scheduler.  The saved call stacks of locks, \<open>procdump\<close> and the diagnostic messages of traps are debugging
  output.  User programs and the host program \<open>mkfs.c\<close> are clients of the modelled interfaces.
\<close>

end
